(* ===== verification/Prelude.thy ===== *)
theory Prelude
  imports Main "HOL-Library.Word" "HOL-Library.Monad_Syntax" "HOL-Library.Multiset"
begin

text \<open>
  Shared vocabulary of the development: the machine types of the C++ sources, bit strings
  (most significant bit first, the order in which the bit streams emit them), little-endian
  byte strings (the layout of the headers on the target), the bit-counting builtins of the
  compiler, and the infinite zero-extended stream view of a finite bit string.

  Failure convention: a C++ operation whose \<open>assert\<close> fails, or whose behaviour the language
  leaves undefined (a shift by the full width, an access outside an array), is modelled by
  \<^const>\<open>None\<close>.  A theorem that an operation returns \<open>Some\<close> therefore includes that
  it runs without assertion failure and without undefined behaviour.
\<close>

unbundle bit_operations_syntax

named_theorems bitlist_simps \<open>normal forms of bit strings\<close>

section \<open>Machine types\<close>

type_synonym u8 = "8 word"
type_synonym u16 = "16 word"
type_synonym u32 = "32 word"
type_synonym u64 = "64 word"

text \<open>An \<open>int32_t\<close> is a 32-bit word read with \<^const>\<open>sint\<close>.\<close>

type_synonym int32 = "32 word"

text \<open>A \<open>double\<close> is carried by its 64-bit pattern, as the \<open>DOUBLE\<close> unions of the sources
  view it.\<close>

type_synonym double = "64 word"

text \<open>Conversion of a mathematical integer to \<open>int32_t\<close> and \<open>int16_t\<close> (two's complement).\<close>

definition i32 :: "int \<Rightarrow> int" where
  "i32 x = signed_take_bit 31 x"

lemma i32_id [simp]: "- (2 ^ 31) \<le> x \<Longrightarrow> x < 2 ^ 31 \<Longrightarrow> i32 x = x"
  unfolding i32_def by (simp add: signed_take_bit_int_eq_self)

section \<open>Bit strings\<close>

text \<open>\<open>to_bits n w\<close>: the low \<open>n\<close> bits of \<open>w\<close>, most significant first;
  \<open>of_bits\<close>: the 64-bit value of a bit string.\<close>

definition to_bits :: "nat \<Rightarrow> 'a::len word \<Rightarrow> bool list" where
  "to_bits n w = rev (map (bit w) [0..<n])"

definition of_bits :: "bool list \<Rightarrow> u64" where
  "of_bits bs = horner_sum of_bool 2 (rev bs)"

lemma length_to_bits [simp]: "length (to_bits n w) = n"
  by (simp add: to_bits_def)

lemma to_bits_0 [simp]: "to_bits 0 w = []"
  by (simp add: to_bits_def)

lemma nth_to_bits: "i < n \<Longrightarrow> to_bits n w ! i = bit w (n - Suc i)"
  by (simp add: to_bits_def rev_nth)

lemma of_bits_to_bits [simp]: "of_bits (to_bits n w) = take_bit n w"
  by (simp add: of_bits_def to_bits_def horner_sum_bit_eq_take_bit)

lemma bit_of_bits: "bit (of_bits bs) k \<longleftrightarrow> k < 64 \<and> k < length bs \<and> bs ! (length bs - Suc k)"
  by (auto simp: of_bits_def bit_horner_sum_bit_word_iff rev_nth)

lemma to_bits_of_bits: "length bs \<le> 64 \<Longrightarrow> to_bits (length bs) (of_bits bs) = bs"
  by (rule nth_equalityI) (auto simp: nth_to_bits bit_of_bits)

lemma to_bits_cong: "(\<And>k. k < n \<Longrightarrow> bit v k = bit w k) \<Longrightarrow> to_bits n v = to_bits n w"
  by (simp add: to_bits_def)

lemma to_bits_add: "to_bits (m + n) w = to_bits m (drop_bit n w) @ to_bits n w"
  by (rule nth_equalityI)
     (auto simp: nth_to_bits nth_append bit_drop_bit_eq intro!: arg_cong [of _ _ "bit w"])

lemma to_bits_take_bit [simp]: "n \<le> m \<Longrightarrow> to_bits n (take_bit m w) = to_bits n w"
  by (rule to_bits_cong) (simp add: bit_take_bit_iff)

lemma to_bits_ucast32: "n \<le> 32 \<Longrightarrow> to_bits n (ucast (w :: u64) :: u32) = to_bits n w"
  by (rule to_bits_cong) (simp add: bit_ucast_iff)

lemma to_bits_scast64: "n \<le> 32 \<Longrightarrow> to_bits n (scast (w :: u32) :: u64) = to_bits n w"
  by (rule to_bits_cong) (simp add: bit_simps)

text \<open>The natural number a bit string denotes.\<close>

fun bits_nat :: "bool list \<Rightarrow> nat" where
  "bits_nat [] = 0"
| "bits_nat (b # bs) = of_bool b * 2 ^ length bs + bits_nat bs"

lemma bits_nat_less: "bits_nat bs < 2 ^ length bs"
  by (induction bs) auto

lemma bits_nat_append: "bits_nat (xs @ ys) = bits_nat xs * 2 ^ length ys + bits_nat ys"
  by (induction xs) (auto simp: power_add algebra_simps)

lemma bits_nat_max: "bits_nat bs = 2 ^ length bs - 1 \<longleftrightarrow> (\<forall>b \<in> set bs. b)"
proof (induction bs)
  case (Cons b bs)
  have "bits_nat bs < 2 ^ length bs" by (rule bits_nat_less)
  with Cons show ?case by (cases b) auto
qed simp

lemma of_bits_nat: "of_bits bs = of_nat (bits_nat bs)"
  by (induction bs) (simp_all add: of_bits_def horner_sum_append)

lemma unat_of_bits:
  assumes "length bs \<le> 64"
  shows "unat (of_bits bs) = bits_nat bs"
proof -
  have "bits_nat bs < 2 ^ 64"
    using bits_nat_less [of bs] assms power_increasing [of "length bs" 64 "2::nat"] by simp
  then show ?thesis by (simp add: of_bits_nat unat_of_nat)
qed

text \<open>A finite bit string read as an infinite stream of bits, continued by zeros.\<close>

definition bits_stream :: "bool list \<Rightarrow> nat \<Rightarrow> bool" where
  "bits_stream bs i \<longleftrightarrow> i < length bs \<and> bs ! i"

lemma bits_stream_drop: "bits_stream (drop n bs) i = bits_stream bs (n + i)"
  by (auto simp: bits_stream_def)

lemma bits_stream_zeros: "bits_stream (bs @ replicate n False) = bits_stream bs"
  by (rule ext) (auto simp: bits_stream_def nth_append)

lemma bits_stream_map:
  "n \<le> length bs \<Longrightarrow> map (bits_stream bs) [0..<n] = take n bs"
  by (rule nth_equalityI) (auto simp: bits_stream_def)

text \<open>\<open>starts s bs\<close>: the stream \<open>s\<close> begins with the bit string \<open>bs\<close>.\<close>

definition starts :: "(nat \<Rightarrow> bool) \<Rightarrow> bool list \<Rightarrow> bool" where
  "starts s bs \<longleftrightarrow> map s [0..<length bs] = bs"

lemma starts_Nil [simp]: "starts s []"
  by (simp add: starts_def)

lemma starts_append:
  "starts s (xs @ ys) \<longleftrightarrow> starts s xs \<and> starts (\<lambda>i. s (length xs + i)) ys"
proof -
  have "map s [0..<length xs + length ys] =
        map s [0..<length xs] @ map (\<lambda>i. s (length xs + i)) [0..<length ys]"
    by (rule nth_equalityI) (auto simp: nth_append)
  then show ?thesis
    by (simp add: starts_def)
qed

lemma starts_bits_stream: "starts (bits_stream (xs @ ys)) xs"
  by (simp add: starts_def bits_stream_map)

section \<open>Words as strings of 32 bits\<close>

definition words_bits :: "u32 list \<Rightarrow> bool list" where
  "words_bits ws = concat (map (to_bits 32) ws)"

lemma words_bits_simps [simp]:
  "words_bits [] = []"
  "words_bits (w # ws) = to_bits 32 w @ words_bits ws"
  "words_bits (us @ vs) = words_bits us @ words_bits vs"
  by (simp_all add: words_bits_def)

lemma length_words_bits [simp]: "length (words_bits ws) = 32 * length ws"
  by (induction ws) auto

section \<open>Bit-counting builtins\<close>

text \<open>\<open>__builtin_clz\<close>, \<open>__builtin_ctz\<close> and \<open>__builtin_popcount\<close> (and their \<open>l\<close>/\<open>ll\<close>
  variants, by the width of the argument).  The result of the first two on 0 is undefined; the
  definitions below return the width there, and the components that rely on a defined value
  say so.\<close>

definition clz :: "'a::len word \<Rightarrow> nat" where
  "clz w = length (takeWhile Not (to_bits LENGTH('a) w))"

definition ctz :: "'a::len word \<Rightarrow> nat" where
  "ctz w = length (takeWhile Not (map (bit w) [0..<LENGTH('a)]))"

text \<open>\<open>__builtin_ctzl\<close>, whose result for 0 is undefined: \<open>ctz0\<close> stands for it.\<close>

definition ctzl :: "nat \<Rightarrow> u64 \<Rightarrow> nat" where
  "ctzl ctz0 d = (if d = 0 then ctz0 else ctz d)"

definition popcount :: "'a::len word \<Rightarrow> nat" where
  "popcount w = length (filter (bit w) [0..<LENGTH('a)])"

lemma clz_le: "clz (w :: 'a::len word) \<le> LENGTH('a)"
  unfolding clz_def by (metis length_to_bits length_takeWhile_le)

lemma ctz_le: "ctz (w :: 'a::len word) \<le> LENGTH('a)"
proof -
  have "ctz w \<le> length (map (bit w) [0..<LENGTH('a)])"
    unfolding ctz_def by (rule length_takeWhile_le)
  then show ?thesis by simp
qed

lemma not_bit_below_ctz: "k < ctz w \<Longrightarrow> \<not> bit w k"
proof -
  assume k: "k < ctz w"
  then have "takeWhile Not (map (bit w) [0..<LENGTH('a)]) ! k \<in> set (takeWhile Not (map (bit w) [0..<LENGTH('a)]))"
    by (simp add: ctz_def)
  then have "\<not> takeWhile Not (map (bit w) [0..<LENGTH('a)]) ! k"
    by (blast dest: set_takeWhileD)
  moreover have "takeWhile Not (map (bit w) [0..<LENGTH('a)]) ! k = bit w k"
    using k ctz_le [of w] by (subst takeWhile_nth) (auto simp: ctz_def)
  ultimately show ?thesis by simp
qed

lemma not_bit_above_clz: "LENGTH('a) - clz w \<le> k \<Longrightarrow> \<not> bit (w :: 'a::len word) k"
proof (cases "k < LENGTH('a)")
  case True
  assume "LENGTH('a) - clz w \<le> k"
  with True have i: "LENGTH('a) - Suc k < clz w" by arith
  then have "takeWhile Not (to_bits LENGTH('a) w) ! (LENGTH('a) - Suc k) \<in> set (takeWhile Not (to_bits LENGTH('a) w))"
    by (simp add: clz_def)
  then have "\<not> takeWhile Not (to_bits LENGTH('a) w) ! (LENGTH('a) - Suc k)"
    by (blast dest: set_takeWhileD)
  moreover have "takeWhile Not (to_bits LENGTH('a) w) ! (LENGTH('a) - Suc k) = bit w k"
    using i True by (subst takeWhile_nth) (auto simp: clz_def nth_to_bits)
  ultimately show ?thesis by simp
next
  case False
  then show ?thesis using bit_imp_le_length by blast
qed

lemma takeWhile_Not_hit:
  "\<exists>x\<in>set xs. x \<Longrightarrow> length (takeWhile Not xs) < length xs \<and> xs ! length (takeWhile Not xs)"
  by (induction xs) auto

lemma bit_ctz:
  assumes "w \<noteq> (0 :: 'a::len word)"
  shows "ctz w < LENGTH('a)" and "bit w (ctz w)"
proof -
  from assms obtain k where "k < LENGTH('a)" and "bit w k"
    by (metis bit_word_eqI bit_0_eq bot_apply bot_bool_def)
  then have ex: "\<exists>x\<in>set (map (bit w) [0..<LENGTH('a)]). x"
    by auto
  from takeWhile_Not_hit [OF this]
  have lt: "ctz w < length (map (bit w) [0..<LENGTH('a)])"
    and hit: "map (bit w) [0..<LENGTH('a)] ! ctz w"
    by (simp_all add: ctz_def)
  then show 1: "ctz w < LENGTH('a)" by simp
  with hit show "bit w (ctz w)" by simp
qed

lemma bit_clz:
  assumes "w \<noteq> (0 :: 'a::len word)"
  shows "clz w < LENGTH('a)" and "bit w (LENGTH('a) - Suc (clz w))"
proof -
  from assms obtain k where "k < LENGTH('a)" and "bit w k"
    by (metis bit_word_eqI bit_0_eq bot_apply bot_bool_def)
  then have ex: "\<exists>x\<in>set (to_bits LENGTH('a) w). x"
    by (auto simp: to_bits_def)
  from takeWhile_Not_hit [OF this]
  have lt: "clz w < length (to_bits LENGTH('a) w)" and hit: "to_bits LENGTH('a) w ! clz w"
    by (simp_all add: clz_def)
  then show 1: "clz w < LENGTH('a)" by simp
  with hit show "bit w (LENGTH('a) - Suc (clz w))" by (simp add: nth_to_bits)
qed

lemma clz_ctz_bound: "w \<noteq> (0 :: 'a::len word) \<Longrightarrow> clz w + ctz w < LENGTH('a)"
  using bit_clz [of w] bit_ctz [of w] not_bit_above_clz [of w "ctz w"]
  by (metis add.commute le_add_diff_inverse2 less_diff_conv not_le order_less_imp_le)

text \<open>The positions of the one bits, in increasing order: what a loop over
  \<open>ctz\<close> that clears the lowest bit visits.\<close>

definition bit_positions :: "'a::len word \<Rightarrow> nat list" where
  "bit_positions w = filter (bit w) [0..<LENGTH('a)]"

lemma set_bit_positions [simp]: "set (bit_positions w) = {k. bit w k}"
  by (auto simp: bit_positions_def dest: bit_imp_le_length)

lemma strict_bit_positions [simp]: "sorted_wrt (<) (bit_positions w)"
  by (simp add: bit_positions_def sorted_wrt_filter)

lemma popcount_positions: "popcount w = length (bit_positions w)"
  by (simp add: popcount_def bit_positions_def)

lemma strict_sorted_set_unique:
  assumes "sorted_wrt (<) xs" "sorted_wrt (<) ys" "set xs = set (ys :: nat list)"
  shows "xs = ys"
  using assms strict_sorted_equal by blast

lemma bit_positions_eqI:
  "sorted_wrt (<) ps \<Longrightarrow> (\<And>k. bit w k \<longleftrightarrow> k \<in> set ps) \<Longrightarrow> bit_positions w = ps"
  by (rule strict_sorted_set_unique) auto

lemma ctz_positions:
  assumes "bit_positions w = k # ps"
  shows "ctz w = k"
proof -
  have k: "bit w k" using set_bit_positions [of w] assms by auto
  then have "w \<noteq> 0" by auto
  have "\<not> bit w j" if "j < k" for j
  proof
    assume "bit w j"
    with assms set_bit_positions [of w] that have "j \<in> set ps" by auto
    with assms strict_bit_positions [of w] that show False by auto
  qed
  then show ?thesis
    using bit_ctz(2) [OF \<open>w \<noteq> 0\<close>] not_bit_below_ctz [of k w] k by (meson linorder_neqE_nat)
qed

lemma clear_lowest_positions:
  assumes "bit_positions w = k # ps"
  shows "bit_positions (w AND NOT (push_bit k 1)) = ps"
proof (rule bit_positions_eqI)
  from assms strict_bit_positions [of w] have *: "sorted_wrt (<) (k # ps)" by simp
  then show "sorted_wrt (<) ps" by simp
  have "bit w j \<longleftrightarrow> j = k \<or> j \<in> set ps" for j
    using set_bit_positions [of w] assms by auto
  then show "bit (w AND NOT (push_bit k 1)) j \<longleftrightarrow> j \<in> set ps" for j
    using * by (auto simp: bit_simps dest: bit_imp_le_length)
qed

section \<open>Little-endian byte strings\<close>

definition le_bytes :: "nat \<Rightarrow> 'a::len word \<Rightarrow> u8 list" where
  "le_bytes n w = map (\<lambda>i. ucast (drop_bit (8 * i) w)) [0..<n]"

definition of_le_bytes :: "u8 list \<Rightarrow> 'a::len word" where
  "of_le_bytes bs = horner_sum ucast (2 ^ 8) bs"

lemma length_le_bytes [simp]: "length (le_bytes n w) = n"
  by (simp add: le_bytes_def)

lemma of_le_bytes_Cons: "of_le_bytes (b # bs) = (ucast b + 2 ^ 8 * of_le_bytes bs :: 'a::len word)"
  by (simp add: of_le_bytes_def)

lemma le_bytes_Suc: "le_bytes (Suc n) w = ucast w # le_bytes n (drop_bit 8 w)"
proof -
  have "[0..<Suc n] = 0 # map Suc [0..<n]"
    by (simp add: map_Suc_upt upt_conv_Cons)
  then show ?thesis
    by (simp add: le_bytes_def comp_def add.commute)
qed

lemma of_le_bytes_le_bytes_gen: "of_le_bytes (le_bytes n w) = take_bit (8 * n) w"
proof (induction n arbitrary: w)
  case 0
  then show ?case by (simp add: le_bytes_def of_le_bytes_def)
next
  case (Suc n)
  have "take_bit (8 * Suc n) w = take_bit 8 w + push_bit 8 (take_bit (8 * n) (drop_bit 8 w))"
    by (rule bit_word_eqI)
       (auto simp: bit_simps disjunctive_add not_le)
  moreover have "ucast (ucast w :: u8) = take_bit 8 w"
    by (rule bit_word_eqI) (auto simp: bit_simps)
  ultimately show ?case
    by (simp add: le_bytes_Suc of_le_bytes_Cons Suc push_bit_eq_mult mult.commute)
qed

lemma of_le_bytes_le_bytes [simp]:
  "LENGTH('a) \<le> 8 * n \<Longrightarrow> of_le_bytes (le_bytes n w) = (w :: 'a::len word)"
  by (simp add: of_le_bytes_le_bytes_gen take_bit_word_eq_self)

lemma bit_of_le_bytes:
  "bit (of_le_bytes bs :: 'a::len word) k \<longleftrightarrow>
     k < LENGTH('a) \<and> k < 8 * length bs \<and> bit (bs ! (k div 8)) (k mod 8)"
proof (induction bs arbitrary: k)
  case Nil
  then show ?case by (simp add: of_le_bytes_def)
next
  case (Cons b bs)
  have "of_le_bytes (b # bs) = (ucast b OR push_bit 8 (of_le_bytes bs) :: 'a word)"
    unfolding of_le_bytes_Cons mult.commute [of "2 ^ 8"] push_bit_eq_mult [symmetric]
    by (rule disjunctive_add) (auto simp: bit_simps dest: bit_imp_le_length)
  then show ?case
    by (cases "k < 8") (auto simp: bit_simps Cons le_div_geq le_mod_geq dest: bit_imp_le_length)
qed

lemma le_bytes_of_le_bytes:
  assumes "8 * length bs = LENGTH('a)"
  shows "le_bytes (length bs) (of_le_bytes bs :: 'a::len word) = bs"
proof (rule nth_equalityI)
  fix i
  assume "i < length (le_bytes (length bs) (of_le_bytes bs :: 'a word))"
  then have i: "i < length bs" by simp
  show "le_bytes (length bs) (of_le_bytes bs :: 'a word) ! i = bs ! i"
  proof (rule bit_word_eqI)
    fix k :: nat
    assume "k < LENGTH(8)"
    then have "(8 * i + k) div 8 = i" "(8 * i + k) mod 8 = k" "8 * i + k < 8 * length bs"
      using i by simp_all
    then show "bit (le_bytes (length bs) (of_le_bytes bs :: 'a word) ! i) k = bit (bs ! i) k"
      using i assms \<open>k < LENGTH(8)\<close> by (simp add: le_bytes_def bit_simps bit_of_le_bytes)
  qed
qed simp

text \<open>Memory as a list of bytes; a store at a position, \<open>None\<close> when it leaves the memory.\<close>

definition mem_write :: "u8 list \<Rightarrow> nat \<Rightarrow> u8 list \<Rightarrow> u8 list" where
  "mem_write mem off bs = take off mem @ bs @ drop (off + length bs) mem"

definition store :: "u8 list \<Rightarrow> nat \<Rightarrow> u8 list \<Rightarrow> u8 list option" where
  "store mem p bs = (if p + length bs \<le> length mem then Some (mem_write mem p bs) else None)"

lemma length_mem_write [simp]: "p + length bs \<le> length mem \<Longrightarrow> length (mem_write mem p bs) = length mem"
  by (simp add: mem_write_def)

lemma drop_mem_write: "p + length bs \<le> length mem \<Longrightarrow> drop p (mem_write mem p bs) = bs @ drop (p + length bs) mem"
  by (simp add: mem_write_def)

lemma mem_write_append:
  "p + length xs + length ys \<le> length mem \<Longrightarrow>
    mem_write (mem_write mem p xs) (p + length xs) ys = mem_write mem p (xs @ ys)"
  by (simp add: mem_write_def ac_simps)

text \<open>Arrays of 32-bit words in memory.\<close>

definition words_bytes :: "u32 list \<Rightarrow> u8 list" where
  "words_bytes ws = concat (map (le_bytes 4) ws)"

fun bytes_words :: "u8 list \<Rightarrow> u32 list" where
  "bytes_words (a # b # c # d # bs) = of_le_bytes [a, b, c, d] # bytes_words bs"
| "bytes_words _ = []"

lemma length_words_bytes [simp]: "length (words_bytes ws) = 4 * length ws"
  by (induction ws) (auto simp: words_bytes_def)

lemma le_bytes_4: "\<exists>a b c d. le_bytes 4 (w :: u32) = [a, b, c, d]"
  by (simp add: le_bytes_def numeral_eq_Suc upt_rec)

lemma bytes_words_words_bytes [simp]: "bytes_words (words_bytes ws) = ws"
proof (induction ws)
  case Nil
  then show ?case by (simp add: words_bytes_def)
next
  case (Cons w ws)
  obtain a b c d where abcd: "le_bytes 4 w = [a, b, c, d]"
    using le_bytes_4 by blast
  then have "of_le_bytes [a, b, c, d] = w"
    using of_le_bytes_le_bytes [of 4 w] by simp
  with Cons abcd show ?case by (simp add: words_bytes_def)
qed

text \<open>A byte buffer split at a fixed offset, failing where the access would leave it.\<close>

definition split_at :: "nat \<Rightarrow> 'a list \<Rightarrow> ('a list \<times> 'a list) option" where
  "split_at n bs = (if n \<le> length bs then Some (take n bs, drop n bs) else None)"

lemma split_at_append [simp]: "length xs = n \<Longrightarrow> split_at n (xs @ ys) = Some (xs, ys)"
  by (simp add: split_at_def)

text \<open>Arrays of \<open>k\<close>-byte elements, as \<open>memcpy\<close> lays them out and casts read them.\<close>

definition array_bytes :: "nat \<Rightarrow> 'a::len word list \<Rightarrow> u8 list" where
  "array_bytes k ws = concat (map (le_bytes k) ws)"

fun read_array :: "nat \<Rightarrow> nat \<Rightarrow> u8 list \<Rightarrow> ('a::len word list \<times> u8 list) option" where
  "read_array k 0 bs = Some ([], bs)"
| "read_array k (Suc n) bs = do {
     (b, bs) \<leftarrow> split_at k bs;
     (ws, bs) \<leftarrow> read_array k n bs;
     Some (of_le_bytes b # ws, bs) }"

lemma array_bytes_simps [simp]:
  "array_bytes k [] = []"
  "array_bytes k (w # ws) = le_bytes k w @ array_bytes k ws"
  "length (array_bytes k ws) = k * length ws"
  by (simp_all add: array_bytes_def) (induction ws; simp)

lemma read_array_bytes [simp]:
  "LENGTH('a) \<le> 8 * k \<Longrightarrow> length ws = n \<Longrightarrow>
   read_array k n (array_bytes k (ws :: 'a::len word list) @ bs) = Some (ws, bs)"
  by (induction ws arbitrary: n) auto

section \<open>Differences by XOR\<close>

lemma xor_zero_eq: "x XOR y = 0 \<longleftrightarrow> x = (y :: 'a::len word)"
proof
  assume "x XOR y = 0"
  then have "(x XOR y) XOR y = y" by simp
  then show "x = y" by (simp add: xor.assoc)
qed simp

lemma xor_back: "y XOR (x XOR y) = (x :: 'a::len word)"
  by (simp add: xor.left_commute)

text \<open>A window drops \<open>lead\<close> leading and \<open>trail\<close> trailing bits of a 64-bit difference; the
  bits left restore a difference that has at least so many zeros at both ends.\<close>

definition window_ok :: "nat \<Rightarrow> nat \<Rightarrow> bool" where
  "window_ok lead trail \<longleftrightarrow> lead \<le> 31 \<and> lead + trail \<le> 63"

definition in_window :: "nat \<Rightarrow> nat \<Rightarrow> u64 \<Rightarrow> bool" where
  "in_window lead trail d \<longleftrightarrow> lead \<le> clz d \<and> trail \<le> ctz d"

lemma window_restores:
  assumes "window_ok lead trail" "in_window lead trail d"
  shows "push_bit trail (take_bit (64 - lead - trail) (drop_bit trail d)) = d"
proof (rule bit_word_eqI)
  fix k assume k: "k < LENGTH(64)"
  consider "k < trail" | "trail \<le> k" "k < 64 - lead" | "64 - lead \<le> k" by linarith
  then show "bit (push_bit trail (take_bit (64 - lead - trail) (drop_bit trail d))) k = bit d k"
  proof cases
    case 1
    then show ?thesis
      using assms not_bit_below_ctz [of k d] by (auto simp: in_window_def bit_simps)
  next
    case 2
    then show ?thesis
      using assms k by (auto simp: window_ok_def bit_simps)
  next
    case 3
    then have "\<not> bit d k"
      using assms by (intro not_bit_above_clz) (auto simp: in_window_def)
    with 3 show ?thesis by (auto simp: bit_simps)
  qed
qed

section \<open>Packing small numbers into a field\<close>

lemma unat_of_nat64: "n < 2 ^ 64 \<Longrightarrow> unat (of_nat n :: u64) = n"
  by (simp add: unat_of_nat)

lemma pack_div_mod: "r < m \<Longrightarrow> (a * m + r) div m = (a :: nat)" "r < m \<Longrightarrow> (a * m + r) mod m = r"
  by simp_all

lemma pack_or:
  assumes "a < 2 ^ k"
  shows "push_bit k (of_nat x) OR of_nat a = (of_nat (x * 2 ^ k + a) :: u64)"
proof -
  have low: "\<not> bit (of_nat a :: u64) n" if "k \<le> n" for n
  proof -
    have "a < 2 ^ n"
      using assms that by (meson le_less_trans less_le_trans one_le_numeral power_increasing
          order_refl)
    then have "\<not> bit a n" by (simp add: bit_iff_odd)
    then show ?thesis by (simp add: bit_of_nat_iff)
  qed
  have "push_bit k (of_nat x) OR of_nat a = push_bit k (of_nat x) + (of_nat a :: u64)"
    using low by (intro disjunctive_add [symmetric]) (auto simp: bit_simps not_le)
  then show ?thesis by (simp add: push_bit_eq_mult)
qed

end
