(* ===== verification/BitStream.thy ===== *)
theory BitStream
  imports Prelude
begin

text \<open>
  The bit streams of \<open>Machete/inc/BitStream\<close>: \<open>BitWriter.h\<close> and \<open>BitReader.h\<close>.  Both
  structures become records; every field is kept (\<open>ptr\<close> exists because \<open>BitDefine.h\<close>
  defines \<open>DEBUG\<close>).  The counters \<open>len\<close>, \<open>cursor\<close> and \<open>bitcnt\<close> are natural numbers: the
  invariants show that no subtraction on them goes below zero.

  The two interfaces the compressors program against are the locales \<open>bit_sink\<close> (a writer
  appends a field to the bits written so far) and \<open>bit_source\<close> (a reader shows the first bits
  of a zero-extended stream and drops them).  They are interpreted on the two structures.
\<close>

section \<open>BitWriter\<close>

record bit_writer =
  w_output :: "u32 list"
  w_len :: nat
  w_buffer :: u64
  w_cursor :: nat
  w_bitcnt :: nat
  w_ptr :: u32

definition initBitWriter :: "u32 list \<Rightarrow> nat \<Rightarrow> bit_writer option" where
  "initBitWriter output outlen =
     (if 1 \<le> outlen
      then Some \<lparr>w_output = output, w_len = outlen, w_buffer = 0, w_cursor = 0, w_bitcnt = 0,
                 w_ptr = 0\<rparr>
      else None)"

text \<open>\<open>data << (64 - length)\<close> is undefined for \<open>length = 0\<close>, so that call fails like a
  violated assertion.\<close>

definition bit_write :: "bit_writer \<Rightarrow> u64 \<Rightarrow> nat \<Rightarrow> bit_writer option" where
  "bit_write w data n =
     (if n = 0 \<or> 32 < n then None
      else
        let data' = push_bit (64 - n) data;
            buf = w_buffer w OR drop_bit (w_bitcnt w) data';
            cnt = w_bitcnt w + n
        in if 32 \<le> cnt
           then (if w_cursor w < w_len w
                 then Some (w\<lparr>w_output := (w_output w)[w_cursor w := ucast (drop_bit 32 buf)],
                              w_cursor := w_cursor w + 1,
                              w_buffer := push_bit 32 buf,
                              w_bitcnt := cnt - 32,
                              w_ptr := w_ptr w + of_nat n\<rparr>)
                 else None)
           else Some (w\<lparr>w_buffer := buf, w_bitcnt := cnt, w_ptr := w_ptr w + of_nat n\<rparr>))"

definition writeLong :: "bit_writer \<Rightarrow> u64 \<Rightarrow> nat \<Rightarrow> bit_writer option" where
  "writeLong w data n =
     (if 64 < n then None
      else if n = 0 then Some w
      else if 32 < n
      then do { w \<leftarrow> bit_write w (drop_bit (n - 32) data) 32; bit_write w data (n - 32) }
      else bit_write w data n)"

definition flush :: "bit_writer \<Rightarrow> (bit_writer \<times> nat) option" where
  "flush w =
     (if w_bitcnt w \<noteq> 0
      then (if w_cursor w < w_len w
            then Some (w\<lparr>w_output := (w_output w)[w_cursor w := ucast (drop_bit 32 (w_buffer w))],
                         w_cursor := w_cursor w + 1, w_buffer := 0, w_bitcnt := 0\<rparr>,
                       w_cursor w + 1)
            else None)
      else Some (w, w_cursor w))"

section \<open>BitReader\<close>

record bit_reader =
  r_data :: "u32 list"
  r_len :: nat
  r_buffer :: u64
  r_cursor :: nat
  r_bitcnt :: nat
  r_ptr :: u64

definition initBitReader :: "u32 list \<Rightarrow> nat \<Rightarrow> bit_reader option" where
  "initBitReader input n =
     (if 1 \<le> n \<and> n \<le> length input
      then Some \<lparr>r_data = input, r_len = n, r_buffer = push_bit 32 (ucast (input ! 0)),
                 r_cursor = 1, r_bitcnt = 32, r_ptr = 0\<rparr>
      else None)"

definition peek :: "bit_reader \<Rightarrow> nat \<Rightarrow> u64 option" where
  "peek r n = (if n = 0 \<or> 32 < n then None else Some (drop_bit (64 - n) (r_buffer r)))"

definition forward :: "bit_reader \<Rightarrow> nat \<Rightarrow> bit_reader option" where
  "forward r n =
     (if 32 < n then None
      else
        let cnt = r_bitcnt r - n;
            buf = push_bit n (r_buffer r)
        in if cnt < 32
           then (if r_cursor r < r_len r
                 then let data = ucast (r_data r ! r_cursor r)
                      in Some (r\<lparr>r_buffer := buf OR push_bit (32 - cnt) data,
                                 r_bitcnt := cnt + 32, r_cursor := r_cursor r + 1,
                                 r_ptr := r_ptr r + of_nat n\<rparr>)
                 else Some (r\<lparr>r_buffer := buf, r_bitcnt := 64, r_ptr := r_ptr r + of_nat n\<rparr>))
           else Some (r\<lparr>r_buffer := buf, r_bitcnt := cnt, r_ptr := r_ptr r + of_nat n\<rparr>))"

definition readLong :: "bit_reader \<Rightarrow> nat \<Rightarrow> (u64 \<times> bit_reader) option" where
  "readLong r n =
     (if n = 0 then Some (0, r)
      else if 32 < n
      then do {
        hi \<leftarrow> peek r 32;
        r \<leftarrow> forward r 32;
        lo \<leftarrow> peek r (n - 32);
        r' \<leftarrow> forward r (n - 32);
        Some (push_bit (n - 32) hi OR lo, r') }
      else do {
        lo \<leftarrow> peek r n;
        r' \<leftarrow> forward r n;
        Some (lo, r') })"

section \<open>Invariants and the bits they stand for\<close>

text \<open>The first \<open>c\<close> bits of a 64-bit buffer, from the top.\<close>

definition top_bits :: "nat \<Rightarrow> u64 \<Rightarrow> bool list" where
  "top_bits c buf = map (\<lambda>i. bit buf (63 - i)) [0..<c]"

lemma length_top_bits [simp]: "length (top_bits c buf) = c"
  by (simp add: top_bits_def)

lemma top_bits_0 [simp]: "top_bits 0 buf = []"
  by (simp add: top_bits_def)

lemma nth_top_bits [simp]: "i < c \<Longrightarrow> top_bits c buf ! i = bit buf (63 - i)"
  by (simp add: top_bits_def)

definition writer_ok :: "bit_writer \<Rightarrow> bool" where
  "writer_ok w \<longleftrightarrow>
     length (w_output w) = w_len w \<and> w_cursor w \<le> w_len w \<and> w_bitcnt w < 32 \<and>
     (\<forall>k < 64 - w_bitcnt w. \<not> bit (w_buffer w) k)"

definition writer_bits :: "bit_writer \<Rightarrow> bool list" where
  "writer_bits w = words_bits (take (w_cursor w) (w_output w)) @
     top_bits (w_bitcnt w) (w_buffer w)"

definition writer_cap :: "bit_writer \<Rightarrow> nat" where
  "writer_cap w = 32 * w_len w"

definition reader_ok :: "bit_reader \<Rightarrow> bool" where
  "reader_ok r \<longleftrightarrow>
     r_len r \<le> length (r_data r) \<and> r_cursor r \<le> r_len r \<and>
     32 \<le> r_bitcnt r \<and> r_bitcnt r \<le> 64 \<and> (\<forall>k < 64 - r_bitcnt r. \<not> bit (r_buffer r) k)"

definition reader_bits :: "bit_reader \<Rightarrow> bool list" where
  "reader_bits r = top_bits (r_bitcnt r) (r_buffer r) @
     words_bits (drop (r_cursor r) (take (r_len r) (r_data r)))"

definition reader_stream :: "bit_reader \<Rightarrow> nat \<Rightarrow> bool" where
  "reader_stream r = bits_stream (reader_bits r)"

section \<open>The writer appends\<close>

lemma length_writer_bits:
  "writer_ok w \<Longrightarrow> length (writer_bits w) = 32 * w_cursor w + w_bitcnt w"
  by (simp add: writer_ok_def writer_bits_def)

lemma write_buffer_bits:
  fixes buf d :: u64
  assumes zero: "\<forall>k < 64 - b. \<not> bit buf k" and "b < 32" "n \<le> 32" "0 < n"
  defines "buf' \<equiv> buf OR drop_bit b (push_bit (64 - n) d)"
  shows "top_bits (b + n) buf' = top_bits b buf @ to_bits n d"
    and "\<forall>k < 64 - (b + n). \<not> bit buf' k"
proof -
  show "top_bits (b + n) buf' = top_bits b buf @ to_bits n d"
  proof (rule nth_equalityI)
    fix i assume "i < length (top_bits (b + n) buf')"
    then have i: "i < b + n" by simp
    show "top_bits (b + n) buf' ! i = (top_bits b buf @ to_bits n d) ! i"
    proof (cases "i < b")
      case True
      with assms i show ?thesis
        by (auto simp: nth_append buf'_def bit_simps)
    next
      case False
      then have k: "b + (63 - i) - (64 - n) = b + n - Suc i" "64 - n \<le> b + (63 - i)"
          "b + (63 - i) < 64"
        using i assms by simp_all
      from False i assms have "\<not> bit buf (63 - i)" by simp
      with False i k show ?thesis
        by (simp add: nth_to_bits nth_append buf'_def bit_simps add.commute [of n])
    qed
  qed simp
  show "\<forall>k < 64 - (b + n). \<not> bit buf' k"
    using assms by (auto simp: bit_simps)
qed

lemma split_buffer_bits:
  fixes buf :: u64
  assumes "32 \<le> c" "c < 64" "\<forall>k < 64 - c. \<not> bit buf k"
  shows "top_bits c buf =
           to_bits 32 (ucast (drop_bit 32 buf) :: u32) @ top_bits (c - 32) (push_bit 32 buf)"
    and "\<forall>k < 64 - (c - 32). \<not> bit (push_bit 32 buf) k"
proof -
  show "top_bits c buf =
      to_bits 32 (ucast (drop_bit 32 buf) :: u32) @ top_bits (c - 32) (push_bit 32 buf)"
  proof (rule nth_equalityI)
    fix i assume "i < length (top_bits c buf)"
    then have i: "i < c" by simp
    show "top_bits c buf ! i =
      (to_bits 32 (ucast (drop_bit 32 buf) :: u32) @ top_bits (c - 32) (push_bit 32 buf)) ! i"
    proof (cases "i < 32")
      case True
      then have "32 + (31 - i) = 63 - i" by simp
      with True i show ?thesis
        by (simp add: nth_append nth_to_bits bit_simps less_imp_diff_less)
    next
      case False
      then have "63 - (i - 32) - 32 = 63 - i" "32 \<le> 63 - (i - 32)" "i - 32 < c - 32"
          "95 - i < 64"
        using i assms by simp_all
      with False i show ?thesis
        by (simp add: nth_append bit_simps)
    qed
  qed (use assms in simp)
  show "\<forall>k < 64 - (c - 32). \<not> bit (push_bit 32 buf) k"
    using assms by (auto simp: bit_simps)
qed

lemma bit_write_ok:
  assumes "writer_ok w" "0 < n" "n \<le> 32" "length (writer_bits w) + n \<le> writer_cap w"
  shows "\<exists>w'. bit_write w d n = Some w' \<and> writer_ok w' \<and>
           writer_bits w' = writer_bits w @ to_bits n d \<and> writer_cap w' = writer_cap w"
proof -
  define buf where "buf = w_buffer w OR drop_bit (w_bitcnt w) (push_bit (64 - n) d)"
  have ok: "length (w_output w) = w_len w" "w_cursor w \<le> w_len w" "w_bitcnt w < 32"
      "\<forall>k < 64 - w_bitcnt w. \<not> bit (w_buffer w) k"
    using assms(1) by (auto simp: writer_ok_def)
  note wb = write_buffer_bits [OF ok(4,3) assms(3,2), of d, folded buf_def]
  show ?thesis
  proof (cases "32 \<le> w_bitcnt w + n")
    case True
    have cur: "w_cursor w < w_len w"
      using assms(4) True by (simp add: length_writer_bits [OF assms(1)] writer_cap_def)
    have c: "w_bitcnt w + n < 64" using ok(3) assms(3) by simp
    note sb = split_buffer_bits [OF True c wb(2)]
    let ?w = "w\<lparr>w_output := (w_output w)[w_cursor w := ucast (drop_bit 32 buf)],
                w_cursor := w_cursor w + 1, w_buffer := push_bit 32 buf,
                w_bitcnt := w_bitcnt w + n - 32, w_ptr := w_ptr w + of_nat n\<rparr>"
    have "bit_write w d n = Some ?w"
      using True cur assms(2,3) unfolding bit_write_def Let_def buf_def by simp
    moreover have "writer_ok ?w"
      using ok cur c sb(2) by (simp add: writer_ok_def)
    moreover have "writer_bits ?w = writer_bits w @ to_bits n d"
      using ok cur sb(1) wb(1) by (simp add: writer_bits_def take_Suc_conv_app_nth)
    ultimately show ?thesis by (simp add: writer_cap_def)
  next
    case False
    let ?w = "w\<lparr>w_buffer := buf, w_bitcnt := w_bitcnt w + n, w_ptr := w_ptr w + of_nat n\<rparr>"
    have "bit_write w d n = Some ?w"
      using False assms(2,3) unfolding bit_write_def Let_def buf_def by simp
    moreover have "writer_ok ?w"
      using ok False wb(2) by (simp add: writer_ok_def)
    moreover have "writer_bits ?w = writer_bits w @ to_bits n d"
      using wb(1) by (simp add: writer_bits_def)
    ultimately show ?thesis by (simp add: writer_cap_def)
  qed
qed

lemma initBitWriter_ok:
  assumes "length out = n" "1 \<le> n"
  shows "\<exists>w. initBitWriter out n = Some w \<and> writer_ok w \<and> writer_bits w = [] \<and>
           writer_cap w = 32 * n"
  using assms by (simp add: initBitWriter_def writer_ok_def writer_bits_def writer_cap_def)

lemma pad_top_bits:
  assumes "c \<le> m" "m \<le> 64" "\<forall>k < 64 - c. \<not> bit buf k"
  shows "top_bits m buf = top_bits c buf @ replicate (m - c) False"
proof (rule nth_equalityI)
  fix i assume "i < length (top_bits m buf)"
  then have i: "i < m" by simp
  show "top_bits m buf ! i = (top_bits c buf @ replicate (m - c) False) ! i"
  proof (cases "i < c")
    case True
    with i show ?thesis by (simp add: nth_append)
  next
    case False
    with i assms have "63 - i < 64 - c" by simp
    with i False assms show ?thesis by (simp add: nth_append)
  qed
qed (use assms in simp)

lemma to_bits_high_word: "to_bits 32 (ucast (drop_bit 32 buf) :: u32) = top_bits 32 buf"
  by (rule nth_equalityI) (simp_all add: nth_to_bits bit_simps less_imp_diff_less)

text \<open>Flushing pads the last word with zeros and returns the number of words written.\<close>

lemma flush_ok:
  assumes "writer_ok w" "length (writer_bits w) \<le> writer_cap w"
  shows "\<exists>w' pad. flush w = Some (w', (length (writer_bits w) + 31) div 32) \<and>
           length (w_output w') = w_len w \<and> pad < 32 \<and>
           words_bits (take ((length (writer_bits w) + 31) div 32) (w_output w')) =
             writer_bits w @ replicate pad False \<and>
           (length (writer_bits w) + 31) div 32 \<le> w_len w"
proof (cases "w_bitcnt w = 0")
  case True
  then have "flush w = Some (w, (length (writer_bits w) + 31) div 32)"
    "words_bits (take ((length (writer_bits w) + 31) div 32) (w_output w)) =
       writer_bits w @ replicate 0 False"
    using assms(1) by (simp_all add: flush_def length_writer_bits) (simp add: writer_bits_def)
  with assms True show ?thesis
    by (intro exI [of _ w] exI [of _ 0]) (simp add: length_writer_bits writer_ok_def)
next
  case False
  let ?b = "w_bitcnt w"
  have ok: "length (w_output w) = w_len w" "w_cursor w \<le> w_len w" "?b < 32"
      "\<forall>k < 64 - ?b. \<not> bit (w_buffer w) k"
    using assms(1) by (auto simp: writer_ok_def)
  have len: "length (writer_bits w) = 32 * w_cursor w + ?b"
    by (rule length_writer_bits [OF assms(1)])
  with assms(2) False have cur: "w_cursor w < w_len w"
    by (simp add: writer_cap_def)
  have words: "(length (writer_bits w) + 31) div 32 = w_cursor w + 1"
    using False ok(3) by (simp add: len)
  have last: "to_bits 32 (ucast (drop_bit 32 (w_buffer w)) :: u32) =
      top_bits ?b (w_buffer w) @ replicate (32 - ?b) False"
    unfolding to_bits_high_word using ok by (intro pad_top_bits) auto
  show ?thesis
    using False cur ok words last
    by (auto simp: flush_def writer_bits_def take_Suc_conv_app_nth intro!: exI [of _ "32 - ?b"])
qed

section \<open>The reader drops\<close>

lemma take_top_bits: "n \<le> c \<Longrightarrow> take n (top_bits c buf) = top_bits n buf"
  by (simp add: top_bits_def take_map)

lemma of_bits_top_bits:
  assumes "n \<le> 64"
  shows "of_bits (top_bits n buf) = drop_bit (64 - n) buf"
proof (rule bit_word_eqI)
  fix k assume k: "k < LENGTH(64)"
  show "bit (of_bits (top_bits n buf)) k = bit (drop_bit (64 - n) buf) k"
  proof (cases "k < n")
    case True
    then have "63 - (n - Suc k) = 64 - n + k" using assms by simp
    with True k show ?thesis by (simp add: bit_of_bits bit_simps)
  next
    case False
    then have "64 \<le> 64 - n + k" using assms by simp
    then have "\<not> bit buf (64 - n + k)" using bit_imp_le_length by fastforce
    with False show ?thesis by (simp add: bit_of_bits bit_simps)
  qed
qed

lemma peek_ok:
  assumes "reader_ok r" "0 < n" "n \<le> 32"
  shows "peek r n = Some (of_bits (map (reader_stream r) [0..<n]))"
proof -
  have "map (reader_stream r) [0..<n] = take n (reader_bits r)"
    using assms by (simp add: reader_stream_def bits_stream_map reader_ok_def reader_bits_def)
  also have "\<dots> = top_bits n (r_buffer r)"
    using assms by (simp add: reader_ok_def reader_bits_def take_top_bits)
  finally show ?thesis
    using assms by (simp add: peek_def of_bits_top_bits)
qed

lemma forward_bits:
  assumes "n \<le> b" "b \<le> 64" "\<forall>k < 64 - b. \<not> bit buf k"
  shows "top_bits (b - n) (push_bit n buf) = drop n (top_bits b buf)"
    and "\<forall>k < 64 - (b - n). \<not> bit (push_bit n buf) k"
proof -
  show "top_bits (b - n) (push_bit n buf) = drop n (top_bits b buf)"
  proof (rule nth_equalityI)
    fix i assume "i < length (top_bits (b - n) (push_bit n buf))"
    then have "i < b - n" "n + i < b" "n \<le> 63 - i" "63 - i - n = 63 - (n + i)"
      using assms by auto
    then show "top_bits (b - n) (push_bit n buf) ! i = drop n (top_bits b buf) ! i"
      by (simp add: bit_simps less_imp_diff_less)
  qed simp
  show "\<forall>k < 64 - (b - n). \<not> bit (push_bit n buf) k"
    using assms by (auto simp: bit_simps)
qed

lemma load_bits:
  fixes x :: u32
  assumes "c < 32" "\<forall>k < 64 - c. \<not> bit buf k"
  shows "top_bits (c + 32) (buf OR push_bit (32 - c) (ucast x)) = top_bits c buf @ to_bits 32 x"
    and "\<forall>k < 64 - (c + 32). \<not> bit (buf OR push_bit (32 - c) (ucast x)) k"
proof -
  show "top_bits (c + 32) (buf OR push_bit (32 - c) (ucast x)) = top_bits c buf @ to_bits 32 x"
  proof (rule nth_equalityI)
    fix i assume "i < length (top_bits (c + 32) (buf OR push_bit (32 - c) (ucast x)))"
    then have i: "i < c + 32" by simp
    show "top_bits (c + 32) (buf OR push_bit (32 - c) (ucast x)) ! i =
          (top_bits c buf @ to_bits 32 x) ! i"
    proof (cases "i < c")
      case True
      then have "32 \<le> 63 - i - (32 - c)" using assms by simp
      then have "\<not> bit x (63 - i - (32 - c))" using bit_imp_le_length [of x] by fastforce
      with True i show ?thesis
        by (simp add: nth_append bit_simps)
    next
      case False
      with i assms have "\<not> bit buf (63 - i)" "63 - i - (32 - c) = 32 - Suc (i - c)"
          "32 - c \<le> 63 - i" "31 + c - i < 64"
        by simp_all
      with False i assms show ?thesis
        by (simp add: nth_to_bits nth_append bit_simps less_imp_diff_less)
    qed
  qed simp
  show "\<forall>k < 64 - (c + 32). \<not> bit (buf OR push_bit (32 - c) (ucast x)) k"
    using assms by (auto simp: bit_simps)
qed

lemma forward_ok:
  assumes "reader_ok r" "n \<le> 32"
  shows "\<exists>r'. forward r n = Some r' \<and> reader_ok r' \<and>
           reader_stream r' = (\<lambda>i. reader_stream r (n + i))"
proof -
  let ?c = "r_bitcnt r - n" and ?buf = "push_bit n (r_buffer r)"
  have ok: "r_len r \<le> length (r_data r)" "r_cursor r \<le> r_len r" "32 \<le> r_bitcnt r"
      "r_bitcnt r \<le> 64" "\<forall>k < 64 - r_bitcnt r. \<not> bit (r_buffer r) k"
    using assms(1) by (auto simp: reader_ok_def)
  have n: "n \<le> r_bitcnt r" using ok assms by simp
  note fb = forward_bits [OF this ok(4,5)]
  let ?rest = "words_bits (drop (r_cursor r) (take (r_len r) (r_data r)))"
  have bits: "drop n (reader_bits r) = top_bits ?c ?buf @ ?rest"
    using n fb(1) by (simp add: reader_bits_def)
  have stream: "(\<lambda>i. reader_stream r (n + i)) = bits_stream (drop n (reader_bits r))"
    by (rule ext) (simp add: reader_stream_def bits_stream_drop)
  consider (plain) "32 \<le> ?c" | (load) "?c < 32" "r_cursor r < r_len r"
    | (stop) "?c < 32" "r_cursor r = r_len r"
    using ok(2) by linarith
  then show ?thesis
  proof cases
    case plain
    then show ?thesis
      using assms ok fb(2) bits unfolding stream
      by (simp add: forward_def Let_def reader_ok_def reader_stream_def reader_bits_def)
  next
    case load
    note lb = load_bits [OF load(1) fb(2), of "r_data r ! r_cursor r"]
    have "drop (r_cursor r) (take (r_len r) (r_data r)) =
        r_data r ! r_cursor r # drop (r_cursor r + 1) (take (r_len r) (r_data r))"
      using load ok by (simp add: Cons_nth_drop_Suc [symmetric])
    moreover have "32 \<le> r_bitcnt r + 32 - n" "r_bitcnt r + 32 - n \<le> 64"
      using load(1) n by arith+
    ultimately show ?thesis
      using assms ok load lb bits unfolding stream
      by (simp add: forward_def Let_def reader_ok_def reader_stream_def reader_bits_def)
  next
    case stop
    have "drop n (reader_bits r) = top_bits ?c ?buf"
      using bits stop ok by simp
    moreover have "top_bits 64 ?buf = top_bits ?c ?buf @ replicate (64 - ?c) False"
      using fb(2) by (intro pad_top_bits) (use ok in auto)
    ultimately have "bits_stream (top_bits 64 ?buf) = bits_stream (drop n (reader_bits r))"
      by (simp add: bits_stream_zeros)
    then show ?thesis
      using assms ok stop unfolding stream
      by (simp add: forward_def Let_def reader_ok_def reader_stream_def reader_bits_def)
  qed
qed

lemma initBitReader_ok:
  assumes "1 \<le> n" "n \<le> length ws"
  shows "\<exists>r. initBitReader ws n = Some r \<and> reader_ok r \<and>
           reader_stream r = bits_stream (words_bits (take n ws))"
proof -
  have hd: "words_bits (take n ws) = to_bits 32 (ws ! 0) @ words_bits (drop 1 (take n ws))"
    using assms by (cases ws; cases n) auto
  have "top_bits 32 (push_bit 32 (ucast (ws ! 0))) = to_bits 32 (ws ! 0)"
    using load_bits(1) [of 0 0 "ws ! 0"] by (simp add: top_bits_def)
  then show ?thesis
    using assms
    by (simp add: initBitReader_def reader_ok_def reader_stream_def reader_bits_def bit_simps hd)
qed

section \<open>The interface of a bit sink\<close>

text \<open>A field is a value and the number of its low bits that go to the stream.\<close>

type_synonym field = "u64 \<times> nat"

definition field_bits :: "field \<Rightarrow> bool list" where
  "field_bits f = to_bits (snd f) (fst f)"

definition fields_bits :: "field list \<Rightarrow> bool list" where
  "fields_bits fs = concat (map field_bits fs)"

abbreviation field_ok :: "field \<Rightarrow> bool" where
  "field_ok f \<equiv> 0 < snd f \<and> snd f \<le> 32"

lemma fields_bits_simps [simp]:
  "fields_bits [] = []"
  "fields_bits (f # fs) = to_bits (snd f) (fst f) @ fields_bits fs"
  "fields_bits (fs @ gs) = fields_bits fs @ fields_bits gs"
  by (simp_all add: fields_bits_def field_bits_def)

fun put_fields :: "('w \<Rightarrow> u64 \<Rightarrow> nat \<Rightarrow> 'w option) \<Rightarrow> 'w \<Rightarrow> field list \<Rightarrow> 'w option" where
  "put_fields put w [] = Some w"
| "put_fields put w (f # fs) = Option.bind (put w (fst f) (snd f)) (\<lambda>w. put_fields put w fs)"

lemma put_fields_append:
  "put_fields put w (fs @ gs) = Option.bind (put_fields put w fs) (\<lambda>w. put_fields put w gs)"
  by (induction fs arbitrary: w) (auto split: Option.bind_splits)

locale bit_sink =
  fixes ok :: "'w \<Rightarrow> bool"
    and put :: "'w \<Rightarrow> u64 \<Rightarrow> nat \<Rightarrow> 'w option"
    and bits :: "'w \<Rightarrow> bool list"
    and cap :: "'w \<Rightarrow> nat"
  assumes put_appends:
    "ok w \<Longrightarrow> 0 < n \<Longrightarrow> n \<le> 32 \<Longrightarrow> length (bits w) + n \<le> cap w \<Longrightarrow>
     \<exists>w'. put w d n = Some w' \<and> ok w' \<and> bits w' = bits w @ to_bits n d \<and> cap w' = cap w"
begin

lemma put_fields_appends:
  assumes "ok w" "\<forall>f \<in> set fs. field_ok f" "length (bits w) + length (fields_bits fs) \<le> cap w"
  shows "\<exists>w'. put_fields put w fs = Some w' \<and> ok w' \<and> bits w' = bits w @ fields_bits fs \<and>
           cap w' = cap w"
  using assms
proof (induction fs arbitrary: w)
  case Nil
  then show ?case by simp
next
  case (Cons f fs)
  obtain w1 where w1: "put w (fst f) (snd f) = Some w1" "ok w1"
      "bits w1 = bits w @ to_bits (snd f) (fst f)" "cap w1 = cap w"
    using put_appends [of w "snd f" "fst f"] Cons.prems by auto
  then show ?case
    using Cons.IH [of w1] Cons.prems by auto
qed

end

interpretation bw: bit_sink writer_ok bit_write writer_bits writer_cap
  by unfold_locales (rule bit_write_ok)

section \<open>The interface of a bit source\<close>

locale bit_source =
  fixes ok :: "'r \<Rightarrow> bool"
    and look :: "'r \<Rightarrow> nat \<Rightarrow> u64 option"
    and skip :: "'r \<Rightarrow> nat \<Rightarrow> 'r option"
    and stream :: "'r \<Rightarrow> nat \<Rightarrow> bool"
  assumes look_stream:
    "ok r \<Longrightarrow> 0 < n \<Longrightarrow> n \<le> 32 \<Longrightarrow> look r n = Some (of_bits (map (stream r) [0..<n]))"
  and skip_stream:
    "ok r \<Longrightarrow> n \<le> 32 \<Longrightarrow>
     \<exists>r'. skip r n = Some r' \<and> ok r' \<and> stream r' = (\<lambda>i. stream r (n + i))"
begin

text \<open>\<open>at r bs\<close>: the reader is intact and what it will deliver next begins with \<open>bs\<close>.\<close>

definition at :: "'r \<Rightarrow> bool list \<Rightarrow> bool" where
  "at r bs \<longleftrightarrow> ok r \<and> starts (stream r) bs"

lemma at_prefix: "at r (xs @ ys) \<Longrightarrow> at r xs"
  by (simp add: at_def starts_append)

lemma look_at:
  assumes "at r bs" "0 < n" "n \<le> 32" "n \<le> length bs"
  shows "look r n = Some (of_bits (take n bs))"
proof -
  have "map (stream r) [0..<n] = take n (map (stream r) [0..<length bs])"
    using assms(4) by (simp add: take_map)
  also have "\<dots> = take n bs"
    using assms(1) by (simp add: at_def starts_def)
  finally show ?thesis
    using assms look_stream by (simp add: at_def)
qed

text \<open>Looking beyond the known bits: the first ones are as expected, the others arbitrary.\<close>

lemma look_prefix:
  assumes "at r xs" "length xs \<le> n" "0 < n" "n \<le> 32"
  shows "\<exists>ys. look r n = Some (of_bits (xs @ ys)) \<and> length (xs @ ys) = n"
proof -
  let ?all = "map (stream r) [0..<n]"
  have "take (length xs) ?all = map (stream r) [0..<length xs]"
    using assms(2) by (simp add: take_map min_def)
  also have "\<dots> = xs"
    using assms(1) by (auto simp: at_def starts_def intro: nth_equalityI)
  finally have "?all = xs @ drop (length xs) ?all" by (metis append_take_drop_id)
  moreover have "look r n = Some (of_bits ?all)"
    using assms by (simp add: at_def look_stream)
  ultimately show ?thesis by (metis length_map length_upt minus_nat.diff_0)
qed

lemma look_field:
  "at r (to_bits n d @ bs) \<Longrightarrow> 0 < n \<Longrightarrow> n \<le> 32 \<Longrightarrow> look r n = Some (take_bit n d)"
  by (subst look_at [of r "to_bits n d @ bs"]) simp_all

lemma skip_at:
  assumes "at r (xs @ ys)" "length xs = n" "n \<le> 32"
  shows "\<exists>r'. skip r n = Some r' \<and> at r' ys"
  using assms skip_stream [of r n] by (auto simp: at_def starts_append)

lemma skip_field:
  "at r (to_bits n d @ bs) \<Longrightarrow> n \<le> 32 \<Longrightarrow> \<exists>r'. skip r n = Some r' \<and> at r' bs"
  by (rule skip_at [of r "to_bits n d" bs n]) simp_all

end

interpretation br: bit_source reader_ok peek forward reader_stream
  by unfold_locales (rule peek_ok forward_ok; assumption)+

text \<open>The long reads and writes of the two headers, over the interpreted interfaces.\<close>

lemma writeLong_fields:
  "n \<le> 64 \<Longrightarrow> writeLong w d n = put_fields bit_write w
     (if n = 0 then [] else if 32 < n then [(drop_bit (n - 32) d, 32), (d, n - 32)] else [(d, n)])"
  by (auto simp: writeLong_def)

lemma push_or_take_bits:
  assumes "m \<le> 32" "m + n \<le> 64"
  shows "push_bit n (take_bit m (drop_bit n d)) OR take_bit n d = take_bit (m + n) (d :: u64)"
  using assms by (intro bit_word_eqI) (auto simp: bit_simps)

lemma readLong_at:
  assumes "br.at r (to_bits n d @ bs)" "n \<le> 64"
  shows "\<exists>r'. readLong r n = Some (take_bit n d, r') \<and> br.at r' bs"
proof -
  consider "n = 0" | "0 < n" "n \<le> 32" | "32 < n" by linarith
  then show ?thesis
  proof cases
    case 1
    with assms show ?thesis by (simp add: readLong_def)
  next
    case 2
    then show ?thesis
      using br.look_field [OF assms(1)] br.skip_field [OF assms(1)] by (auto simp: readLong_def)
  next
    case 3
    define m where "m = n - 32"
    with 3 assms have n: "n = 32 + m" "0 < m" "m \<le> 32" by simp_all
    have at: "br.at r (to_bits 32 (drop_bit m d) @ to_bits m d @ bs)"
      using assms(1) by (simp add: n(1) to_bits_add)
    obtain r1 where r1: "forward r 32 = Some r1" "br.at r1 (to_bits m d @ bs)"
      using br.skip_field [OF at] by auto
    obtain r2 where r2: "forward r1 m = Some r2" "br.at r2 bs"
      using br.skip_field [OF r1(2)] n by auto
    have "push_bit m (take_bit 32 (drop_bit m d)) OR take_bit m d = take_bit (32 + m) d"
      using n by (intro push_or_take_bits) simp_all
    then show ?thesis
      using 3 r1 r2 br.look_field [OF at] br.look_field [OF r1(2)] n
      by (simp add: readLong_def)
  qed
qed

text \<open>A reader opened on what a flushed writer produced starts with the bits written.\<close>

lemma reader_after_flush:
  assumes "words_bits ws = bs @ replicate pad False" "ws \<noteq> []"
  shows "\<exists>r. initBitReader ws (length ws) = Some r \<and> br.at r bs"
  using initBitReader_ok [of "length ws" ws] assms
  by (auto simp: br.at_def bits_stream_zeros starts_def bits_stream_map Suc_leI)

text \<open>The common frame of the compressors: open a writer, emit fields, flush, and open a reader
  on the words produced.\<close>

lemma fields_to_reader:
  assumes "fs \<noteq> []" "\<forall>f \<in> set fs. field_ok f" "length (fields_bits fs) \<le> 32 * n" "length out = n"
  obtains w0 w1 w2 k r where
    "initBitWriter out n = Some w0" "put_fields bit_write w0 fs = Some w1"
    "flush w1 = Some (w2, k)" "k = (length (fields_bits fs) + 31) div 32"
    "length (take k (w_output w2)) = k" "0 < k"
    "initBitReader (take k (w_output w2)) k = Some r" "br.at r (fields_bits fs)"
    "length (w_output w2) = n"
proof -
  have pos: "0 < length (fields_bits fs)"
    using assms(1,2) by (cases fs) auto
  then have "1 \<le> n" using assms(3) by (cases n) auto
  then obtain w0 where w0: "initBitWriter out n = Some w0" "writer_ok w0"
      "writer_bits w0 = []" "writer_cap w0 = 32 * n"
    using initBitWriter_ok [OF assms(4)] by auto
  then obtain w1 where w1: "put_fields bit_write w0 fs = Some w1" "writer_ok w1"
      "writer_bits w1 = fields_bits fs" "writer_cap w1 = 32 * n"
    using bw.put_fields_appends [of w0 fs] assms(2,3) by auto
  let ?k = "(length (fields_bits fs) + 31) div 32"
  obtain w2 pad where w2: "flush w1 = Some (w2, ?k)" "length (w_output w2) = w_len w1"
      "words_bits (take ?k (w_output w2)) = fields_bits fs @ replicate pad False" "?k \<le> w_len w1"
    using flush_ok [OF w1(2)] w1(3,4) assms(3) by auto
  have len: "length (take ?k (w_output w2)) = ?k" using w2 by simp
  moreover have k: "0 < ?k" using pos by (simp add: div_greater_zero_iff Suc_le_eq)
  ultimately have "take ?k (w_output w2) \<noteq> []" by fastforce
  then obtain r where "initBitReader (take ?k (w_output w2)) ?k = Some r" "br.at r (fields_bits fs)"
    using reader_after_flush [OF w2(3)] len by auto
  moreover have "length (w_output w2) = n" using w1(4) w2(2) by (simp add: writer_cap_def)
  ultimately show thesis using that w0 w1 w2 len k by blast
qed

section \<open>Writing a sequence of fields and reading it back\<close>

fun read_fields :: "bit_reader \<Rightarrow> nat list \<Rightarrow> (u64 list \<times> bit_reader) option" where
  "read_fields r [] = Some ([], r)"
| "read_fields r (n # ns) = do {
     x \<leftarrow> peek r n;
     r \<leftarrow> forward r n;
     (xs, r) \<leftarrow> read_fields r ns;
     Some (x # xs, r) }"

lemma read_fields_at:
  assumes "br.at r (fields_bits fs @ bs)" "\<forall>f \<in> set fs. field_ok f"
  shows "\<exists>r'. read_fields r (map snd fs) = Some (map (\<lambda>(d, n). take_bit n d) fs, r') \<and> br.at r' bs"
  using assms
proof (induction fs arbitrary: r)
  case Nil
  then show ?case by simp
next
  case (Cons f fs)
  have at: "br.at r (to_bits (snd f) (fst f) @ fields_bits fs @ bs)"
    using Cons.prems by simp
  obtain r1 where "forward r (snd f) = Some r1" "br.at r1 (fields_bits fs @ bs)"
    using br.skip_field [OF at] Cons.prems by auto
  then show ?case
    using Cons.IH [of r1] Cons.prems br.look_field [OF at] by (auto simp: split_beta)
qed

definition write_then_read :: "u32 list \<Rightarrow> field list \<Rightarrow> u64 list option" where
  "write_then_read out fs = do {
     w \<leftarrow> initBitWriter out (length out);
     w \<leftarrow> put_fields bit_write w fs;
     (w, k) \<leftarrow> flush w;
     r \<leftarrow> initBitReader (take k (w_output w)) k;
     (xs, r) \<leftarrow> read_fields r (map snd fs);
     Some xs }"



end
