(* ===== verification/Record_Codec.thy ===== *)
theory Record_Codec
  imports BitStream
begin

text \<open>
  The shape shared by the XOR compressors (Gorilla, Chimp128, Elf): the encoder turns each value
  into a record of fields and moves to a new state, the decoder reads one record and moves in
  step.  The locale states what one record must satisfy; the lemmas lift it to whole series,
  through a writer and a reader.
\<close>

fun codec_fields :: "('s \<Rightarrow> u64 \<Rightarrow> field list \<times> 's) \<Rightarrow> 's \<Rightarrow> u64 list \<Rightarrow> field list" where
  "codec_fields rec s [] = []"
| "codec_fields rec s (x # xs) = (case rec s x of (fs, s') \<Rightarrow> fs @ codec_fields rec s' xs)"

fun codec_decode ::
  "(bit_reader \<Rightarrow> 't \<Rightarrow> (u64 \<times> bit_reader \<times> 't) option) \<Rightarrow> nat \<Rightarrow> bit_reader \<Rightarrow> 't \<Rightarrow> u64 list option" where
  "codec_decode dec 0 r t = Some []"
| "codec_decode dec (Suc n) r t = do {
     (x, r, t) \<leftarrow> dec r t;
     xs \<leftarrow> codec_decode dec n r t;
     Some (x # xs) }"

locale record_codec =
  fixes rec :: "'s \<Rightarrow> u64 \<Rightarrow> field list \<times> 's"
    and dec :: "bit_reader \<Rightarrow> 't \<Rightarrow> (u64 \<times> bit_reader \<times> 't) option"
    and sim :: "'s \<Rightarrow> 't \<Rightarrow> bool"
    and adm :: "u64 \<Rightarrow> bool"
    and maxbits :: nat
  assumes rec_ok:
    "sim s t \<Longrightarrow> adm x \<Longrightarrow> rec s x = (fs, s') \<Longrightarrow>
     (\<forall>f \<in> set fs. field_ok f) \<and> length (fields_bits fs) \<le> maxbits \<and> fs \<noteq> [] \<and> (\<exists>t'. sim s' t')"
  and dec_rec:
    "sim s t \<Longrightarrow> adm x \<Longrightarrow> rec s x = (fs, s') \<Longrightarrow> br.at r (fields_bits fs @ bs) \<Longrightarrow>
     \<exists>r' t'. dec r t = Some (x, r', t') \<and> br.at r' bs \<and> sim s' t'"
begin

lemma codec_fields_ok:
  assumes "sim s t" "\<forall>x \<in> set xs. adm x"
  shows "(\<forall>f \<in> set (codec_fields rec s xs). field_ok f) \<and>
         length (fields_bits (codec_fields rec s xs)) \<le> maxbits * length xs \<and>
         (xs \<noteq> [] \<longrightarrow> codec_fields rec s xs \<noteq> [])"
  using assms
proof (induction xs arbitrary: s t)
  case Nil
  then show ?case by simp
next
  case (Cons x xs)
  obtain fs s' where step: "rec s x = (fs, s')" by fastforce
  with rec_ok [OF Cons.prems(1) _ step] Cons.prems(2) obtain t' where
    fs: "\<forall>f \<in> set fs. field_ok f" "length (fields_bits fs) \<le> maxbits" "fs \<noteq> []" and t': "sim s' t'"
    by auto
  from Cons.IH [OF t'] Cons.prems(2) fs show ?case by (auto simp: step)
qed

lemma codec_decode_at:
  assumes "br.at r (fields_bits (codec_fields rec s xs))" "sim s t" "\<forall>x \<in> set xs. adm x"
  shows "codec_decode dec (length xs) r t = Some xs"
  using assms
proof (induction xs arbitrary: r s t)
  case Nil
  then show ?case by simp
next
  case (Cons x xs)
  obtain fs s' where step: "rec s x = (fs, s')" by fastforce
  then have at: "br.at r (fields_bits fs @ fields_bits (codec_fields rec s' xs))"
    using Cons.prems(1) by simp
  from dec_rec [OF Cons.prems(2) _ step at] Cons.prems(3) obtain r' t' where
    "dec r t = Some (x, r', t')" "br.at r' (fields_bits (codec_fields rec s' xs))" "sim s' t'"
    by auto
  with Cons.IH Cons.prems(3) show ?case by simp
qed

text \<open>Through the stream: the words a writer produces for a series decode to the series.\<close>

lemma codec_roundtrip:
  assumes "sim s t" "\<forall>x \<in> set xs. adm x" "xs \<noteq> []" "maxbits * length xs \<le> 32 * n"
  obtains w0 w1 w2 k r where
    "initBitWriter (replicate n 0) n = Some w0"
    "put_fields bit_write w0 (codec_fields rec s xs) = Some w1"
    "flush w1 = Some (w2, k)" "length (take k (w_output w2)) = k"
    "k = (length (fields_bits (codec_fields rec s xs)) + 31) div 32"
    "initBitReader (take k (w_output w2)) k = Some r" "codec_decode dec (length xs) r t = Some xs"
proof -
  let ?fs = "codec_fields rec s xs"
  note ok = codec_fields_ok [OF assms(1,2)]
  have fs: "?fs \<noteq> []" "\<forall>f \<in> set ?fs. field_ok f" "length (fields_bits ?fs) \<le> 32 * n"
    using ok assms(3,4) by auto
  show thesis
    by (rule fields_to_reader [OF fs, of "replicate n 0"])
       (use that codec_decode_at [OF _ assms(1,2)] in simp_all)
qed

end

end
