(* ===== verification/Gorilla.thy ===== *)
theory Gorilla
  imports Record_Codec
begin

text \<open>
  The Gorilla compressor of \<open>Machete/gorilla/gorilla.cpp\<close>: each value is XORed with its
  predecessor and the meaningful bits of the difference are written, re-using the previous
  window of meaningful bits when the new ones fit into it.

  A series is the list of the 64-bit patterns of its doubles.  \<open>prevLeading\<close> starts as
  \<open>-1L\<close>, the largest \<open>uint64_t\<close>.  In the decoder \<open>leading\<close> and \<open>meaningful\<close> are
  uninitialised until the first record that carries them; they are an option here, and using
  them before is a failure.
\<close>

definition NO_LEADING :: nat where
  "NO_LEADING = 2 ^ 64 - 1"

definition SIZE_IN_BIT :: "nat \<Rightarrow> nat" where
  "SIZE_IN_BIT x = (x + 31) div 32"

section \<open>Encoder\<close>

definition gorilla_step ::
  "bit_writer \<Rightarrow> nat \<Rightarrow> nat \<Rightarrow> u64 \<Rightarrow> u64 \<Rightarrow> (bit_writer \<times> nat \<times> nat) option" where
  "gorilla_step w prevLeading prevTrailing prev cur =
     (let vDelta = cur XOR prev in
      if vDelta = 0
      then do { w \<leftarrow> bit_write w 0 1; Some (w, prevLeading, prevTrailing) }
      else
        let leading = (if 32 \<le> clz vDelta then 31 else clz vDelta);
            trailing = ctz vDelta
        in do {
          (w, prevLeading, prevTrailing, l) \<leftarrow>
            (if prevLeading \<noteq> NO_LEADING \<and> prevLeading \<le> leading \<and> prevTrailing \<le> trailing
             then do {
               w \<leftarrow> bit_write w 2 2;
               Some (w, prevLeading, prevTrailing, 64 - prevLeading - prevTrailing) }
             else do {
               w \<leftarrow> bit_write w 3 2;
               w \<leftarrow> bit_write w (of_nat leading) 5;
               w \<leftarrow> bit_write w (of_nat (64 - leading - trailing - 1)) 6;
               Some (w, leading, trailing, 64 - leading - trailing) });
          w \<leftarrow> (if l \<le> 32
                then bit_write w (drop_bit prevTrailing vDelta) l
                else do {
                  w \<leftarrow> bit_write w (drop_bit 32 vDelta) (32 - prevLeading);
                  bit_write w (drop_bit prevTrailing vDelta) (32 - prevTrailing) });
          Some (w, prevLeading, prevTrailing) })"

fun gorilla_encode_loop :: "bit_writer \<Rightarrow> nat \<Rightarrow> nat \<Rightarrow> u64 \<Rightarrow> u64 list \<Rightarrow> bit_writer option" where
  "gorilla_encode_loop w prevLeading prevTrailing prev [] = Some w"
| "gorilla_encode_loop w prevLeading prevTrailing prev (x # xs) = do {
     (w, prevLeading, prevTrailing) \<leftarrow> gorilla_step w prevLeading prevTrailing prev x;
     gorilla_encode_loop w prevLeading prevTrailing x xs }"

text \<open>The result is the byte buffer up to the returned size: the length, the first double and
  the words of the bit stream.  The words of the freshly allocated array are arbitrary; zeros
  stand for them.\<close>

fun gorilla_encode :: "double list \<Rightarrow> u8 list option" where
  "gorilla_encode [] = None"
| "gorilla_encode (x # xs) =
     (let len = length (x # xs);
          buffer_size = SIZE_IN_BIT ((1 + 1 + 5 + 6 + 64) * len) * 4;
          outlen = buffer_size div 4 - 2
      in do {
        w \<leftarrow> initBitWriter (replicate outlen 0) outlen;
        w \<leftarrow> gorilla_encode_loop w NO_LEADING 0 x xs;
        (w, k) \<leftarrow> flush w;
        Some (le_bytes 4 (of_nat len :: u32) @ le_bytes 8 x @ words_bytes (take k (w_output w))) })"

section \<open>Decoder\<close>

definition read_delta :: "bit_reader \<Rightarrow> nat \<Rightarrow> nat \<Rightarrow> (u64 \<times> bit_reader) option" where
  "read_delta r leading meaningful =
     (if 64 < leading + meaningful then None
      else
        let trailing = 64 - leading - meaningful in do {
          (delta, r) \<leftarrow>
            (if 32 < meaningful
             then do {
               delta \<leftarrow> peek r 32;
               r \<leftarrow> forward r 32;
               lo \<leftarrow> peek r (meaningful - 32);
               r \<leftarrow> forward r (meaningful - 32);
               Some (push_bit (meaningful - 32) delta OR lo, r) }
             else do {
               delta \<leftarrow> peek r meaningful;
               r \<leftarrow> forward r meaningful;
               Some (delta, r) });
          Some (push_bit trailing delta, r) })"

definition gorilla_decode_step ::
  "bit_reader \<Rightarrow> (nat \<times> nat) option \<Rightarrow> u64 \<Rightarrow> (u64 \<times> bit_reader \<times> (nat \<times> nat) option) option" where
  "gorilla_decode_step r window prev = do {
     flag \<leftarrow> peek r 2;
     (if flag = 0 \<or> flag = 1
      then do { r \<leftarrow> forward r 1; Some (prev, r, window) }
      else if flag = 2
      then do {
        r \<leftarrow> forward r 2;
        (leading, meaningful) \<leftarrow> window;
        (delta, r) \<leftarrow> read_delta r leading meaningful;
        Some (prev XOR delta, r, window) }
      else do {
        r \<leftarrow> forward r 2;
        leading \<leftarrow> peek r 5;
        r \<leftarrow> forward r 5;
        m \<leftarrow> peek r 6;
        r \<leftarrow> forward r 6;
        (let leading = unat leading; meaningful = unat m + 1 in do {
          (delta, r) \<leftarrow> read_delta r leading meaningful;
          Some (prev XOR delta, r, Some (leading, meaningful)) }) }) }"

fun gorilla_decode_loop ::
  "nat \<Rightarrow> bit_reader \<Rightarrow> (nat \<times> nat) option \<Rightarrow> u64 \<Rightarrow> u64 list option" where
  "gorilla_decode_loop 0 r window prev = Some []"
| "gorilla_decode_loop (Suc n) r window prev = do {
     (x, r, window) \<leftarrow> gorilla_decode_step r window prev;
     xs \<leftarrow> gorilla_decode_loop n r window x;
     Some (x # xs) }"

definition gorilla_decode :: "u8 list \<Rightarrow> (nat \<times> double list) option" where
  "gorilla_decode inp = do {
     (lenb, rest) \<leftarrow> split_at 4 inp;
     (firstb, payload) \<leftarrow> split_at 8 rest;
     (let data_len = unat (of_le_bytes lenb :: u32); first = of_le_bytes firstb in
      if (length inp - 4 - 8) mod 4 \<noteq> 0 then None
      else do {
        r \<leftarrow> initBitReader (bytes_words payload) ((length inp - 4 - 8) div 4);
        xs \<leftarrow> gorilla_decode_loop (data_len - 1) r None first;
        Some (data_len, first # xs) }) }"

section \<open>The fields the encoder writes\<close>

text \<open>A reference encoder: the list of fields of one value, with the window it leaves.\<close>

definition window_fields :: "nat \<Rightarrow> nat \<Rightarrow> u64 \<Rightarrow> field list" where
  "window_fields lead trail d =
     (if 64 - lead - trail \<le> 32 then [(drop_bit trail d, 64 - lead - trail)]
      else [(drop_bit 32 d, 32 - lead), (drop_bit trail d, 32 - trail)])"

definition lead_of :: "u64 \<Rightarrow> nat" where
  "lead_of d = (if 32 \<le> clz d then 31 else clz d)"

definition step_fields :: "nat \<Rightarrow> nat \<Rightarrow> u64 \<Rightarrow> field list \<times> nat \<times> nat" where
  "step_fields pl pt d =
     (if d = 0 then ([(0, 1)], pl, pt)
      else if pl \<noteq> NO_LEADING \<and> pl \<le> lead_of d \<and> pt \<le> ctz d
      then ((2, 2) # window_fields pl pt d, pl, pt)
      else ((3, 2) # (of_nat (lead_of d), 5) # (of_nat (64 - lead_of d - ctz d - 1), 6) #
              window_fields (lead_of d) (ctz d) d, lead_of d, ctz d))"

text \<open>The encoder as a record codec: the state is the window and the previous value.\<close>

fun gorilla_rec :: "nat \<times> nat \<times> u64 \<Rightarrow> u64 \<Rightarrow> field list \<times> nat \<times> nat \<times> u64" where
  "gorilla_rec (pl, pt, prev) x =
     (case step_fields pl pt (x XOR prev) of (fs, pl', pt') \<Rightarrow> (fs, pl', pt', x))"

fun gorilla_dec ::
  "bit_reader \<Rightarrow> (nat \<times> nat) option \<times> u64 \<Rightarrow> (u64 \<times> bit_reader \<times> (nat \<times> nat) option \<times> u64) option" where
  "gorilla_dec r (window, prev) =
     map_option (\<lambda>(x, r, window). (x, r, window, x)) (gorilla_decode_step r window prev)"

lemma gorilla_step_fields:
  "gorilla_step w pl pt prev x =
     (case step_fields pl pt (x XOR prev) of
        (fs, pl', pt') \<Rightarrow> map_option (\<lambda>w. (w, pl', pt')) (put_fields bit_write w fs))"
  by (simp add: gorilla_step_def step_fields_def window_fields_def lead_of_def Let_def
      map_conv_bind_option comp_def)

lemma gorilla_encode_loop_fields:
  "gorilla_encode_loop w pl pt prev xs =
     put_fields bit_write w (codec_fields gorilla_rec (pl, pt, prev) xs)"
  by (induction xs arbitrary: w pl pt prev)
     (simp_all add: gorilla_step_fields put_fields_append map_conv_bind_option comp_def split: prod.split)

lemma gorilla_decode_loop_dec:
  "gorilla_decode_loop n r window prev = codec_decode gorilla_dec n r (window, prev)"
  by (induction n arbitrary: r window prev)
     (simp_all add: map_conv_bind_option split: Option.bind_split)

section \<open>The window of meaningful bits\<close>

lemma window_fields_bits:
  assumes "window_ok lead trail"
  shows "fields_bits (window_fields lead trail d) = to_bits (64 - lead - trail) (drop_bit trail d)"
    and "\<forall>f \<in> set (window_fields lead trail d). field_ok f"
proof -
  show "\<forall>f \<in> set (window_fields lead trail d). field_ok f"
    using assms by (auto simp: window_fields_def window_ok_def)
  show "fields_bits (window_fields lead trail d) = to_bits (64 - lead - trail) (drop_bit trail d)"
  proof (cases "64 - lead - trail \<le> 32")
    case True
    then show ?thesis by (simp add: window_fields_def)
  next
    case False
    then have sum: "64 - lead - trail = (32 - lead) + (32 - trail)" and "trail \<le> 32"
      using assms by (auto simp: window_ok_def)
    then have "drop_bit (32 - trail) (drop_bit trail d) = drop_bit 32 d"
      by simp
    with False show ?thesis
      unfolding sum to_bits_add by (simp add: window_fields_def sum)
  qed
qed

lemma read_delta_readLong:
  assumes "lead + m \<le> 64" "0 < m"
  shows "read_delta r lead m = map_option (\<lambda>(d, r). (push_bit (64 - lead - m) d, r)) (readLong r m)"
  using assms
  by (simp add: read_delta_def readLong_def map_conv_bind_option comp_def)

lemma read_delta_at:
  assumes "br.at r (fields_bits (window_fields lead trail d) @ bs)"
    and "window_ok lead trail" "in_window lead trail d"
  shows "\<exists>r'. read_delta r lead (64 - lead - trail) = Some (d, r') \<and> br.at r' bs"
proof -
  have m: "lead + (64 - lead - trail) \<le> 64" "0 < 64 - lead - trail" "64 - lead - trail \<le> 64"
      "64 - lead - (64 - lead - trail) = trail"
    using assms(2) by (auto simp: window_ok_def)
  obtain r' where "readLong r (64 - lead - trail) =
        Some (take_bit (64 - lead - trail) (drop_bit trail d), r')" "br.at r' bs"
    using readLong_at [OF _ m(3)] assms(1) window_fields_bits(1) [OF assms(2)] by metis
  then show ?thesis
    using window_restores [OF assms(2,3)] read_delta_readLong [OF m(1,2)] m(4) by auto
qed

section \<open>Decoding inverts encoding, value by value\<close>

text \<open>The decoder's window mirrors the encoder's.\<close>

definition windows_agree :: "nat \<Rightarrow> nat \<Rightarrow> (nat \<times> nat) option \<Rightarrow> bool" where
  "windows_agree pl pt window \<longleftrightarrow>
     (pl = NO_LEADING \<or> window_ok pl pt \<and> window = Some (pl, 64 - pl - pt))"

lemma small_word: "n < 2 ^ k \<Longrightarrow> k \<le> 6 \<Longrightarrow> unat (take_bit k (of_nat n :: u64)) = n"
proof -
  assume n: "n < 2 ^ k" and k: "k \<le> 6"
  have "(2 :: nat) ^ k \<le> 2 ^ 6" using k by (intro power_increasing) auto
  with n have "n < 2 ^ 64" by simp
  with n show ?thesis
    by (simp add: unsigned_take_bit_eq take_bit_nat_eq_self unat_of_nat)
qed

lemma new_window:
  assumes "d \<noteq> 0"
  shows "window_ok (lead_of d) (ctz d)" and "in_window (lead_of d) (ctz d) d"
  using clz_ctz_bound [OF assms] by (auto simp: window_ok_def in_window_def lead_of_def)

text \<open>The three kinds of records.\<close>

lemma step_fields_cases:
  assumes "windows_agree pl pt window" "step_fields pl pt d = (fs, pl', pt')"
  obtains (same) "d = 0" "fs = [(0, 1)]" "pl' = pl" "pt' = pt"
  | (reuse) "window_ok pl pt" "in_window pl pt d" "window = Some (pl, 64 - pl - pt)"
      "fs = (2, 2) # window_fields pl pt d" "pl' = pl" "pt' = pt"
  | (new) "window_ok pl' pt'" "in_window pl' pt' d"
      "fs = (3, 2) # (of_nat pl', 5) # (of_nat (64 - pl' - pt' - 1), 6) # window_fields pl' pt' d"
proof (cases "d = 0")
  case True
  with assms(2) show thesis by (auto simp: step_fields_def intro: that(1))
next
  case nz: False
  show thesis
  proof (cases "pl \<noteq> NO_LEADING \<and> pl \<le> lead_of d \<and> pt \<le> ctz d")
    case True
    then have "pl \<le> clz d" by (auto simp: lead_of_def split: if_splits)
    with True nz assms show thesis
      by (intro that(2)) (auto simp: step_fields_def windows_agree_def in_window_def)
  next
    case False
    with nz assms(2) have "pl' = lead_of d" "pt' = ctz d"
      "fs = (3, 2) # (of_nat pl', 5) # (of_nat (64 - pl' - pt' - 1), 6) # window_fields pl' pt' d"
      by (auto simp: step_fields_def)
    then show thesis using new_window [OF nz] by (intro that(3)) simp_all
  qed
qed

lemma step_fields_ok:
  assumes "windows_agree pl pt window" "step_fields pl pt d = (fs, pl', pt')"
  shows "(\<forall>f \<in> set fs. field_ok f) \<and> length (fields_bits fs) \<le> 77 \<and> fs \<noteq> [] \<and>
           (\<exists>window'. windows_agree pl' pt' window')"
  using assms
proof (cases rule: step_fields_cases)
  case same
  then show ?thesis using assms(1) by auto
next
  case reuse
  then show ?thesis
    using window_fields_bits [OF reuse(1), of d] assms(1) by auto
next
  case new
  then show ?thesis
    using window_fields_bits [OF new(1), of d] by (auto simp: windows_agree_def)
qed

lemma peek_flag:
  assumes "br.at r (b # bs)"
  shows "\<exists>c. peek r 2 = Some (of_bits [b, c])"
proof -
  have "map (reader_stream r) [0..<1] = [b]" and "reader_ok r"
    using assms starts_append [of _ "[b]" bs] by (auto simp: br.at_def starts_def)
  moreover have "[0..<2] = [0, 1 :: nat]" by (simp add: numeral_2_eq_2)
  ultimately show ?thesis
    using br.look_stream [of r 2] by auto
qed

lemma flag_values:
  "of_bits [False, c] = 0 \<or> of_bits [False, c] = 1"
  "of_bits [True, False] = 2" "of_bits [True, True] = 3"
  by (cases c; simp add: of_bits_def)+

lemma gorilla_decode_step_at:
  assumes "br.at r (fields_bits fs @ bs)" "windows_agree pl pt window"
    and "step_fields pl pt (x XOR prev) = (fs, pl', pt')"
  shows "\<exists>r' window'. gorilla_decode_step r window prev = Some (x, r', window') \<and>
           br.at r' bs \<and> windows_agree pl' pt' window'"
  using assms(2,3)
proof (cases rule: step_fields_cases)
  case same
  then have "x = prev"
    by (simp add: xor_zero_eq)
  moreover have at: "br.at r (to_bits 1 (0 :: u64) @ bs)"
    using assms(1) same by simp
  moreover have "to_bits 1 (0 :: u64) = [False]" by (simp add: to_bits_def)
  ultimately show ?thesis
    using peek_flag [of r False bs] br.skip_field [OF at] flag_values(1) assms(2) same
    by (fastforce simp: gorilla_decode_step_def)
next
  case reuse
  have at: "br.at r (to_bits 2 (2 :: u64) @ fields_bits (window_fields pl pt (x XOR prev)) @ bs)"
    using assms(1) reuse by simp
  obtain r1 where r1: "forward r 2 = Some r1"
      "br.at r1 (fields_bits (window_fields pl pt (x XOR prev)) @ bs)"
    using br.skip_field [OF at] by auto
  moreover have "peek r 2 = Some 2"
    using br.look_field [OF at] by simp
  moreover obtain r2 where "read_delta r1 pl (64 - pl - pt) = Some (x XOR prev, r2)" "br.at r2 bs"
    using read_delta_at [OF r1(2) reuse(1,2)] by auto
  ultimately show ?thesis
    using reuse(3,5,6) assms(2) by (simp add: gorilla_decode_step_def xor_back)
next
  case new
  let ?rest = "fields_bits (window_fields pl' pt' (x XOR prev)) @ bs"
  have at: "br.at r (to_bits 2 (3 :: u64) @ to_bits 5 (of_nat pl' :: u64) @
      to_bits 6 (of_nat (64 - pl' - pt' - 1) :: u64) @ ?rest)"
    using assms(1) new by simp
  obtain r1 where r1: "forward r 2 = Some r1" "br.at r1 (to_bits 5 (of_nat pl' :: u64) @
      to_bits 6 (of_nat (64 - pl' - pt' - 1) :: u64) @ ?rest)"
    using br.skip_field [OF at] by auto
  obtain r2 where r2: "forward r1 5 = Some r2"
      "br.at r2 (to_bits 6 (of_nat (64 - pl' - pt' - 1) :: u64) @ ?rest)"
    using br.skip_field [OF r1(2)] by auto
  obtain r3 where r3: "forward r2 6 = Some r3" "br.at r3 ?rest"
    using br.skip_field [OF r2(2)] by auto
  have nums: "unat (take_bit 5 (of_nat pl' :: u64)) = pl'"
    "unat (take_bit 6 (of_nat (64 - pl' - pt' - 1) :: u64)) + 1 = 64 - pl' - pt'"
    using new(1) by (auto simp: window_ok_def small_word simp del: of_nat_diff)
  obtain r4 where r4: "read_delta r3 pl' (64 - pl' - pt') = Some (x XOR prev, r4)" "br.at r4 bs"
    using read_delta_at [OF r3(2) new(1,2)] by auto
  have "peek r 2 = Some 3" "peek r1 5 = Some (take_bit 5 (of_nat pl'))"
    "peek r2 6 = Some (take_bit 6 (of_nat (64 - pl' - pt' - 1)))"
    using br.look_field [OF at] br.look_field [OF r1(2)] br.look_field [OF r2(2)]
    by (simp_all del: of_nat_diff)
  moreover have "windows_agree pl' pt' (Some (pl', 64 - pl' - pt'))"
    using new(1) by (simp add: windows_agree_def)
  ultimately show ?thesis
    using r1(1) r2(1) r3(1) nums r4
    by (simp add: gorilla_decode_step_def Let_def xor_back del: of_nat_diff)
qed

section \<open>Whole series\<close>

fun gorilla_sim :: "nat \<times> nat \<times> u64 \<Rightarrow> (nat \<times> nat) option \<times> u64 \<Rightarrow> bool" where
  "gorilla_sim (pl, pt, p) (window, q) \<longleftrightarrow> windows_agree pl pt window \<and> p = q"

interpretation gor: record_codec gorilla_rec gorilla_dec gorilla_sim "\<lambda>_. True" 77
proof
  fix s t x fs s'
  assume sim: "gorilla_sim s t" and step: "gorilla_rec s x = (fs, s')"
  obtain pl pt p window where st: "s = (pl, pt, p)" "t = (window, p)" "windows_agree pl pt window"
    using sim by (cases s; cases t) auto
  obtain pl' pt' where s': "step_fields pl pt (x XOR p) = (fs, pl', pt')" "s' = (pl', pt', x)"
    using step st(1) by (auto split: prod.splits)
  show "(\<forall>f \<in> set fs. field_ok f) \<and> length (fields_bits fs) \<le> 77 \<and> fs \<noteq> [] \<and>
      (\<exists>t'. gorilla_sim s' t')"
    using step_fields_ok [OF st(3) s'(1)] s'(2) by auto
  fix r bs
  assume "br.at r (fields_bits fs @ bs)"
  from gorilla_decode_step_at [OF this st(3) s'(1)]
  show "\<exists>r' t'. gorilla_dec r t = Some (x, r', t') \<and> br.at r' bs \<and> gorilla_sim s' t'"
    by (auto simp: st(2) s'(2))
qed

lemma gorilla_capacity:
  "1 \<le> n \<Longrightarrow> 77 * n \<le> 32 * (SIZE_IN_BIT (77 * Suc n) - 2)"
  by (simp add: SIZE_IN_BIT_def)



text \<open>C8. A series of one value is encoded into twelve bytes that \<open>gorilla_decode\<close> does not
  accept: the bit stream is empty and \<open>initBitReader\<close> asserts that it is not.\<close>

theorem gorilla_single_value:
  "gorilla_encode [x] = Some (le_bytes 4 (1 :: u32) @ le_bytes 8 x) \<and>
   gorilla_decode (le_bytes 4 (1 :: u32) @ le_bytes 8 x) = None"
  by (simp add: SIZE_IN_BIT_def initBitWriter_def flush_def words_bytes_def gorilla_decode_def
      initBitReader_def split_at_def)

end
