(* ===== verification/Chimp.thy ===== *)
theory Chimp
  imports Record_Codec
begin

text \<open>
  The Chimp128 compressor of \<open>Machete/chimp\<close> (\<open>ChimpEncode.cpp\<close>, \<open>ChimpDecode.cpp\<close>,
  \<open>ChimpDef.h\<close>).  Each value is XORed either with the previous value or with one of the last
  128 values, found through a table indexed by the low bits of the pattern.

  \<open>__builtin_ctzl(delta)\<close> is called with \<open>delta = 0\<close> when the looked-up value equals the
  current one; its result is then undefined.  The parameter \<open>ctz0\<close> is whatever it returns, and
  the round trip below holds for every \<open>ctz0\<close>.
\<close>

definition PREVIOUS_VALUES :: nat where
  "PREVIOUS_VALUES = 128"

section \<open>Encoder\<close>

definition leadingRep_enc :: "nat list" where
  "leadingRep_enc =
     [0, 0, 0, 0, 0, 0, 0, 0,
      1, 1, 1, 1, 2, 2, 2, 2,
      3, 3, 4, 4, 5, 5, 6, 6,
      7, 7, 7, 7, 7, 7, 7, 7,
      7, 7, 7, 7, 7, 7, 7, 7,
      7, 7, 7, 7, 7, 7, 7, 7,
      7, 7, 7, 7, 7, 7, 7, 7,
      7, 7, 7, 7, 7, 7, 7, 7]"

definition leadingRnd :: "nat list" where
  "leadingRnd =
     [0, 0, 0, 0, 0, 0, 0, 0,
      8, 8, 8, 8, 12, 12, 12, 12,
      16, 16, 18, 18, 20, 20, 22, 22,
      24, 24, 24, 24, 24, 24, 24, 24,
      24, 24, 24, 24, 24, 24, 24, 24,
      24, 24, 24, 24, 24, 24, 24, 24,
      24, 24, 24, 24, 24, 24, 24, 24,
      24, 24, 24, 24, 24, 24, 24, 24]"

definition write_long :: "bit_writer \<Rightarrow> u64 \<Rightarrow> nat \<Rightarrow> bit_writer option" where
  "write_long w data len =
     (if len \<le> 32 then bit_write w data len
      else do { w \<leftarrow> bit_write w (signed_drop_bit 32 data) (len - 32); bit_write w data 32 })"

text \<open>The local variables of \<open>chimp_encode\<close>.  \<open>indices\<close> is the zeroed table of
  \<open>2 ^ (threshold + 1)\<close> entries; its keys are masked with \<open>setLsb\<close>, so they never leave it.\<close>

record chimp_state =
  ch_storedLeadingZeros :: nat
  ch_index :: nat
  ch_current :: nat
  ch_size :: nat
  ch_indices :: "nat \<Rightarrow> nat"
  ch_storedValues :: "u64 list"

definition previousValuesLog2 :: nat where
  "previousValuesLog2 = 31 - clz (of_nat PREVIOUS_VALUES :: u32)"

definition threshold :: nat where
  "threshold = 6 + previousValuesLog2"

definition flagZeroSize :: nat where
  "flagZeroSize = previousValuesLog2 + 2"

definition flagOneSize :: nat where
  "flagOneSize = previousValuesLog2 + 11"

text \<open>The reference value: the XOR difference, its position among the stored values, and the
  number of trailing zeros the later branches test.\<close>

definition chimp_choose :: "nat \<Rightarrow> chimp_state \<Rightarrow> u64 \<Rightarrow> nat \<Rightarrow> u64 \<times> nat \<times> nat" where
  "chimp_choose ctz0 s cur key =
     (let currIndex = ch_indices s key;
          prevIndex = ch_index s mod PREVIOUS_VALUES;
          prevDelta = ch_storedValues s ! prevIndex XOR cur
      in if ch_index s - currIndex < PREVIOUS_VALUES
         then
           let delta = cur XOR ch_storedValues s ! (currIndex mod PREVIOUS_VALUES);
               trailingZeros = ctzl ctz0 delta
           in if threshold < trailingZeros
              then (delta, currIndex mod PREVIOUS_VALUES, trailingZeros)
              else (prevDelta, prevIndex, trailingZeros)
         else (prevDelta, prevIndex, 0))"

definition chimp_step ::
  "nat \<Rightarrow> bit_writer \<Rightarrow> chimp_state \<Rightarrow> u64 \<Rightarrow> (bit_writer \<times> chimp_state) option" where
  "chimp_step ctz0 w s cur =
     (let key = unat (take_bit (threshold + 1) cur) in
      case chimp_choose ctz0 s cur key of (delta, previousIndex, trailingZeros) \<Rightarrow> do {
        (w, stored, bits) \<leftarrow>
          (if delta = 0
           then do { w \<leftarrow> bit_write w (of_nat previousIndex) flagZeroSize;
                     Some (w, 65, flagZeroSize) }
           else
             let leadingZeros = leadingRnd ! clz delta in
             if threshold < trailingZeros
             then
               let significantBits = 64 - leadingZeros - trailingZeros in do {
                 w \<leftarrow> bit_write w (push_bit 9 (of_nat (PREVIOUS_VALUES + previousIndex)) OR
                        push_bit 6 (of_nat (leadingRep_enc ! leadingZeros)) OR
                        of_nat significantBits) flagOneSize;
                 w \<leftarrow> write_long w (signed_drop_bit trailingZeros delta) significantBits;
                 Some (w, 65, significantBits + flagOneSize) }
             else if leadingZeros = ch_storedLeadingZeros s
             then
               let significantBits = 64 - leadingZeros in do {
                 w \<leftarrow> bit_write w 2 2;
                 w \<leftarrow> write_long w delta significantBits;
                 Some (w, ch_storedLeadingZeros s, 2 + significantBits) }
             else
               let significantBits = 64 - leadingZeros in do {
                 w \<leftarrow> bit_write w (push_bit 3 3 OR of_nat (leadingRep_enc ! leadingZeros)) 5;
                 w \<leftarrow> write_long w delta significantBits;
                 Some (w, leadingZeros, 5 + significantBits) });
        (let current = (ch_current s + 1) mod PREVIOUS_VALUES in
         Some (w, s\<lparr>ch_storedLeadingZeros := stored, ch_size := ch_size s + bits,
                     ch_current := current,
                     ch_storedValues := (ch_storedValues s)[current := cur],
                     ch_index := ch_index s + 1,
                     ch_indices := (ch_indices s)(key := ch_index s + 1)\<rparr>)) })"

fun chimp_encode_loop ::
  "nat \<Rightarrow> bit_writer \<Rightarrow> chimp_state \<Rightarrow> u64 list \<Rightarrow> (bit_writer \<times> chimp_state) option" where
  "chimp_encode_loop ctz0 w s [] = Some (w, s)"
| "chimp_encode_loop ctz0 w s (x # xs) = do {
     (w, s) \<leftarrow> chimp_step ctz0 w s x;
     chimp_encode_loop ctz0 w s xs }"

text \<open>The initial store \<open>indices[((int) in[0]) & setLsb] = index\<close> writes 0 into a zeroed
  table.\<close>

definition chimp_init :: "u64 \<Rightarrow> chimp_state" where
  "chimp_init x =
     \<lparr>ch_storedLeadingZeros = 2 ^ 31 - 1, ch_index = 0, ch_current = 0, ch_size = 64,
      ch_indices = (\<lambda>_. 0), ch_storedValues = (replicate PREVIOUS_VALUES 0)[0 := x]\<rparr>"

fun chimp_encode :: "nat \<Rightarrow> double list \<Rightarrow> u8 list option" where
  "chimp_encode ctz0 [] = None"
| "chimp_encode ctz0 (x # xs) =
     (let len = length (x # xs);
          buffer_size = ((1 + 1 + 5 + 6 + 64) * len + 31) div 32 * 4;
          outlen = buffer_size div 4 - 2
      in do {
        w \<leftarrow> initBitWriter (replicate outlen 0) outlen;
        (w, s) \<leftarrow> chimp_encode_loop ctz0 w (chimp_init x) xs;
        (w, k) \<leftarrow> flush w;
        Some (le_bytes 4 (of_nat len :: u32) @ le_bytes 8 x @ words_bytes (take k (w_output w))) })"

section \<open>Decoder\<close>

definition leadingRep_dec :: "nat list" where
  "leadingRep_dec = [0, 8, 12, 16, 18, 20, 22, 24]"

definition read_long :: "bit_reader \<Rightarrow> nat \<Rightarrow> (u64 \<times> bit_reader) option" where
  "read_long r len =
     (if 32 < len
      then do {
        res \<leftarrow> peek r 32;
        r \<leftarrow> forward r 32;
        lo \<leftarrow> peek r (len - 32);
        r \<leftarrow> forward r (len - 32);
        Some (push_bit (len - 32) res OR lo, r) }
      else do {
        res \<leftarrow> peek r len;
        r \<leftarrow> forward r len;
        Some (res, r) })"

definition initialFill :: nat where
  "initialFill = previousValuesLog2 + 9"

text \<open>One iteration: \<open>lead\<close> is \<open>storedLeadingZeros\<close>, \<open>stored\<close> the table of the last values,
  \<open>prev\<close> is \<open>data[i-1]\<close>.  A length computed from \<open>storedLeadingZeros > 64\<close> is negative
  and violates the assertion of \<open>peek\<close>; a negative shift is undefined.\<close>

definition chimp_decode_step ::
  "bit_reader \<Rightarrow> nat \<Rightarrow> u64 list \<Rightarrow> u64 \<Rightarrow> (u64 \<times> bit_reader \<times> nat) option" where
  "chimp_decode_step r lead stored prev = do {
     flag \<leftarrow> peek r 2;
     r \<leftarrow> forward r 2;
     (if flag = 3
      then do {
        tmp \<leftarrow> peek r 3;
        r \<leftarrow> forward r 3;
        (let lead = leadingRep_dec ! unat tmp in do {
          (delta, r) \<leftarrow> read_long r (64 - lead);
          Some (prev XOR delta, r, lead) }) }
      else if flag = 2
      then (if 64 < lead then None
            else do {
              (delta, r) \<leftarrow> read_long r (64 - lead);
              Some (prev XOR delta, r, lead) })
      else if flag = 1
      then do {
        tmp \<leftarrow> peek r initialFill;
        r \<leftarrow> forward r initialFill;
        (let index = unat (drop_bit (initialFill - previousValuesLog2) tmp AND
                       (push_bit previousValuesLog2 1 - 1));
             lead = leadingRep_dec ! unat (drop_bit (initialFill - previousValuesLog2 - 3) tmp AND 7);
             sb = unat (drop_bit (initialFill - previousValuesLog2 - 3 - 6) tmp AND 63);
             significantBits = (if sb = 0 then 64 else sb)
         in if 64 < significantBits + lead then None
            else do {
              (delta, r) \<leftarrow> read_long r significantBits;
              Some (stored ! index XOR push_bit (64 - significantBits - lead) delta, r, lead) }) }
      else do {
        (idx, r) \<leftarrow> read_long r previousValuesLog2;
        Some (stored ! unat idx, r, lead) }) }"

fun chimp_decode_loop ::
  "nat \<Rightarrow> nat \<Rightarrow> bit_reader \<Rightarrow> nat \<Rightarrow> u64 list \<Rightarrow> u64 \<Rightarrow> u64 list option" where
  "chimp_decode_loop 0 i r lead stored prev = Some []"
| "chimp_decode_loop (Suc n) i r lead stored prev = do {
     (x, r, lead) \<leftarrow> chimp_decode_step r lead stored prev;
     xs \<leftarrow> chimp_decode_loop n (i + 1) r lead (stored[i mod PREVIOUS_VALUES := x]) x;
     Some (x # xs) }"

definition chimp_decode :: "u8 list \<Rightarrow> (nat \<times> double list) option" where
  "chimp_decode inp = do {
     (lenb, rest) \<leftarrow> split_at 4 inp;
     (firstb, payload) \<leftarrow> split_at 8 rest;
     (let data_len = unat (of_le_bytes lenb :: u32); first = of_le_bytes firstb in
      if (length inp - 12) mod 4 \<noteq> 0 then None
      else do {
        r \<leftarrow> initBitReader (bytes_words payload) ((length inp - 12) div 4);
        xs \<leftarrow> chimp_decode_loop (data_len - 1) 1 r (2 ^ 31 - 1)
               ((replicate PREVIOUS_VALUES 0)[0 := first]) first;
        Some (data_len, first # xs) }) }"

section \<open>Constants and tables\<close>

lemma chimp_consts [simp]:
  "previousValuesLog2 = 7" "threshold = 13" "flagZeroSize = 9" "flagOneSize = 18" "initialFill = 16"
  "PREVIOUS_VALUES = 128"
proof -
  show log: "previousValuesLog2 = 7" by code_simp
  show "threshold = 13" "flagZeroSize = 9" "flagOneSize = 18" "initialFill = 16"
    by (simp_all add: threshold_def flagZeroSize_def flagOneSize_def initialFill_def log)
qed (simp add: PREVIOUS_VALUES_def)

text \<open>Rounding the leading zeros only goes down, and the three-bit code of a rounded count is
  decoded to it.\<close>

lemma leading_tables:
  assumes "c < 64"
  shows "leadingRnd ! c \<le> c \<and> leadingRnd ! c \<le> 24 \<and> leadingRep_enc ! (leadingRnd ! c) < 8 \<and>
    leadingRep_dec ! (leadingRep_enc ! (leadingRnd ! c)) = leadingRnd ! c"
proof -
  have "\<forall>c \<in> set [0..<64]. leadingRnd ! c \<le> c \<and> leadingRnd ! c \<le> 24 \<and>
    leadingRep_enc ! (leadingRnd ! c) < 8 \<and>
    leadingRep_dec ! (leadingRep_enc ! (leadingRnd ! c)) = leadingRnd ! c"
    by code_simp
  with assms show ?thesis by simp
qed

section \<open>The fields the encoder writes\<close>

definition long_fields :: "u64 \<Rightarrow> nat \<Rightarrow> field list" where
  "long_fields d len =
     (if len \<le> 32 then [(d, len)] else [(signed_drop_bit 32 d, len - 32), (d, 32)])"

lemma write_long_fields: "write_long w d len = put_fields bit_write w (long_fields d len)"
  by (simp add: write_long_def long_fields_def)

lemma to_bits_signed_drop:
  "n + m \<le> 64 \<Longrightarrow> to_bits n (signed_drop_bit m (d :: u64)) = to_bits n (drop_bit m d)"
  by (rule to_bits_cong) (auto simp: bit_signed_drop_bit_iff bit_drop_bit_eq)

lemma long_fields_bits:
  assumes "0 < len" "len \<le> 64"
  shows "fields_bits (long_fields d len) = to_bits len d" and "\<forall>f \<in> set (long_fields d len). field_ok f"
proof -
  show "\<forall>f \<in> set (long_fields d len). field_ok f"
    using assms by (auto simp: long_fields_def)
  have "to_bits len d = to_bits (len - 32) (drop_bit 32 d) @ to_bits 32 d" if "32 < len"
    using that to_bits_add [of "len - 32" 32 d] by simp
  then show "fields_bits (long_fields d len) = to_bits len d"
    using assms to_bits_signed_drop [of "len - 32" 32 d] by (auto simp: long_fields_def)
qed

definition record_fields :: "nat \<Rightarrow> u64 \<Rightarrow> nat \<Rightarrow> nat \<Rightarrow> field list \<times> nat \<times> nat" where
  "record_fields stored delta pi tz =
     (let lz = leadingRnd ! clz delta; sb = 64 - lz - tz in
      if delta = 0 then ([(of_nat pi, 9)], 65, 9)
      else if 13 < tz
      then ((push_bit 9 (of_nat (128 + pi)) OR push_bit 6 (of_nat (leadingRep_enc ! lz)) OR of_nat sb, 18)
              # long_fields (signed_drop_bit tz delta) sb, 65, sb + 18)
      else if lz = stored then ((2, 2) # long_fields delta (64 - lz), stored, 2 + (64 - lz))
      else ((push_bit 3 3 OR of_nat (leadingRep_enc ! lz), 5) # long_fields delta (64 - lz), lz,
            5 + (64 - lz)))"

definition chimp_next :: "chimp_state \<Rightarrow> u64 \<Rightarrow> nat \<Rightarrow> nat \<Rightarrow> chimp_state" where
  "chimp_next s cur stored bits =
     (let current = (ch_current s + 1) mod 128 in
      s\<lparr>ch_storedLeadingZeros := stored, ch_size := ch_size s + bits, ch_current := current,
        ch_storedValues := (ch_storedValues s)[current := cur], ch_index := ch_index s + 1,
        ch_indices := (ch_indices s)(unat (take_bit 14 cur) := ch_index s + 1)\<rparr>)"

definition step_record :: "nat \<Rightarrow> chimp_state \<Rightarrow> u64 \<Rightarrow> field list \<times> nat \<times> nat" where
  "step_record ctz0 s cur =
     (case chimp_choose ctz0 s cur (unat (take_bit 14 cur)) of
        (delta, pi, tz) \<Rightarrow> record_fields (ch_storedLeadingZeros s) delta pi tz)"

lemma chimp_step_fields:
  "chimp_step ctz0 w s cur =
     (case step_record ctz0 s cur of (fs, stored, bits) \<Rightarrow>
        map_option (\<lambda>w. (w, chimp_next s cur stored bits)) (put_fields bit_write w fs))"
  by (simp add: chimp_step_def step_record_def record_fields_def chimp_next_def write_long_fields
      Let_def map_conv_bind_option comp_def split: prod.split)

text \<open>The encoder and the decoder as a record codec.\<close>

definition chimp_rec :: "nat \<Rightarrow> chimp_state \<Rightarrow> u64 \<Rightarrow> field list \<times> chimp_state" where
  "chimp_rec ctz0 s x =
     (case step_record ctz0 s x of (fs, stored, bits) \<Rightarrow> (fs, chimp_next s x stored bits))"

fun chimp_dec ::
  "bit_reader \<Rightarrow> nat \<times> u64 list \<times> u64 \<times> nat \<Rightarrow> (u64 \<times> bit_reader \<times> nat \<times> u64 list \<times> u64 \<times> nat) option" where
  "chimp_dec r (lead, stored, prev, i) =
     map_option (\<lambda>(x, r, lead). (x, r, lead, stored[i mod PREVIOUS_VALUES := x], x, i + 1))
       (chimp_decode_step r lead stored prev)"

lemma chimp_encode_loop_fields:
  "map_option fst (chimp_encode_loop ctz0 w s xs) =
     put_fields bit_write w (codec_fields (chimp_rec ctz0) s xs)"
  by (induction xs arbitrary: w s)
     (simp_all add: chimp_step_fields chimp_rec_def put_fields_append map_conv_bind_option comp_def
        split: prod.split)

lemma chimp_decode_loop_dec:
  "chimp_decode_loop n i r lead stored prev = codec_decode chimp_dec n r (lead, stored, prev, i)"
  by (induction n arbitrary: r lead stored prev i)
     (simp_all add: map_conv_bind_option split: Option.bind_split)

section \<open>Decoding inverts encoding, record by record\<close>

text \<open>What \<open>chimp_choose\<close> promises: the difference is against a stored value the decoder has,
  against the previous value unless the trailing zeros exceed the threshold, and the counted
  trailing zeros are those of a non-zero difference above the threshold.\<close>

definition choice_ok :: "u64 list \<Rightarrow> u64 \<Rightarrow> u64 \<Rightarrow> u64 \<Rightarrow> nat \<Rightarrow> nat \<Rightarrow> bool" where
  "choice_ok stored prev cur delta pi tz \<longleftrightarrow>
     pi < 128 \<and> cur = stored ! pi XOR delta \<and>
     (tz \<le> 13 \<longrightarrow> cur = prev XOR delta) \<and>
     (13 < tz \<longrightarrow> delta = 0 \<or> tz = ctz delta)"

lemma chimp_choose_ok:
  assumes "chimp_choose ctz0 s cur key = (delta, pi, tz)"
    and "prev = ch_storedValues s ! (ch_index s mod 128)"
  shows "choice_ok (ch_storedValues s) prev cur delta pi tz"
proof -
  have x: "a XOR (b XOR a) = b" "a XOR (a XOR b) = b" for a b :: u64
    by (simp_all add: xor_back)
  show ?thesis
    using assms by (auto simp: chimp_choose_def choice_ok_def Let_def ctzl_def x xor_zero_eq
        split: if_splits)
qed

lemma read_long_at:
  assumes "br.at r (to_bits n d @ bs)" "0 < n" "n \<le> 64"
  shows "\<exists>r'. read_long r n = Some (take_bit n d, r') \<and> br.at r' bs"
proof -
  have "read_long r n = readLong r n"
    using assms(2) by (simp add: read_long_def readLong_def)
  with readLong_at [OF assms(1,3)] show ?thesis by simp
qed

text \<open>The four kinds of records as bit strings.\<close>

lemma record_bits_zero:
  assumes "pi < 128"
  shows "to_bits 9 (of_nat pi :: u64) = to_bits 2 (0 :: u64) @ to_bits 7 (of_nat pi :: u64)"
    and "unat (take_bit 7 (of_nat pi :: u64)) = pi"
proof -
  have "unat (drop_bit 7 (of_nat pi :: u64)) = 0"
    unfolding unat_drop_bit_eq using assms by (simp add: unat_of_nat64 drop_bit_eq_div)
  then have "drop_bit 7 (of_nat pi :: u64) = 0" by (simp only: word_unat_eq_iff unat_0)
  then show "to_bits 9 (of_nat pi :: u64) = to_bits 2 (0 :: u64) @ to_bits 7 (of_nat pi :: u64)"
    using to_bits_add [of 2 7 "of_nat pi :: u64"] by simp
  show "unat (take_bit 7 (of_nat pi :: u64)) = pi"
    using assms by (simp add: unsigned_take_bit_eq unat_of_nat take_bit_nat_eq_self)
qed

lemma record_bits_one:
  fixes pi rep sb :: nat
  assumes "pi < 128" "rep < 8" "sb < 64"
  defines "v \<equiv> push_bit 9 (of_nat (128 + pi)) OR push_bit 6 (of_nat rep) OR of_nat sb :: u64"
  shows "to_bits 18 v = to_bits 2 (1 :: u64) @ to_bits 16 v"
    and "unat (drop_bit 9 (take_bit 16 v) AND 127) = pi"
    and "unat (drop_bit 6 (take_bit 16 v) AND 7) = rep"
    and "unat (drop_bit 0 (take_bit 16 v) AND 63) = sb"
proof -
  have low: "rep * 64 + sb < 2 ^ 9" using assms by simp
  have "v = push_bit 9 (of_nat (128 + pi)) OR (push_bit 6 (of_nat rep) OR of_nat sb)"
    by (simp add: v_def or.assoc)
  also have "\<dots> = push_bit 9 (of_nat (128 + pi)) OR of_nat (rep * 64 + sb)"
    using pack_or [of sb 6 rep] assms(3) by simp
  also have "\<dots> = of_nat ((128 + pi) * 512 + (rep * 64 + sb))"
    using pack_or [OF low, of "128 + pi"] by simp
  finally have v: "v = of_nat ((128 + pi) * 512 + (rep * 64 + sb))" .
  have uv: "unat v = (128 + pi) * 512 + (rep * 64 + sb)"
    unfolding v using assms by (intro unat_of_nat64) simp
  have and_mask: "(w AND 127) = take_bit 7 w" "(w AND 7) = take_bit 3 w" "(w AND 63) = take_bit 6 w"
    for w :: u64
    by (simp_all add: take_bit_eq_mask mask_numeral)
  have "unat (drop_bit 16 v) = 1"
    unfolding unat_drop_bit_eq unfolding uv drop_bit_eq_div using assms(1-3) by simp
  then have "drop_bit 16 v = 1"
    by (metis unat_1 word_unat_eq_iff)
  then show "to_bits 18 v = to_bits 2 (1 :: u64) @ to_bits 16 v"
    using to_bits_add [of 2 16 v] by simp
  have "pi * 512 + (rep * 64 + sb) < 2 ^ 16" using assms(1-3) by simp
  then have "(2 ^ 16 + (pi * 512 + (rep * 64 + sb))) mod 2 ^ 16 = pi * 512 + (rep * 64 + sb)"
    unfolding mod_add_self1 by (rule mod_less)
  moreover have "(128 + pi) * 512 + (rep * 64 + sb) = 2 ^ 16 + (pi * 512 + (rep * 64 + sb))" by simp
  ultimately have m: "((128 + pi) * 512 + (rep * 64 + sb)) mod 2 ^ 16 = pi * 512 + (rep * 64 + sb)"
    by (simp only:)
  have e: "pi * 512 + (rep * 64 + sb) = (pi * 8 + rep) * 64 + sb" by simp
  have d1: "(pi * 512 + (rep * 64 + sb)) div 2 ^ 9 mod 2 ^ 7 = pi"
    using assms(1-3) pack_div_mod(1) [of "rep * 64 + sb" 512 pi] by simp
  have d2: "(pi * 512 + (rep * 64 + sb)) div 2 ^ 6 mod 2 ^ 3 = rep"
    unfolding e using assms(1-3) pack_div_mod(1) [of sb 64 "pi * 8 + rep"] by simp
  have d3: "(pi * 512 + (rep * 64 + sb)) div 2 ^ 0 mod 2 ^ 6 = sb"
    unfolding e using assms(1-3) pack_div_mod(2) [of sb 64 "pi * 8 + rep"] by simp
  show "unat (drop_bit 9 (take_bit 16 v) AND 127) = pi"
    "unat (drop_bit 6 (take_bit 16 v) AND 7) = rep"
    "unat (drop_bit 0 (take_bit 16 v) AND 63) = sb"
    unfolding and_mask unsigned_take_bit_eq unat_drop_bit_eq
    unfolding uv drop_bit_eq_div take_bit_eq_mod m by (fact d1 d2 d3)+
qed

lemma record_bits_three:
  assumes "rep < 8"
  shows "to_bits 5 (push_bit 3 3 OR of_nat rep :: u64) = to_bits 2 (3 :: u64) @ to_bits 3 (of_nat rep :: u64)"
    and "unat (take_bit 3 (of_nat rep :: u64)) = rep"
proof -
  have "\<forall>rep \<in> set [0..<8]. to_bits 5 (push_bit 3 3 OR of_nat rep :: u64) =
      to_bits 2 (3 :: u64) @ to_bits 3 (of_nat rep :: u64)"
    by code_simp
  with assms show "to_bits 5 (push_bit 3 3 OR of_nat rep :: u64) =
      to_bits 2 (3 :: u64) @ to_bits 3 (of_nat rep :: u64)" by simp
  show "unat (take_bit 3 (of_nat rep :: u64)) = rep"
    using assms by (simp add: unsigned_take_bit_eq unat_of_nat take_bit_nat_eq_self)
qed

definition leads_agree :: "nat \<Rightarrow> nat \<Rightarrow> bool" where
  "leads_agree sl lead \<longleftrightarrow> 24 < sl \<or> lead = sl"

lemma record_fields_cases:
  assumes "record_fields sl delta pi tz = (fs, sl', n)"
  obtains (zero) "delta = 0" "fs = [(of_nat pi, 9)]" "sl' = 65"
  | (one) "delta \<noteq> 0" "13 < tz" "sl' = 65"
      "fs = (push_bit 9 (of_nat (128 + pi)) OR push_bit 6 (of_nat (leadingRep_enc ! (leadingRnd ! clz delta)))
              OR of_nat (64 - leadingRnd ! clz delta - tz), 18) #
              long_fields (signed_drop_bit tz delta) (64 - leadingRnd ! clz delta - tz)"
  | (two) "delta \<noteq> 0" "tz \<le> 13" "sl' = sl" "sl = leadingRnd ! clz delta"
      "fs = (2, 2) # long_fields delta (64 - sl)"
  | (three) "delta \<noteq> 0" "tz \<le> 13" "sl' = leadingRnd ! clz delta"
      "fs = (push_bit 3 3 OR of_nat (leadingRep_enc ! sl'), 5) # long_fields delta (64 - sl')"
proof (cases "delta = 0")
  case True
  with assms that(1) show thesis by (simp add: record_fields_def Let_def)
next
  case nz: False
  consider "13 < tz" | "tz \<le> 13" "sl = leadingRnd ! clz delta" | "tz \<le> 13" "sl \<noteq> leadingRnd ! clz delta"
    by linarith
  then show thesis
  proof cases
    case 1
    with nz assms that(2) show thesis by (simp add: record_fields_def Let_def)
  next
    case 2
    with nz assms that(3) show thesis by (auto simp: record_fields_def Let_def)
  next
    case 3
    then have "leadingRnd ! clz delta \<noteq> sl" by simp
    with 3(1) nz assms that(4) show thesis by (auto simp: record_fields_def Let_def)
  qed
qed

lemma delta_lead:
  assumes "delta \<noteq> 0"
  shows "leadingRnd ! clz delta \<le> 24" "leadingRep_enc ! (leadingRnd ! clz delta) < 8"
    "leadingRep_dec ! (leadingRep_enc ! (leadingRnd ! clz delta)) = leadingRnd ! clz delta"
    "in_window (leadingRnd ! clz delta) 0 delta" "window_ok (leadingRnd ! clz delta) (ctz delta)"
    "in_window (leadingRnd ! clz delta) (ctz delta) delta"
  using bit_clz(1) [OF assms] leading_tables [of "clz delta"] clz_ctz_bound [OF assms]
  by (auto simp: in_window_def window_ok_def)

lemma take_bit_lead:
  "in_window lead 0 delta \<Longrightarrow> lead \<le> 24 \<Longrightarrow> take_bit (64 - lead) delta = delta"
  using window_restores [of lead 0 delta] by (simp add: window_ok_def)

lemma record_fields_ok:
  assumes "record_fields sl delta pi tz = (fs, sl', n)" "choice_ok stored prev cur delta pi tz"
  shows "(\<forall>f \<in> set fs. field_ok f) \<and> length (fields_bits fs) \<le> 77 \<and> fs \<noteq> []"
  using assms(1)
proof (cases rule: record_fields_cases)
  case zero
  then show ?thesis by simp
next
  case one
  let ?sb = "64 - leadingRnd ! clz delta - tz"
  have "tz = ctz delta" using assms(2) one by (simp add: choice_ok_def)
  then have "0 < ?sb" "?sb \<le> 64" "?sb + 18 \<le> 77"
    using delta_lead(5) [OF one(1)] one(2) by (auto simp: window_ok_def)
  then show ?thesis
    using long_fields_bits [of ?sb "signed_drop_bit tz delta"] one(4) by simp
next
  case two
  then show ?thesis
    using delta_lead(1) [OF two(1)] long_fields_bits [of "64 - sl" delta] by simp
next
  case three
  then show ?thesis
    using delta_lead(1) [OF three(1)] long_fields_bits [of "64 - sl'" delta] by simp
qed

lemma decode_zero:
  assumes "br.at r (fields_bits [(of_nat pi, 9)] @ bs)" "pi < 128"
  shows "\<exists>r'. chimp_decode_step r lead stored prev = Some (stored ! pi, r', lead) \<and> br.at r' bs"
proof -
  have at: "br.at r (to_bits 2 (0 :: u64) @ to_bits 7 (of_nat pi :: u64) @ bs)"
    using assms by (simp add: record_bits_zero)
  obtain r1 where r1: "forward r 2 = Some r1" "br.at r1 (to_bits 7 (of_nat pi :: u64) @ bs)"
    using br.skip_field [OF at] by auto
  obtain r2 where "read_long r1 7 = Some (take_bit 7 (of_nat pi), r2)" "br.at r2 bs"
    using read_long_at [OF r1(2)] by auto
  then show ?thesis
    using r1(1) br.look_field [OF at] record_bits_zero(2) [OF assms(2)]
    by (simp add: chimp_decode_step_def)
qed

lemma decode_one:
  fixes rep sb :: nat
  assumes "br.at r (fields_bits ((push_bit 9 (of_nat (128 + pi)) OR push_bit 6 (of_nat rep) OR of_nat sb, 18)
             # long_fields d sb) @ bs)"
    and "pi < 128" "rep < 8" "sb < 64" "0 < sb" "sb + leadingRep_dec ! rep \<le> 64"
  shows "\<exists>r'. chimp_decode_step r lead stored prev =
      Some (stored ! pi XOR push_bit (64 - sb - leadingRep_dec ! rep) (take_bit sb d), r', leadingRep_dec ! rep)
    \<and> br.at r' bs"
proof -
  define v :: u64 where "v = push_bit 9 (of_nat (128 + pi)) OR push_bit 6 (of_nat rep) OR of_nat sb"
  note v = record_bits_one [OF assms(2-4), folded v_def]
  have at: "br.at r (to_bits 2 (1 :: u64) @ to_bits 16 v @ to_bits sb d @ bs)"
    using assms(1,4,5) unfolding v_def [symmetric] by (simp add: v(1) long_fields_bits(1))
  obtain r1 where r1: "forward r 2 = Some r1" "br.at r1 (to_bits 16 v @ to_bits sb d @ bs)"
    using br.skip_field [OF at] by auto
  obtain r2 where r2: "forward r1 16 = Some r2" "br.at r2 (to_bits sb d @ bs)"
    using br.skip_field [OF r1(2)] by auto
  obtain r3 where r3: "read_long r2 sb = Some (take_bit sb d, r3)" "br.at r3 bs"
    using read_long_at [OF r2(2)] assms(4,5) by auto
  have "peek r 2 = Some 1" "peek r1 16 = Some (take_bit 16 v)"
    using br.look_field [OF at] br.look_field [OF r1(2)] by simp_all
  moreover have "push_bit 7 1 - 1 = (127 :: u64)" by simp
  ultimately show ?thesis
    using r1(1) r2(1) r3 v(2-4) assms(5,6) unfolding chimp_decode_step_def
    by (simp add: Let_def)
qed

lemma decode_two:
  assumes "br.at r (fields_bits ((2, 2) # long_fields d (64 - lead)) @ bs)" "lead \<le> 24"
  shows "\<exists>r'. chimp_decode_step r lead stored prev =
      Some (prev XOR take_bit (64 - lead) d, r', lead) \<and> br.at r' bs"
proof -
  have at: "br.at r (to_bits 2 (2 :: u64) @ to_bits (64 - lead) d @ bs)"
    using assms by (simp add: long_fields_bits(1))
  obtain r1 where r1: "forward r 2 = Some r1" "br.at r1 (to_bits (64 - lead) d @ bs)"
    using br.skip_field [OF at] by auto
  obtain r2 where "read_long r1 (64 - lead) = Some (take_bit (64 - lead) d, r2)" "br.at r2 bs"
    using read_long_at [OF r1(2)] assms(2) by auto
  then show ?thesis
    using r1(1) br.look_field [OF at] assms(2) by (simp add: chimp_decode_step_def)
qed

lemma decode_three:
  fixes rep :: nat
  assumes "br.at r (fields_bits ((push_bit 3 3 OR of_nat rep, 5) # long_fields d (64 - leadingRep_dec ! rep)) @ bs)"
    and "leadingRep_dec ! rep \<le> 24" "rep < 8"
  shows "\<exists>r'. chimp_decode_step r lead stored prev =
      Some (prev XOR take_bit (64 - leadingRep_dec ! rep) d, r', leadingRep_dec ! rep) \<and> br.at r' bs"
proof -
  let ?n = "64 - leadingRep_dec ! rep"
  have at: "br.at r (to_bits 2 (3 :: u64) @ to_bits 3 (of_nat rep :: u64) @ to_bits ?n d @ bs)"
    using assms by (simp add: long_fields_bits(1) record_bits_three(1) del: push_bit_numeral)
  obtain r1 where r1: "forward r 2 = Some r1" "br.at r1 (to_bits 3 (of_nat rep :: u64) @ to_bits ?n d @ bs)"
    using br.skip_field [OF at] by auto
  obtain r2 where r2: "forward r1 3 = Some r2" "br.at r2 (to_bits ?n d @ bs)"
    using br.skip_field [OF r1(2)] by auto
  obtain r3 where "read_long r2 ?n = Some (take_bit ?n d, r3)" "br.at r3 bs"
    using read_long_at [OF r2(2)] assms(2) by auto
  then show ?thesis
    using r1(1) r2(1) br.look_field [OF at] br.look_field [OF r1(2)] record_bits_three(2) [OF assms(3)]
    by (simp add: chimp_decode_step_def Let_def)
qed

lemma chimp_decode_step_at:
  assumes "br.at r (fields_bits fs @ bs)" "record_fields sl delta pi tz = (fs, sl', n)"
    and ok: "choice_ok stored prev cur delta pi tz" and "leads_agree sl lead"
  shows "\<exists>r' lead'. chimp_decode_step r lead stored prev = Some (cur, r', lead') \<and>
           br.at r' bs \<and> leads_agree sl' lead'"
  using assms(2)
proof (cases rule: record_fields_cases)
  case zero
  then show ?thesis
    using decode_zero [of r pi bs] assms(1) ok by (fastforce simp: choice_ok_def leads_agree_def)
next
  case one
  let ?lz = "leadingRnd ! clz delta" and ?sb = "64 - leadingRnd ! clz delta - tz"
  note dl = delta_lead [OF one(1)]
  have tz: "tz = ctz delta" and pi: "pi < 128" "cur = stored ! pi XOR delta"
    using ok one by (simp_all add: choice_ok_def)
  have sb: "?sb < 64" "0 < ?sb" "?sb + ?lz \<le> 64" "64 - ?sb - ?lz = tz" "?sb + tz \<le> 64"
    using dl(5) one(2) by (auto simp: tz window_ok_def)
  have "take_bit ?sb (signed_drop_bit tz delta) = take_bit ?sb (drop_bit tz delta)"
    using to_bits_signed_drop [OF sb(5), of delta] by (metis of_bits_to_bits)
  then have "push_bit tz (take_bit ?sb (signed_drop_bit tz delta)) = delta"
    using window_restores [OF dl(5,6)] by (simp add: tz)
  then show ?thesis
    using decode_one [of r pi "leadingRep_enc ! ?lz" ?sb "signed_drop_bit tz delta" bs lead stored prev]
      assms(1) one(3,4) pi dl(2,3) sb by (auto simp: leads_agree_def)
next
  case two
  note dl = delta_lead [OF two(1)]
  have "lead = sl" "cur = prev XOR delta"
    using assms(4) dl(1) two ok by (auto simp: leads_agree_def choice_ok_def)
  moreover have "take_bit (64 - sl) delta = delta"
    using take_bit_lead dl(1,4) two(4) by simp
  ultimately show ?thesis
    using decode_two [of r delta sl bs] assms(1) two dl(1) by (fastforce simp: leads_agree_def)
next
  case three
  note dl = delta_lead [OF three(1)]
  have "take_bit (64 - sl') delta = delta"
    using take_bit_lead dl(1,4) three by simp
  moreover have "cur = prev XOR delta"
    using three(2) ok unfolding choice_ok_def by blast
  ultimately show ?thesis
    using decode_three [of r "leadingRep_enc ! sl'" delta bs] assms(1) three dl(1-3)
    by (fastforce simp: leads_agree_def)
qed

section \<open>Whole series\<close>

text \<open>The decoder's table, previous value and counter follow the encoder's state.\<close>

definition chimp_sim :: "chimp_state \<Rightarrow> nat \<Rightarrow> u64 list \<Rightarrow> u64 \<Rightarrow> nat \<Rightarrow> bool" where
  "chimp_sim s lead stored prev i \<longleftrightarrow>
     ch_storedValues s = stored \<and> length stored = 128 \<and> ch_current s = ch_index s mod 128 \<and>
     i = ch_index s + 1 \<and> prev = stored ! (ch_index s mod 128) \<and>
     leads_agree (ch_storedLeadingZeros s) lead"

lemma chimp_sim_next:
  assumes "chimp_sim s lead stored prev i" "leads_agree sl' lead'"
  shows "chimp_sim (chimp_next s x sl' n) lead' (stored[i mod 128 := x]) x (i + 1)"
  using assms by (simp add: chimp_sim_def chimp_next_def Let_def mod_Suc_eq)

lemma step_record_choice:
  assumes "chimp_sim s lead stored prev i" "step_record ctz0 s x = (fs, sl', n)"
  obtains delta pi tz where "choice_ok stored prev x delta pi tz"
    "record_fields (ch_storedLeadingZeros s) delta pi tz = (fs, sl', n)"
proof -
  obtain delta pi tz where ch: "chimp_choose ctz0 s x (unat (take_bit 14 x)) = (delta, pi, tz)"
    by (metis prod_cases3)
  have "choice_ok stored prev x delta pi tz"
    using chimp_choose_ok [OF ch, of prev] assms(1) by (simp add: chimp_sim_def)
  moreover have "record_fields (ch_storedLeadingZeros s) delta pi tz = (fs, sl', n)"
    using assms(2) ch by (simp add: step_record_def)
  ultimately show thesis by (rule that)
qed

lemma leads_agree_total: "\<exists>lead'. leads_agree sl lead'"
  by (auto simp: leads_agree_def)

fun chimp_sim_t :: "chimp_state \<Rightarrow> nat \<times> u64 list \<times> u64 \<times> nat \<Rightarrow> bool" where
  "chimp_sim_t s (lead, stored, prev, i) \<longleftrightarrow> chimp_sim s lead stored prev i"

interpretation chi: record_codec "chimp_rec ctz0" chimp_dec chimp_sim_t "\<lambda>_. True" 77 for ctz0
proof
  fix s t x fs s'
  assume sim: "chimp_sim_t s t" and step: "chimp_rec ctz0 s x = (fs, s')"
  obtain lead stored prev i where t: "t = (lead, stored, prev, i)" "chimp_sim s lead stored prev i"
    using sim by (cases t) auto
  obtain sl' n where s': "step_record ctz0 s x = (fs, sl', n)" "s' = chimp_next s x sl' n"
    using step by (auto simp: chimp_rec_def split: prod.splits)
  obtain delta pi tz where ch: "choice_ok stored prev x delta pi tz"
    "record_fields (ch_storedLeadingZeros s) delta pi tz = (fs, sl', n)"
    using step_record_choice [OF t(2) s'(1)] .
  obtain l where "leads_agree sl' l" using leads_agree_total by blast
  from chimp_sim_next [OF t(2) this, of x n]
  have "chimp_sim_t s' (l, stored[i mod 128 := x], x, i + 1)" by (simp add: s'(2))
  then show "(\<forall>f \<in> set fs. field_ok f) \<and> length (fields_bits fs) \<le> 77 \<and> fs \<noteq> [] \<and>
      (\<exists>t'. chimp_sim_t s' t')"
    using record_fields_ok [OF ch(2,1)] by blast
  fix r bs
  assume at: "br.at r (fields_bits fs @ bs)"
  have "leads_agree (ch_storedLeadingZeros s) lead"
    using t(2) by (simp add: chimp_sim_def)
  from chimp_decode_step_at [OF at ch(2,1) this] obtain r' lead' where
    "chimp_decode_step r lead stored prev = Some (x, r', lead')" "br.at r' bs" "leads_agree sl' lead'"
    by blast
  then show "\<exists>r' t'. chimp_dec r t = Some (x, r', t') \<and> br.at r' bs \<and> chimp_sim_t s' t'"
    using chimp_sim_next [OF t(2), of sl' lead' x n] by (simp add: t(1) s'(2))
qed

lemma chimp_init_sim:
  "chimp_sim_t (chimp_init x) (2 ^ 31 - 1, (replicate 128 0)[0 := x], x, 1)"
  by (simp add: chimp_sim_def chimp_init_def leads_agree_def)



end
