(* ===== verification/Ieee_Double.thy ===== *)
theory Ieee_Double
  imports Complex_Main Prelude "HOL-Library.Log_Nat"
begin

text \<open>
  The arithmetic of the type \<open>double\<close> that the lossy compressors use: IEEE 754 binary64, rounding
  to nearest with ties to even, on 64-bit patterns.  Everything is executable: a finite double is
  an integral number of units of \<open>2 ^ -1074\<close>, an operation computes the exact result as a quotient
  of such numbers and rounds once.  All NaN results are the default quiet NaN.

  The magnitude pattern (the lower 63 bits) of \<open>m\<close> units scaled by \<open>2 ^ e\<close> with \<open>m \<le> 2 ^ 53\<close> is
  \<open>e * 2 ^ 52 + m\<close>, for subnormal numbers too and also when rounding reaches \<open>2 ^ 53\<close>.
\<close>

section \<open>Patterns and rounding\<close>

definition inf_mag :: nat where
  "inf_mag = 2047 * 2 ^ 52"

text \<open>\<open>1.0\<close> in units.\<close>

definition one_units :: nat where
  "one_units = 2 ^ 1074"

definition mag :: "double \<Rightarrow> nat" where
  "mag x = unat x mod 2 ^ 63"

definition neg :: "double \<Rightarrow> bool" where
  "neg x \<longleftrightarrow> 2 ^ 63 \<le> unat x"

definition pack :: "bool \<Rightarrow> nat \<Rightarrow> double" where
  "pack s n = of_nat (n + (if s then 2 ^ 63 else 0))"

definition units :: "nat \<Rightarrow> nat" where
  "units n = (let E = n div 2 ^ 52; f = n mod 2 ^ 52
              in if E = 0 then f else (2 ^ 52 + f) * 2 ^ (E - 1))"

definition half_even :: "nat \<Rightarrow> nat \<Rightarrow> nat" where
  "half_even p d =
     (let k = p div d; r = p mod d
      in if 2 * r < d \<or> 2 * r = d \<and> even k then k else k + 1)"

definition scale_of :: "nat \<Rightarrow> nat \<Rightarrow> nat" where
  "scale_of p q = floorlog 2 (p div q) - 53"

definition round_units :: "nat \<Rightarrow> nat \<Rightarrow> nat" where
  "round_units p q =
     (let e = scale_of p q in min inf_mag (e * 2 ^ 52 + half_even p (q * 2 ^ e)))"

definition f64_finite :: "double \<Rightarrow> bool" where
  "f64_finite x \<longleftrightarrow> mag x < inf_mag"

definition f64_nan :: "double \<Rightarrow> bool" where
  "f64_nan x \<longleftrightarrow> inf_mag < mag x"

definition f64_is_inf :: "double \<Rightarrow> bool" where
  "f64_is_inf x \<longleftrightarrow> mag x = inf_mag"

definition qnan :: double where
  "qnan = 0x7FF8000000000000"

section \<open>Operations\<close>

text \<open>The signed number of units of a finite double.\<close>

definition sunits :: "double \<Rightarrow> int" where
  "sunits x = (if neg x then - int (units (mag x)) else int (units (mag x)))"

definition f64_neg :: "double \<Rightarrow> double" where
  "f64_neg x = x XOR 0x8000000000000000"

definition f64_abs :: "double \<Rightarrow> double" where
  "f64_abs x = x AND 0x7FFFFFFFFFFFFFFF"

definition f64_add :: "double \<Rightarrow> double \<Rightarrow> double" where
  "f64_add x y =
     (if f64_nan x \<or> f64_nan y then qnan
      else if f64_is_inf x then (if f64_is_inf y \<and> neg x \<noteq> neg y then qnan else x)
      else if f64_is_inf y then y
      else
        let s = sunits x + sunits y
        in if s = 0 then pack (neg x \<and> neg y) 0
           else pack (s < 0) (round_units (nat \<bar>s\<bar>) 1))"

definition f64_sub :: "double \<Rightarrow> double \<Rightarrow> double" where
  "f64_sub x y = f64_add x (f64_neg y)"

definition f64_mul :: "double \<Rightarrow> double \<Rightarrow> double" where
  "f64_mul x y =
     (let s = (neg x \<noteq> neg y)
      in if f64_nan x \<or> f64_nan y then qnan
         else if f64_is_inf x then (if mag y = 0 then qnan else pack s inf_mag)
         else if f64_is_inf y then (if mag x = 0 then qnan else pack s inf_mag)
         else pack s (round_units (units (mag x) * units (mag y)) one_units))"

definition f64_div :: "double \<Rightarrow> double \<Rightarrow> double" where
  "f64_div x y =
     (let s = (neg x \<noteq> neg y)
      in if f64_nan x \<or> f64_nan y then qnan
         else if f64_is_inf x then (if f64_is_inf y then qnan else pack s inf_mag)
         else if f64_is_inf y then pack s 0
         else if mag y = 0 then (if mag x = 0 then qnan else pack s inf_mag)
         else pack s (round_units (units (mag x) * one_units) (units (mag y))))"

text \<open>Comparisons are false when a NaN is involved; an infinite operand counts as \<open>2 ^ 2098\<close>
  units, which its pattern denotes under \<^const>\<open>units\<close>.\<close>

definition f64_lt :: "double \<Rightarrow> double \<Rightarrow> bool" where
  "f64_lt x y \<longleftrightarrow> \<not> f64_nan x \<and> \<not> f64_nan y \<and> sunits x < sunits y"

definition f64_le :: "double \<Rightarrow> double \<Rightarrow> bool" where
  "f64_le x y \<longleftrightarrow> \<not> f64_nan x \<and> \<not> f64_nan y \<and> sunits x \<le> sunits y"

definition f64_eq :: "double \<Rightarrow> double \<Rightarrow> bool" where
  "f64_eq x y \<longleftrightarrow> \<not> f64_nan x \<and> \<not> f64_nan y \<and> sunits x = sunits y"

text \<open>Conversions.  From an integer; to an integer by truncation, undefined when the truncated
  value is outside the range of the target type.\<close>

definition f64_of_int :: "int \<Rightarrow> double" where
  "f64_of_int i = pack (i < 0) (round_units (nat \<bar>i\<bar> * one_units) 1)"

definition f64_trunc :: "double \<Rightarrow> int" where
  "f64_trunc x =
     (let k = int (units (mag x) div one_units) in if neg x then - k else k)"

definition f64_to_int :: "nat \<Rightarrow> double \<Rightarrow> int option" where
  "f64_to_int w x =
     (if f64_finite x \<and> - (2 ^ (w - 1)) \<le> f64_trunc x \<and> f64_trunc x < 2 ^ (w - 1)
      then Some (f64_trunc x) else None)"

text \<open>Rounding to an integer, which keeps the sign of a zero.\<close>

definition f64_ceil :: "double \<Rightarrow> double" where
  "f64_ceil x =
     (if f64_finite x
      then pack (neg x) (round_units (nat \<bar>- (- sunits x div int one_units)\<bar> * one_units) 1)
      else x)"

definition f64_floor :: "double \<Rightarrow> double" where
  "f64_floor x =
     (if f64_finite x
      then pack (neg x) (round_units (nat \<bar>sunits x div int one_units\<bar> * one_units) 1)
      else x)"

text \<open>The functions of the mathematical library, which are not part of the sources.\<close>

record libm =
  m_log10 :: "double \<Rightarrow> double"
  m_pow :: "double \<Rightarrow> double \<Rightarrow> double"
  m_sqrt :: "double \<Rightarrow> double"

section \<open>Rounding is to nearest\<close>

lemma units_scaled:
  assumes "m \<le> 2 ^ 53" "e = 0 \<or> 2 ^ 52 \<le> m"
  shows "units (e * 2 ^ 52 + m) = m * 2 ^ e"
proof -
  consider "m < 2 ^ 52" | "2 ^ 52 \<le> m" "m < 2 ^ 53" | "m = 2 ^ 53" using assms(1) by linarith
  then show ?thesis
  proof cases
    case 1
    then show ?thesis using assms(2) by (simp add: units_def)
  next
    case 2
    then have "e * 2 ^ 52 + m = Suc e * 2 ^ 52 + (m - 2 ^ 52)" "m - 2 ^ 52 < 2 ^ 52" by simp_all
    then have "(e * 2 ^ 52 + m) div 2 ^ 52 = Suc e" "(e * 2 ^ 52 + m) mod 2 ^ 52 = m - 2 ^ 52"
      by (simp_all only: div_mult_self3 mod_mult_self3 div_less mod_less)
    then show ?thesis using 2 by (simp add: units_def)
  next
    case 3
    then have "e * 2 ^ 52 + m = (e + 2) * 2 ^ 52" by simp
    then have "(e * 2 ^ 52 + m) div 2 ^ 52 = e + 2" "(e * 2 ^ 52 + m) mod 2 ^ 52 = 0"
      by simp_all
    then show ?thesis using 3 by (simp add: units_def power_add)
  qed
qed

lemma half_even_near:
  assumes "0 < d"
  shows "\<bar>real (half_even p d) - real p / real d\<bar> \<le> 1 / 2"
proof -
  let ?k = "p div d" and ?r = "p mod d"
  have "p = d * ?k + ?r" by simp
  then have "real p = real d * real ?k + real ?r" by (metis of_nat_add of_nat_mult)
  then have eq: "real p / real d = real ?k + real ?r / real d" using assms by (simp add: field_simps)
  have r: "?r < d" using assms by simp
  show ?thesis
  proof (cases "2 * ?r < d \<or> 2 * ?r = d \<and> even ?k")
    case True
    then have "2 * real ?r \<le> real d" by linarith
    then have "real ?r / real d \<le> 1 / 2" using assms by (simp add: field_simps)
    then show ?thesis using True by (simp add: half_even_def Let_def eq)
  next
    case False
    then have "real d \<le> 2 * real ?r" by linarith
    then have "1 / 2 \<le> real ?r / real d" using assms by (simp add: field_simps)
    moreover have "real ?r / real d < 1" using r assms by simp
    ultimately show ?thesis using False assms by (simp add: half_even_def Let_def eq)
  qed
qed

lemma half_even_dvd: "d dvd p \<Longrightarrow> half_even p d = p div d"
  by (auto simp: half_even_def Let_def)

lemma half_even_le: "p < k * d \<Longrightarrow> half_even p d \<le> k"
  using less_mult_imp_div_less [of p k d] by (auto simp: half_even_def Let_def)

lemma half_even_ge: "0 < d \<Longrightarrow> k * d \<le> p \<Longrightarrow> k \<le> half_even p d"
  using div_le_mono [of "k * d" p d] by (auto simp: half_even_def Let_def)

definition raw_round :: "nat \<Rightarrow> nat \<Rightarrow> nat" where
  "raw_round p q = scale_of p q * 2 ^ 52 + half_even p (q * 2 ^ scale_of p q)"

lemma round_units_raw: "round_units p q = min inf_mag (raw_round p q)"
  by (simp add: round_units_def raw_round_def Let_def)

lemma scale_bounds:
  assumes "0 < q"
  shows "p < q * 2 ^ (scale_of p q + 53)" "0 < scale_of p q \<Longrightarrow> q * 2 ^ (scale_of p q + 52) \<le> p"
proof -
  let ?k = "p div q" and ?f = "floorlog 2 (p div q)"
  have "?k < 2 ^ ?f" using floorlog_bounds [of ?k 2] by (cases "?k = 0") auto
  also have "\<dots> \<le> 2 ^ (scale_of p q + 53)" by (simp add: scale_of_def)
  finally show "p < q * 2 ^ (scale_of p q + 53)" using assms by (simp add: div_less_iff_less_mult mult.commute)
  assume pos: "0 < scale_of p q"
  then have "?k \<noteq> 0" by (metis floorlog_def less_irrefl scale_of_def zero_diff)
  then have "2 ^ (?f - 1) \<le> ?k" using floorlog_bounds [of ?k 2] by auto
  moreover have "?f - 1 = scale_of p q + 52" using pos by (simp add: scale_of_def)
  ultimately show "q * 2 ^ (scale_of p q + 52) \<le> p"
    using assms by (simp add: less_eq_div_iff_mult_less_eq mult.commute)
qed

lemma units_raw_round:
  assumes "0 < q"
  shows "units (raw_round p q) = half_even p (q * 2 ^ scale_of p q) * 2 ^ scale_of p q"
proof -
  let ?e = "scale_of p q"
  note b = scale_bounds [OF assms, of p]
  have "half_even p (q * 2 ^ ?e) \<le> 2 ^ 53"
    using b(1) by (intro half_even_le) (simp add: power_add ac_simps)
  moreover have "?e = 0 \<or> 2 ^ 52 \<le> half_even p (q * 2 ^ ?e)"
    using b(2) assms by (cases "?e = 0") (auto intro!: half_even_ge simp: power_add ac_simps)
  ultimately show ?thesis unfolding raw_round_def by (rule units_scaled)
qed

lemma raw_round_near:
  assumes "0 < q"
  shows "\<bar>real (units (raw_round p q)) - real p / real q\<bar> \<le> real p / real q / 2 ^ 53 + 1 / 2"
proof -
  let ?e = "scale_of p q"
  let ?m = "half_even p (q * 2 ^ ?e)"
  have "real (units (raw_round p q)) - real p / real q = (real ?m - real p / real (q * 2 ^ ?e)) * 2 ^ ?e"
    using assms by (simp add: units_raw_round field_simps)
  then have "\<bar>real (units (raw_round p q)) - real p / real q\<bar> = \<bar>real ?m - real p / real (q * 2 ^ ?e)\<bar> * 2 ^ ?e"
    by (simp add: abs_mult)
  also have "\<dots> \<le> 1 / 2 * 2 ^ ?e"
    using assms by (intro mult_right_mono half_even_near) simp_all
  also have "\<dots> \<le> real p / real q / 2 ^ 53 + 1 / 2"
  proof (cases "?e = 0")
    case False
    then have "real (q * 2 ^ (?e + 52)) \<le> real p" using scale_bounds(2) [OF assms] by (simp only: of_nat_le_iff)
    then have "2 ^ (?e + 52) \<le> real p / real q" using assms by (simp add: field_simps)
    then have "2 ^ (?e + 52) / 2 ^ 53 \<le> real p / real q / 2 ^ 53" by (rule divide_right_mono) simp
    then show ?thesis by (simp add: power_add)
  qed simp
  finally show ?thesis .
qed

text \<open>Results below \<open>2 ^ 2097\<close> units, that is \<open>2 ^ 1023\<close>, do not overflow.\<close>

lemma raw_round_finite:
  assumes "0 < q" "p < q * 2 ^ 2097"
  shows "raw_round p q < inf_mag"
proof -
  let ?e = "scale_of p q"
  have "?e \<le> 2044"
  proof (rule ccontr)
    assume "\<not> ?e \<le> 2044"
    then have "2097 \<le> ?e + 52" "0 < ?e" by simp_all
    then have "q * 2 ^ 2097 \<le> q * 2 ^ (?e + 52)" by (intro mult_le_mono2 power_increasing) simp_all
    then show False using scale_bounds(2) [OF assms(1) \<open>0 < ?e\<close>] assms(2) by linarith
  qed
  moreover have "half_even p (q * 2 ^ ?e) \<le> 2 ^ 53"
    using scale_bounds(1) [OF assms(1), of p] by (intro half_even_le) (simp add: power_add ac_simps)
  ultimately have "raw_round p q \<le> 2044 * 2 ^ 52 + 2 ^ 53"
    unfolding raw_round_def by (intro add_mono mult_le_mono1)
  then show ?thesis by (simp add: inf_mag_def)
qed

text \<open>A multiple of the spacing is not changed.\<close>

lemma raw_round_exact: "2 ^ scale_of p 1 dvd p \<Longrightarrow> units (raw_round p 1) = p"
  using units_raw_round [of 1 p] by (simp add: half_even_dvd)

section \<open>Values\<close>

lemma unat_pack: "n < 2 ^ 63 \<Longrightarrow> unat (pack s n) = n + (if s then 2 ^ 63 else 0)"
  unfolding pack_def by (subst unat_of_nat) (simp add: take_bit_nat_eq_self)

lemma mag_pack [simp]: "n < 2 ^ 63 \<Longrightarrow> mag (pack s n) = n"
  by (simp add: mag_def unat_pack)

lemma neg_pack [simp]: "n < 2 ^ 63 \<Longrightarrow> neg (pack s n) = s"
  by (simp add: neg_def unat_pack)

lemma mag_less: "mag x < 2 ^ 63"
  by (simp add: mag_def)

lemma pack_mag: "pack (neg x) (mag x) = x"
proof -
  have "unat x < 2 ^ 64" using unsigned_less [of x] by simp
  then have "mag x + (if neg x then 2 ^ 63 else 0) = unat x"
    by (auto simp: mag_def neg_def mod_if)
  then show ?thesis by (simp only: pack_def) simp
qed

lemma round_units_less: "round_units p q < 2 ^ 63"
  by (rule le_less_trans [of _ inf_mag]) (simp_all add: round_units_raw inf_mag_def)

definition val :: "double \<Rightarrow> real" where
  "val x = real_of_int (sunits x) / real one_units"

lemma one_units_pos [simp]: "0 < one_units" "one_units \<noteq> 0"
  by (simp_all add: one_units_def)

lemma abs_val: "\<bar>val x\<bar> = real (units (mag x)) / real one_units"
  by (simp add: val_def sunits_def)

text \<open>The bound below which no operation overflows.\<close>

definition f64_big :: real where
  "f64_big = 2 ^ 1022"

text \<open>The rounded quotient \<open>p / q\<close> (in units), with a sign.\<close>

lemma pack_round:
  fixes s :: bool
  assumes "0 < q" "real p / real q / real one_units \<le> f64_big"
  defines "r \<equiv> (if s then - 1 else 1) * (real p / real q / real one_units)"
  shows "f64_finite (pack s (round_units p q))"
    "\<bar>val (pack s (round_units p q)) - r\<bar> \<le> \<bar>r\<bar> / 2 ^ 53 + 1 / 2 / real one_units"
    "neg (pack s (round_units p q)) = s"
proof -
  let ?n = "raw_round p q" and ?U = "real one_units"
  have U: "?U = 2 ^ 1074" by (simp only: one_units_def of_nat_power of_nat_numeral)
  have "real p \<le> real q * (f64_big * ?U)" using assms(1,2) by (simp add: field_simps)
  also have "f64_big * ?U = (2 :: real) ^ 2096" by (simp only: U f64_big_def flip: power_add) simp
  also have "real q * 2 ^ 2096 < real q * 2 ^ 2097"
    using assms(1) by (intro mult_strict_left_mono power_strict_increasing) simp_all
  finally have "real p < real (q * 2 ^ 2097)" by (simp only: of_nat_mult of_nat_power of_nat_numeral)
  then have "p < q * 2 ^ 2097" by (simp only: of_nat_less_iff)
  then have fin: "?n < inf_mag" by (rule raw_round_finite [OF assms(1)])
  then have ru: "round_units p q = ?n" by (simp add: round_units_raw)
  note lt = round_units_less [of p q, unfolded ru]
  show "f64_finite (pack s (round_units p q))" using lt fin by (simp add: f64_finite_def ru)
  show "neg (pack s (round_units p q)) = s" using lt by (simp add: ru)
  have "val (pack s ?n) = (if s then - 1 else 1) * (real (units ?n) / ?U)"
    using lt by (simp add: val_def sunits_def)
  then have "val (pack s ?n) - r = (if s then - 1 else 1) * ((real (units ?n) - real p / real q) / ?U)"
    by (simp add: r_def diff_divide_distrib)
  then have "\<bar>val (pack s ?n) - r\<bar> = \<bar>real (units ?n) - real p / real q\<bar> / ?U"
    by (simp add: abs_mult)
  also have "\<dots> \<le> (real p / real q / 2 ^ 53 + 1 / 2) / ?U"
    by (intro divide_right_mono raw_round_near assms(1)) simp
  also have "\<dots> = \<bar>r\<bar> / 2 ^ 53 + 1 / 2 / ?U"
    by (simp add: r_def add_divide_distrib abs_mult)
  finally show "\<bar>val (pack s (round_units p q)) - r\<bar> \<le> \<bar>r\<bar> / 2 ^ 53 + 1 / 2 / ?U"
    by (simp only: ru)
qed

text \<open>One operation: relative error \<open>2 ^ -53\<close>, or half a unit in the subnormal range.\<close>

definition near :: "double \<Rightarrow> real \<Rightarrow> bool" where
  "near x r \<longleftrightarrow> f64_finite x \<and> \<bar>val x - r\<bar> \<le> \<bar>r\<bar> / 2 ^ 53 + 1 / 2 / real one_units"

lemma nearD:
  assumes "near x r"
  shows "f64_finite x" "\<bar>val x - r\<bar> \<le> \<bar>r\<bar> / 2 ^ 53 + 1 / 2 / real one_units"
  using assms by (simp_all add: near_def)

lemma units_eq_0 [simp]: "units n = 0 \<longleftrightarrow> n = 0" and units_pos [simp]: "0 < units n \<longleftrightarrow> 0 < n"
proof -
  have "n = n div 2 ^ 52 * 2 ^ 52 + n mod 2 ^ 52" by simp
  then show "units n = 0 \<longleftrightarrow> n = 0" by (auto simp: units_def Let_def)
  then show "0 < units n \<longleftrightarrow> 0 < n" by (metis neq0_conv)
qed

lemma val_eq_0: "val x = 0 \<longleftrightarrow> mag x = 0"
  by (simp add: val_def sunits_def)

lemma finite_cases: "f64_finite x \<Longrightarrow> \<not> f64_nan x \<and> \<not> f64_is_inf x"
  by (simp add: f64_finite_def f64_nan_def f64_is_inf_def)

lemma val_sign: "neg x \<Longrightarrow> val x \<le> 0" "\<not> neg x \<Longrightarrow> 0 \<le> val x"
  by (simp_all add: val_def sunits_def)

lemma val_zero: "val (pack s 0) = 0" "f64_finite (pack s 0)" "neg (pack s 0) = s"
  by (simp_all add: val_def sunits_def units_def f64_finite_def inf_mag_def)

lemma pack_round_near:
  assumes "0 < q" "r = (if s then - 1 else 1) * (real p / real q / real one_units)" "\<bar>r\<bar> \<le> f64_big"
  shows "near (pack s (round_units p q)) r" "neg (pack s (round_units p q)) = s"
proof -
  have "\<bar>r\<bar> = real p / real q / real one_units" using assms(2) by (simp add: abs_mult)
  then have "real p / real q / real one_units \<le> f64_big" using assms(3) by simp
  from pack_round [OF assms(1) this, of s] show "near (pack s (round_units p q)) r"
    "neg (pack s (round_units p q)) = s"
    by (simp_all add: near_def assms(2))
qed

lemma add_near:
  assumes "f64_finite x" "f64_finite y" "\<bar>val x + val y\<bar> \<le> f64_big"
  shows "near (f64_add x y) (val x + val y)"
proof -
  let ?s = "sunits x + sunits y"
  have v: "val x + val y = real_of_int ?s / real one_units"
    by (simp add: val_def add_divide_distrib)
  have add: "f64_add x y = (if ?s = 0 then pack (neg x \<and> neg y) 0 else pack (?s < 0) (round_units (nat \<bar>?s\<bar>) 1))"
    using finite_cases assms(1,2) by (simp add: f64_add_def Let_def)
  show ?thesis
  proof (cases "?s = 0")
    case True
    then show ?thesis by (simp add: add v near_def val_zero)
  next
    case False
    have "val x + val y = (if ?s < 0 then - 1 else 1) * (real (nat \<bar>?s\<bar>) / real 1 / real one_units)"
      by (simp add: v)
    from pack_round_near(1) [OF _ this assms(3)] False show ?thesis by (simp add: add)
  qed
qed

lemma add_sign:
  assumes "f64_finite x" "f64_finite y" "neg x = neg y"
  shows "neg (f64_add x y) = neg x"
proof -
  let ?s = "sunits x + sunits y"
  have "f64_add x y = (if ?s = 0 then pack (neg x \<and> neg y) 0 else pack (?s < 0) (round_units (nat \<bar>?s\<bar>) 1))"
    using finite_cases assms(1,2) by (simp add: f64_add_def Let_def)
  moreover define n where "n = units (mag x) + units (mag y)"
  then have "?s = (if neg x then - int n else int n)" using assms(3) by (simp add: sunits_def)
  then have "?s \<noteq> 0 \<Longrightarrow> (?s < 0) = neg x" by (cases "neg x") simp_all
  ultimately show ?thesis using assms(3) round_units_less [of "nat \<bar>?s\<bar>" 1] by (simp add: val_zero)
qed

lemma neg_bit: "neg x = bit x 63" and mag_take: "mag x = unat (take_bit 63 x)"
proof -
  have lt: "unat x < 2 ^ 64" using unsigned_less [of x] by simp
  have "bit x 63 = odd (unat x div 2 ^ 63)"
  proof -
    have "bit x 63 = bit (unat x) 63" by (simp add: bit_simps)
    then show ?thesis by (simp only: bit_iff_odd)
  qed
  also have "unat x div 2 ^ 63 = (if 2 ^ 63 \<le> unat x then 1 else 0)"
    using lt by (auto simp: div_nat_eqI)
  finally show "neg x = bit x 63" by (simp add: neg_def)
  show "mag x = unat (take_bit 63 x)" by (simp only: mag_def unsigned_take_bit_eq flip: take_bit_eq_mod)
qed

lemma neg_neg [simp]: "neg (f64_neg x) = (\<not> neg x)" and mag_neg [simp]: "mag (f64_neg x) = mag x"
  by (simp_all add: neg_bit mag_take f64_neg_def bit_simps)

lemma neg_abs [simp]: "\<not> neg (f64_abs x)" and mag_abs [simp]: "mag (f64_abs x) = mag x"
proof -
  have "f64_abs x = take_bit 63 x"
    unfolding f64_abs_def take_bit_eq_mask by (simp add: mask_eq_exp_minus_1)
  then show "\<not> neg (f64_abs x)" "mag (f64_abs x) = mag x" by (simp_all add: neg_bit mag_take bit_simps)
qed

lemma mul_near:
  assumes "f64_finite x" "f64_finite y" "\<bar>val x * val y\<bar> \<le> f64_big"
  shows "near (f64_mul x y) (val x * val y)" "neg (f64_mul x y) = (neg x \<noteq> neg y)"
proof -
  let ?p = "units (mag x) * units (mag y)"
  have "val x * val y = (if neg x \<noteq> neg y then - 1 else 1) * (real ?p / real one_units / real one_units)"
    by (simp add: val_def sunits_def)
  from pack_round_near [OF one_units_pos(1) this assms(3)] finite_cases assms(1,2)
  show "near (f64_mul x y) (val x * val y)" "neg (f64_mul x y) = (neg x \<noteq> neg y)"
    by (simp_all add: f64_mul_def Let_def)
qed

lemma div_near:
  assumes "f64_finite x" "f64_finite y" "val y \<noteq> 0" "\<bar>val x / val y\<bar> \<le> f64_big"
  shows "near (f64_div x y) (val x / val y)" "neg (f64_div x y) = (neg x \<noteq> neg y)"
proof -
  have ne: "mag y \<noteq> 0" using assms(3) by (simp add: val_eq_0)
  have "val x / val y = (if neg x \<noteq> neg y then - 1 else 1) *
      (real (units (mag x) * one_units) / real (units (mag y)) / real one_units)"
    by (simp add: val_def sunits_def)
  from pack_round_near [OF _ this assms(4)] ne finite_cases assms(1,2)
  show "near (f64_div x y) (val x / val y)" "neg (f64_div x y) = (neg x \<noteq> neg y)"
    by (simp_all add: f64_div_def Let_def)
qed

lemma mul_commute: "f64_mul x y = f64_mul y x"
proof -
  have s: "(neg x \<noteq> neg y) = (neg y \<noteq> neg x)" by blast
  have i: "f64_is_inf z \<Longrightarrow> mag z \<noteq> 0" for z by (simp add: f64_is_inf_def inf_mag_def)
  show ?thesis
    unfolding f64_mul_def Let_def mult.commute [of "units (mag y)"] s using i [of x] i [of y]
    by (cases "f64_is_inf x"; cases "f64_is_inf y") simp_all
qed

lemma val_neg [simp]: "val (f64_neg x) = - val x"
  by (simp add: val_def sunits_def)

lemma val_abs [simp]: "val (f64_abs x) = \<bar>val x\<bar>"
  by (simp add: val_def sunits_def)

lemma finite_abs [simp]: "f64_finite (f64_abs x) = f64_finite x"
  by (simp add: f64_finite_def)

lemma finite_neg [simp]: "f64_finite (f64_neg x) = f64_finite x"
  by (simp add: f64_finite_def)

lemma sub_near:
  assumes "f64_finite x" "f64_finite y" "\<bar>val x - val y\<bar> \<le> f64_big"
  shows "near (f64_sub x y) (val x - val y)"
  using add_near [of x "f64_neg y"] assms by (simp add: f64_sub_def)

lemma lt_val: "f64_finite x \<Longrightarrow> f64_finite y \<Longrightarrow> f64_lt x y \<longleftrightarrow> val x < val y"
  using finite_cases by (simp add: f64_lt_def val_def divide_less_cancel)

lemma le_val: "f64_finite x \<Longrightarrow> f64_finite y \<Longrightarrow> f64_le x y \<longleftrightarrow> val x \<le> val y"
  using finite_cases by (simp add: f64_le_def val_def divide_le_cancel)

lemma trunc_val:
  shows "\<bar>real_of_int (f64_trunc x)\<bar> \<le> \<bar>val x\<bar>" "\<bar>val x\<bar> < \<bar>real_of_int (f64_trunc x)\<bar> + 1"
    "neg x \<Longrightarrow> f64_trunc x \<le> 0" "\<not> neg x \<Longrightarrow> 0 \<le> f64_trunc x"
proof -
  let ?u = "units (mag x)"
  have t: "\<bar>real_of_int (f64_trunc x)\<bar> = real (?u div one_units)" by (simp add: f64_trunc_def Let_def)
  have "?u = one_units * (?u div one_units) + ?u mod one_units" "?u mod one_units < one_units" by simp_all
  then have "real ?u = real one_units * real (?u div one_units) + real (?u mod one_units)"
    "real (?u mod one_units) < real one_units"
    by (metis of_nat_add of_nat_mult, simp)
  then show "\<bar>real_of_int (f64_trunc x)\<bar> \<le> \<bar>val x\<bar>" "\<bar>val x\<bar> < \<bar>real_of_int (f64_trunc x)\<bar> + 1"
    unfolding t abs_val by (simp_all add: field_simps)
  show "neg x \<Longrightarrow> f64_trunc x \<le> 0" "\<not> neg x \<Longrightarrow> 0 \<le> f64_trunc x"
    by (simp_all add: f64_trunc_def Let_def)
qed

lemma of_int_exact:
  assumes "\<bar>i\<bar> < 2 ^ 53"
  shows "f64_finite (f64_of_int i)" "val (f64_of_int i) = real_of_int i"
proof -
  let ?k = "nat \<bar>i\<bar>"
  let ?p = "?k * one_units"
  have "?k < 2 ^ 53" using assms by simp
  then have "?p < 2 ^ 53 * one_units" by (simp only: mult_less_cancel2) simp
  also have "\<dots> = 2 ^ 1127" unfolding one_units_def by (simp only: flip: power_add) simp
  finally have lt: "?p < 2 ^ 1127" .
  have "scale_of ?p 1 \<le> 1074"
  proof (rule ccontr)
    assume n: "\<not> scale_of ?p 1 \<le> 1074"
    then have "1 * 2 ^ (scale_of ?p 1 + 52) \<le> ?p" by (intro scale_bounds(2)) simp_all
    moreover have "(2 :: nat) ^ 1127 \<le> 2 ^ (scale_of ?p 1 + 52)" using n by (intro power_increasing) simp_all
    ultimately show False using lt by linarith
  qed
  then have "2 ^ scale_of ?p 1 dvd one_units" unfolding one_units_def by (rule le_imp_power_dvd)
  then have ex: "units (raw_round ?p 1) = ?p" by (intro raw_round_exact) simp
  have "?p < 1 * 2 ^ 2097" unfolding mult_1 by (rule less_trans [OF lt power_strict_increasing]) simp_all
  then have fin: "raw_round ?p 1 < inf_mag" by (rule raw_round_finite [rotated]) (rule zero_less_one)
  then have ru: "round_units ?p 1 = raw_round ?p 1" by (simp add: round_units_raw)
  have less: "raw_round ?p 1 < 2 ^ 63" using round_units_less [of ?p 1] by (simp only: ru)
  have eq: "f64_of_int i = pack (i < 0) (raw_round ?p 1)" by (simp only: f64_of_int_def ru)
  show "f64_finite (f64_of_int i)" unfolding eq f64_finite_def mag_pack [OF less] by (rule fin)
  show "val (f64_of_int i) = real_of_int i"
    unfolding eq val_def sunits_def mag_pack [OF less] neg_pack [OF less] ex by simp
qed

section \<open>Literals\<close>

definition lit_1 :: double where
  "lit_1 = 0x3FF0000000000000"

definition lit_2 :: double where
  "lit_2 = 0x4000000000000000"

lemma val_mag:
  assumes "x < 2 ^ 63" "x div 2 ^ 52 = Suc E" "x mod 2 ^ 52 = f"
  shows "val (of_nat x) = real (2 ^ 52 + f) * 2 ^ E / real one_units" "f64_finite (of_nat x) = (E < 2046)"
proof -
  have p: "of_nat x = pack False x" by (simp add: pack_def)
  show "val (of_nat x) = real (2 ^ 52 + f) * 2 ^ E / real one_units"
    unfolding p using assms by (simp add: val_def sunits_def units_def)
  have "x < 2047 * 2 ^ 52 \<longleftrightarrow> x div 2 ^ 52 < 2047" by (rule div_less_iff_less_mult [symmetric]) simp
  then show "f64_finite (of_nat x) = (E < 2046)" unfolding p using assms by (simp add: f64_finite_def inf_mag_def)
qed

lemma pow_one_units: "n + k = 1074 \<Longrightarrow> 2 ^ n / real one_units = 1 / 2 ^ k"
proof -
  assume "n + k = 1074"
  then have "real one_units = 2 ^ n * 2 ^ k"
    unfolding one_units_def of_nat_power of_nat_numeral by (simp only: flip: power_add)
  then show ?thesis by simp
qed

lemma lit_1_val: "f64_finite lit_1" "val lit_1 = 1" "\<not> neg lit_1"
proof -
  have l: "lit_1 = of_nat 0x3FF0000000000000" by (simp add: lit_1_def)
  have v: "val lit_1 = real (2 ^ 52 + 0) * 2 ^ 1022 / real one_units" "f64_finite lit_1 = (1022 < (2046 :: nat))"
    unfolding l by (rule val_mag; simp)+
  have "val lit_1 = real (2 ^ 52 + 0) * (1 / 2 ^ 52)"
    unfolding v(1) times_divide_eq_right [symmetric] by (subst pow_one_units [of 1022 52]) simp_all
  then show "val lit_1 = 1" by simp
  show "f64_finite lit_1" using v(2) by simp
  show "\<not> neg lit_1" by (simp add: neg_def lit_1_def)
qed

lemma lit_2_val: "f64_finite lit_2" "val lit_2 = 2" "\<not> neg lit_2"
proof -
  have l: "lit_2 = of_nat 0x4000000000000000" by (simp add: lit_2_def)
  have w: "val lit_2 = real (2 ^ 52 + 0) * 2 ^ 1023 / real one_units" "f64_finite lit_2 = (1023 < (2046 :: nat))"
    unfolding l by (rule val_mag; simp)+
  have "val lit_2 = real (2 ^ 52 + 0) * (1 / 2 ^ 51)"
    unfolding w(1) times_divide_eq_right [symmetric] by (subst pow_one_units [of 1023 51]) simp_all
  then show "val lit_2 = 2" by simp
  show "f64_finite lit_2" using w(2) by simp
  show "\<not> neg lit_2" by (simp add: neg_def lit_2_def)
qed

lemma zero_facts:
  "sunits 0 = 0" "mag 0 = 0" "\<not> neg 0" "f64_finite 0" "pack False 0 = 0" "val 0 = 0"
  by (simp_all add: sunits_def mag_def neg_def units_def f64_finite_def inf_mag_def pack_def val_def)

lemma round_units_0 [simp]: "round_units 0 q = 0"
  by (cases "q = 0") (simp_all add: round_units_def scale_of_def half_even_def floorlog_def)

end
