(* ===== verification/Elf.thy ===== *)
theory Elf
  imports Record_Codec Ieee_Double
begin

text \<open>
  The Elf compressor, \<open>Machete/elf\<close>: a value that is a short decimal loses the low bits that the decimal
  determines before it goes to an XOR compressor, and gets them back by rounding up to the same number of
  decimals.  The theory holds the definitions: \<open>utils.cpp\<close> (significant digits, powers of ten),
  \<open>ElfCompressor.cpp\<close> and \<open>ElfDecompressor.cpp\<close>.

  Where the language leaves a value undefined and the code goes on, the value is an argument: the result of a
  shift by a negative amount or by 64 and more, of \<open>__builtin_ctzl(0)\<close>, and the content of the flag that
  \<open>getSPAnd10iNFlag\<close> does not set.  The library functions \<open>log10\<close> and \<open>pow\<close> are arguments too.
\<close>

section \<open>Digits and powers of ten\<close>

definition f_table :: "int list" where
  "f_table = [0, 4, 7, 10, 14, 17, 20, 24, 27, 30, 34, 37, 40, 44, 47, 50, 54, 57, 60, 64, 67]"

text \<open>The literals \<open>1.0E\<close>\<^emph>\<open>i\<close> and \<open>1.0E-\<close>\<^emph>\<open>i\<close> are the doubles nearest to the powers of ten; the positive
  ones are exact, so one division gives the negative ones.\<close>

definition pow10 :: "nat \<Rightarrow> double" where
  "pow10 i = f64_of_int (10 ^ i)"

definition pow10_neg :: "nat \<Rightarrow> double" where
  "pow10_neg i = f64_div lit_1 (pow10 i)"

definition map10iP :: "double list" where
  "map10iP = map pow10 [0..<21]"

definition map10iN :: "double list" where
  "map10iN = map pow10_neg [0..<21]"

definition mapSPGreater1 :: "double list" where
  "mapSPGreater1 = map pow10 [0..<10]"

definition mapSPLess1 :: "double list" where
  "mapSPLess1 = map pow10_neg [0..<11]"

text \<open>\<open>3.321928095\<close>.\<close>

definition LOG_2_10 :: double where
  "LOG_2_10 = 0x400A934F097D8237"

definition getFAlpha :: "int \<Rightarrow> int option" where
  "getFAlpha alpha =
     (if alpha < 0 then None
      else if int (length f_table) \<le> alpha
      then f64_to_int 32 (f64_ceil (f64_mul (f64_of_int alpha) LOG_2_10))
      else Some (f_table ! nat alpha))"

definition get10iP :: "libm \<Rightarrow> int \<Rightarrow> double option" where
  "get10iP m i =
     (if i < 0 then None
      else if int (length map10iP) \<le> i then Some (m_pow m (f64_of_int 10) (f64_of_int i))
      else Some (map10iP ! nat i))"

definition get10iN :: "libm \<Rightarrow> int \<Rightarrow> double option" where
  "get10iN m i =
     (if i < 0 then None
      else if int (length map10iN) \<le> i then Some (m_pow m (f64_of_int 10) (f64_of_int (- i)))
      else Some (map10iN ! nat i))"

definition roundUp :: "libm \<Rightarrow> double \<Rightarrow> int \<Rightarrow> double option" where
  "roundUp m v alpha = do {
     scale \<leftarrow> get10iP m alpha;
     Some (if f64_lt v 0 then f64_div (f64_floor (f64_mul v scale)) scale
           else f64_div (f64_ceil (f64_mul v scale)) scale) }"

text \<open>The two searches shared by \<open>getSP\<close> and \<open>getSPAnd10iNFlag\<close>.\<close>

definition sp_greater1 :: "double \<Rightarrow> nat option" where
  "sp_greater1 v = find (\<lambda>i. f64_lt v (mapSPGreater1 ! (i + 1))) [0..<length mapSPGreater1 - 1]"

definition sp_less1 :: "double \<Rightarrow> nat option" where
  "sp_less1 v = find (\<lambda>i. f64_le (mapSPLess1 ! i) v) [1..<length mapSPLess1]"

definition getSP :: "libm \<Rightarrow> double \<Rightarrow> int option" where
  "getSP m v =
     (case if f64_le lit_1 v then map_option int (sp_greater1 v) else map_option (\<lambda>i. - int i) (sp_less1 v) of
        Some sp \<Rightarrow> Some sp
      | None \<Rightarrow> f64_to_int 32 (f64_floor (m_log10 m v)))"

text \<open>For \<open>v \<ge> 1\<close> the flag of the new array is not written: \<open>junk\<close> is what it holds.\<close>

definition getSPAnd10iNFlag :: "libm \<Rightarrow> int \<Rightarrow> double \<Rightarrow> (int \<times> int) option" where
  "getSPAnd10iNFlag m junk v =
     (case if f64_le lit_1 v then map_option (\<lambda>i. (int i, junk)) (sp_greater1 v)
           else map_option (\<lambda>i. (- int i, if f64_eq v (mapSPLess1 ! i) then 1 else 0)) (sp_less1 v) of
        Some r \<Rightarrow> Some r
      | None \<Rightarrow> do {
          let log10v = m_log10 m v;
          sp \<leftarrow> f64_to_int 32 (f64_floor log10v);
          l \<leftarrow> f64_to_int 64 log10v;
          Some (sp, if f64_eq log10v (f64_of_int l) then 1 else 0) })"

definition INT32_MAX :: int where
  "INT32_MAX = 2147483647"

text \<open>The first loop: \<open>i\<close> grows until \<open>v * 10^i\<close> is an integer.  The second: final zeros are dropped.\<close>

partial_function (option) integral_scale :: "libm \<Rightarrow> double \<Rightarrow> int \<Rightarrow> (int \<times> double \<times> int) option" where
  "integral_scale m v i = do {
     p \<leftarrow> get10iP m i;
     let temp = f64_mul v p;
     tempLong \<leftarrow> f64_to_int 64 temp;
     if f64_eq (f64_of_int tempLong) temp then Some (i, temp, tempLong) else integral_scale m v (i + 1) }"

declare integral_scale.simps [code]

fun strip_zeros :: "nat \<Rightarrow> int \<Rightarrow> nat" where
  "strip_zeros 0 tempLong = 0"
| "strip_zeros (Suc i) tempLong = (if tempLong mod 10 = 0 then strip_zeros i (tempLong div 10) else Suc i)"

definition first_scale :: "int \<Rightarrow> int \<Rightarrow> int" where
  "first_scale sp lastBetaStar =
     (if lastBetaStar \<noteq> INT32_MAX \<and> lastBetaStar \<noteq> 0 then max (lastBetaStar - sp - 1) 1
      else if lastBetaStar = INT32_MAX then 17 - sp - 1
      else if 0 \<le> sp then 1 else - sp)"

definition getSignificantCount :: "libm \<Rightarrow> double \<Rightarrow> int \<Rightarrow> int \<Rightarrow> int option" where
  "getSignificantCount m v sp lastBetaStar = do {
     (i, temp, tempLong) \<leftarrow> integral_scale m v (first_scale sp lastBetaStar);
     p \<leftarrow> get10iP m i;
     if \<not> f64_eq (f64_div temp p) v then Some 17
     else Some (sp + int (strip_zeros (nat i) tempLong) + 1) }"

definition getAlphaAndBetaStar :: "libm \<Rightarrow> int \<Rightarrow> double \<Rightarrow> int \<Rightarrow> (int \<times> int) option" where
  "getAlphaAndBetaStar m junk v lastBetaStar = do {
     let v = (if f64_lt v 0 then f64_neg v else v);
     (sp, flag) \<leftarrow> getSPAnd10iNFlag m junk v;
     beta \<leftarrow> getSignificantCount m v sp lastBetaStar;
     Some (beta - sp - 1, if flag = 1 then 0 else beta) }"

section \<open>The XOR compressor\<close>

record elf_undef =
  u_ctz0 :: nat
  u_shift :: u64

text \<open>Shifts of a \<open>uint64_t\<close>.\<close>

definition shl_u64 :: "elf_undef \<Rightarrow> u64 \<Rightarrow> int \<Rightarrow> u64" where
  "shl_u64 u x n = (if 0 \<le> n \<and> n < 64 then push_bit (nat n) x else u_shift u)"

definition shr_u64 :: "elf_undef \<Rightarrow> u64 \<Rightarrow> nat \<Rightarrow> u64" where
  "shr_u64 u x n = (if n < 64 then drop_bit n x else u_shift u)"

definition leadingRepresentation :: "nat list" where
  "leadingRepresentation =
     [0, 0, 0, 0, 0, 0, 0, 0,
      1, 1, 1, 1, 2, 2, 2, 2,
      3, 3, 4, 4, 5, 5, 6, 6,
      7, 7, 7, 7, 7, 7, 7, 7,
      7, 7, 7, 7, 7, 7, 7, 7,
      7, 7, 7, 7, 7, 7, 7, 7,
      7, 7, 7, 7, 7, 7, 7, 7,
      7, 7, 7, 7, 7, 7, 7, 7]"

definition leadingRound :: "nat list" where
  "leadingRound =
     [0, 0, 0, 0, 0, 0, 0, 0,
      8, 8, 8, 8, 12, 12, 12, 12,
      16, 16, 18, 18, 20, 20, 22, 22,
      24, 24, 24, 24, 24, 24, 24, 24,
      24, 24, 24, 24, 24, 24, 24, 24,
      24, 24, 24, 24, 24, 24, 24, 24,
      24, 24, 24, 24, 24, 24, 24, 24,
      24, 24, 24, 24, 24, 24, 24, 24]"

record elf_xor =
  xc_storedLeadingZeros :: nat
  xc_storedTrailingZeros :: nat
  xc_storedVal :: u64
  xc_first :: bool
  xc_size :: nat
  xc_length :: nat
  xc_writer :: bit_writer

definition writeFirst :: "elf_undef \<Rightarrow> elf_xor \<Rightarrow> u64 \<Rightarrow> (elf_xor \<times> nat) option" where
  "writeFirst u c v = do {
     let c = c\<lparr>xc_first := False, xc_storedVal := v, xc_length := 1\<rparr>;
     let trailingZeros = ctzl (u_ctz0 u) v;
     w \<leftarrow> bit_write (xc_writer c) (of_nat trailingZeros) 7;
     if v \<noteq> 0
     then do {
       w \<leftarrow> writeLong w (shr_u64 u v (trailingZeros + 1)) (63 - trailingZeros);
       Some (c\<lparr>xc_writer := w, xc_size := xc_size c + (70 - trailingZeros)\<rparr>, 70 - trailingZeros) }
     else Some (c\<lparr>xc_writer := w, xc_size := xc_size c + 7\<rparr>, 7) }"

definition compressValue :: "elf_undef \<Rightarrow> elf_xor \<Rightarrow> u64 \<Rightarrow> (elf_xor \<times> nat) option" where
  "compressValue u c v = do {
     let x = xc_storedVal c XOR v;
     (c, thisSize) \<leftarrow>
       (if x = 0
        then do { w \<leftarrow> bit_write (xc_writer c) 1 2; Some (c\<lparr>xc_writer := w, xc_size := xc_size c + 2\<rparr>, 2) }
        else do {
          let leadingZeros = leadingRound ! clz x;
          let trailingZeros = ctz x;
          (c, thisSize) \<leftarrow>
            (if leadingZeros = xc_storedLeadingZeros c \<and> xc_storedTrailingZeros c \<le> trailingZeros
             then do {
               let centerBits = 64 - xc_storedLeadingZeros c - xc_storedTrailingZeros c;
               let len = 2 + centerBits;
               w \<leftarrow>
                 (if 64 < len
                  then do {
                    w \<leftarrow> bit_write (xc_writer c) 0 2;
                    writeLong w (shr_u64 u x (xc_storedTrailingZeros c)) centerBits }
                  else writeLong (xc_writer c) (shr_u64 u x (xc_storedTrailingZeros c)) len);
               Some (c\<lparr>xc_writer := w, xc_size := xc_size c + len\<rparr>, len) }
             else do {
               let centerBits = 64 - leadingZeros - trailingZeros;
               let c = c\<lparr>xc_storedLeadingZeros := leadingZeros, xc_storedTrailingZeros := trailingZeros\<rparr>;
               if centerBits \<le> 16
               then do {
                 w \<leftarrow> bit_write (xc_writer c)
                       (push_bit 4 (push_bit 3 2 OR of_nat (leadingRepresentation ! leadingZeros)) OR
                        (of_nat centerBits AND 0xF)) 9;
                 w \<leftarrow> writeLong w (shr_u64 u x (trailingZeros + 1)) (centerBits - 1);
                 Some (c\<lparr>xc_writer := w, xc_size := xc_size c + (8 + centerBits)\<rparr>, 8 + centerBits) }
               else do {
                 w \<leftarrow> bit_write (xc_writer c)
                       (push_bit 6 (push_bit 3 3 OR of_nat (leadingRepresentation ! leadingZeros)) OR
                        (of_nat centerBits AND 0x3F)) 11;
                 w \<leftarrow> writeLong w (shr_u64 u x (trailingZeros + 1)) (centerBits - 1);
                 Some (c\<lparr>xc_writer := w, xc_size := xc_size c + (10 + centerBits)\<rparr>, 10 + centerBits) } });
          Some (c\<lparr>xc_storedVal := v\<rparr>, thisSize) });
     Some (c\<lparr>xc_length := xc_length c + 1\<rparr>, thisSize) }"

definition xor_addValue :: "elf_undef \<Rightarrow> elf_xor \<Rightarrow> u64 \<Rightarrow> (elf_xor \<times> nat) option" where
  "xor_addValue u c v = (if xc_first c then writeFirst u c v else compressValue u c v)"

text \<open>\<open>init\<close>: three words for every value, after the word for their number.\<close>

definition xor_init :: "nat \<Rightarrow> elf_xor option" where
  "xor_init n = do {
     w \<leftarrow> initBitWriter (replicate (n * 12 div 4) 0) (n * 12 div 4);
     Some \<lparr>xc_storedLeadingZeros = nat INT32_MAX, xc_storedTrailingZeros = nat INT32_MAX, xc_storedVal = 0,
           xc_first = True, xc_size = 32, xc_length = 0, xc_writer = w\<rparr> }"

section \<open>The compressor\<close>

record elf_compressor =
  ec_size :: nat
  ec_lastBetaStar :: int
  ec_xor :: elf_xor

definition writeInt :: "elf_compressor \<Rightarrow> int \<Rightarrow> nat \<Rightarrow> elf_compressor option" where
  "writeInt c n len = do {
     w \<leftarrow> bit_write (xc_writer (ec_xor c)) (word_of_int n) len;
     Some (c\<lparr>ec_xor := (ec_xor c)\<lparr>xc_writer := w\<rparr>, ec_size := ec_size c + len\<rparr>) }"

definition xorCompress :: "elf_undef \<Rightarrow> elf_compressor \<Rightarrow> u64 \<Rightarrow> elf_compressor option" where
  "xorCompress u c v = do {
     (x, thisSize) \<leftarrow> xor_addValue u (ec_xor c) v;
     Some (c\<lparr>ec_xor := x, ec_size := ec_size c + thisSize\<rparr>) }"

text \<open>\<open>addValue\<close>: a value that keeps all its bits is announced by the bits 10, one that is cut by 0, or by 11
  and four bits if the number of digits changes.\<close>

definition addValue :: "libm \<Rightarrow> elf_undef \<Rightarrow> int \<Rightarrow> elf_compressor \<Rightarrow> double \<Rightarrow> elf_compressor option" where
  "addValue m u junk c v =
     (if f64_nan v then None
      else do {
        (c, vPrimeLong) \<leftarrow>
          (if f64_eq v 0
           then do { c \<leftarrow> writeInt c 2 2; Some (c, v) }
           else do {
             (alpha, betaStar) \<leftarrow> getAlphaAndBetaStar m junk v (ec_lastBetaStar c);
             let e = int (unat (drop_bit 52 v AND 0x7FF));
             fAlpha \<leftarrow> getFAlpha alpha;
             let gAlpha = fAlpha + e - 1023;
             let eraseBits = 52 - gAlpha;
             let mask = shl_u64 u 0xFFFFFFFFFFFFFFFF eraseBits;
             let delta = NOT mask AND v;
             if delta \<noteq> 0 \<and> 4 < eraseBits
             then do {
               c \<leftarrow> (if betaStar = ec_lastBetaStar c then writeInt c 0 1
                      else do { c \<leftarrow> writeInt c (betaStar OR 0x30) 6; Some (c\<lparr>ec_lastBetaStar := betaStar\<rparr>) });
               Some (c, mask AND v) }
             else do { c \<leftarrow> writeInt c 2 2; Some (c, v) } });
        xorCompress u c vPrimeLong })"

fun addValues ::
  "libm \<Rightarrow> elf_undef \<Rightarrow> (nat \<Rightarrow> int) \<Rightarrow> nat \<Rightarrow> elf_compressor \<Rightarrow> double list \<Rightarrow> elf_compressor option" where
  "addValues m u junk i c [] = Some c"
| "addValues m u junk i c (v # vs) = do {
     c \<leftarrow> addValue m u (junk i) c v;
     addValues m u junk (i + 1) c vs }"

text \<open>\<open>close\<close> writes a final mark, which \<open>getSize\<close>, an \<open>int\<close>, does not count: the number of bytes is
  computed from the size before it.\<close>

definition elf_encode :: "libm \<Rightarrow> elf_undef \<Rightarrow> (nat \<Rightarrow> int) \<Rightarrow> double list \<Rightarrow> u8 list option" where
  "elf_encode m u junk vs = do {
     x \<leftarrow> xor_init (length vs);
     c \<leftarrow> addValues m u junk 0 \<lparr>ec_size = 32, ec_lastBetaStar = INT32_MAX, ec_xor = x\<rparr> vs;
     w \<leftarrow> bit_write (xc_writer (ec_xor c)) 2 2;
     (w, _) \<leftarrow> flush w;
     if ec_size c + 31 < 2 ^ 31
     then Some (take ((ec_size c + 31) div 32 * 4)
                  (le_bytes 4 (of_nat (xc_length (ec_xor c)) :: u32) @ words_bytes (w_output w)))
     else None }"

section \<open>The decompressor\<close>

definition leadingRep :: "nat list" where
  "leadingRep = [0, 8, 12, 16, 18, 20, 22, 24]"

record elf_xor_reader =
  xd_storedVal :: u64
  xd_storedLeadingZeros :: nat
  xd_storedTrailingZeros :: nat
  xd_first :: bool

text \<open>The bits after the leading one, back in their place; a negative number of trailing zeros is
  undefined.\<close>

definition read_center ::
  "bit_reader \<Rightarrow> nat \<Rightarrow> nat \<Rightarrow> (u64 \<times> bit_reader) option" where
  "read_center r lead centerBits =
     (if 64 < lead + centerBits then None
      else do {
        (d, r) \<leftarrow> readLong r (centerBits - 1);
        Some (push_bit (64 - lead - centerBits) (push_bit 1 d + 1), r) })"

definition xor_nextValue :: "bit_reader \<Rightarrow> elf_xor_reader \<Rightarrow> (bit_reader \<times> elf_xor_reader) option" where
  "xor_nextValue r s = do {
     flag \<leftarrow> peek r 2;
     r \<leftarrow> forward r 2;
     if flag = 3
     then do {
       leadAndCenter \<leftarrow> peek r 9;
       r \<leftarrow> forward r 9;
       let lead = leadingRep ! unat (drop_bit 6 leadAndCenter);
       let centerBits = unat (leadAndCenter AND 0x3F);
       let centerBits = (if centerBits = 0 then 64 else centerBits);
       (v, r) \<leftarrow> read_center r lead centerBits;
       Some (r, s\<lparr>xd_storedLeadingZeros := lead, xd_storedTrailingZeros := 64 - lead - centerBits,
                  xd_storedVal := xd_storedVal s XOR v\<rparr>) }
     else if flag = 2
     then do {
       leadAndCenter \<leftarrow> peek r 7;
       r \<leftarrow> forward r 7;
       let lead = leadingRep ! unat (drop_bit 4 leadAndCenter);
       let centerBits = unat (leadAndCenter AND 0xF);
       let centerBits = (if centerBits = 0 then 16 else centerBits);
       (v, r) \<leftarrow> read_center r lead centerBits;
       Some (r, s\<lparr>xd_storedLeadingZeros := lead, xd_storedTrailingZeros := 64 - lead - centerBits,
                  xd_storedVal := xd_storedVal s XOR v\<rparr>) }
     else if flag = 1 then Some (r, s)
     else if 64 < xd_storedLeadingZeros s + xd_storedTrailingZeros s \<or> 64 \<le> xd_storedTrailingZeros s then None
     else do {
       (d, r) \<leftarrow> readLong r (64 - xd_storedLeadingZeros s - xd_storedTrailingZeros s);
       Some (r, s\<lparr>xd_storedVal := xd_storedVal s XOR push_bit (xd_storedTrailingZeros s) d\<rparr>) } }"

definition xor_next :: "bit_reader \<Rightarrow> elf_xor_reader \<Rightarrow> (bit_reader \<times> elf_xor_reader) option" where
  "xor_next r s =
     (if xd_first s
      then do {
        tz \<leftarrow> peek r 7;
        r \<leftarrow> forward r 7;
        let trailingZeros = unat tz;
        if trailingZeros < 64
        then do {
          (d, r) \<leftarrow> readLong r (63 - trailingZeros);
          Some (r, s\<lparr>xd_first := False, xd_storedVal := push_bit trailingZeros (push_bit 1 d + 1)\<rparr>) }
        else Some (r, s\<lparr>xd_first := False, xd_storedVal := 0\<rparr>) }
      else xor_nextValue r s)"

text \<open>\<open>readInt\<close>, \<open>recoverVByBetaStar\<close>, \<open>nextValue\<close>.\<close>

definition readInt :: "bit_reader \<Rightarrow> nat \<Rightarrow> (int \<times> bit_reader) option" where
  "readInt r len = do {
     x \<leftarrow> peek r len;
     r \<leftarrow> forward r len;
     Some (int (unat x), r) }"

definition recoverV :: "libm \<Rightarrow> int \<Rightarrow> double \<Rightarrow> double option" where
  "recoverV m lastBetaStar vPrime = do {
     sp \<leftarrow> getSP m (f64_abs vPrime);
     if lastBetaStar = 0
     then do {
       v \<leftarrow> get10iN m (- sp - 1);
       Some (if f64_lt vPrime 0 then f64_neg v else v) }
     else roundUp m vPrime (lastBetaStar - sp - 1) }"

definition recoverVByBetaStar ::
  "libm \<Rightarrow> bit_reader \<Rightarrow> int \<times> elf_xor_reader \<Rightarrow> (double \<times> bit_reader \<times> int \<times> elf_xor_reader) option" where
  "recoverVByBetaStar m r t = do {
     (r, s) \<leftarrow> xor_next r (snd t);
     v \<leftarrow> recoverV m (fst t) (xd_storedVal s);
     Some (v, r, fst t, s) }"

definition elf_nextValue ::
  "libm \<Rightarrow> bit_reader \<Rightarrow> int \<times> elf_xor_reader \<Rightarrow> (double \<times> bit_reader \<times> int \<times> elf_xor_reader) option" where
  "elf_nextValue m r t = do {
     (b, r) \<leftarrow> readInt r 1;
     if b = 0 then recoverVByBetaStar m r t
     else do {
       (b, r) \<leftarrow> readInt r 1;
       if b = 0
       then do {
         (r, s) \<leftarrow> xor_next r (snd t);
         Some (xd_storedVal s, r, fst t, s) }
       else do {
         (beta, r) \<leftarrow> readInt r 4;
         recoverVByBetaStar m r (beta, snd t) } } }"

fun elf_decompress ::
  "libm \<Rightarrow> nat \<Rightarrow> bit_reader \<Rightarrow> int \<times> elf_xor_reader \<Rightarrow> double list option" where
  "elf_decompress m 0 r t = Some []"
| "elf_decompress m (Suc n) r t = do {
     (v, r, t) \<leftarrow> elf_nextValue m r t;
     vs \<leftarrow> elf_decompress m n r t;
     Some (v # vs) }"

text \<open>The number of values, and the values.\<close>

definition elf_decode :: "libm \<Rightarrow> u8 list \<Rightarrow> (int \<times> double list) option" where
  "elf_decode m inp =
     (case bytes_words inp of
        [] \<Rightarrow> None
      | n # ws \<Rightarrow> do {
          r \<leftarrow> initBitReader ws (length ws);
          vs \<leftarrow> elf_decompress m (nat (sint n)) r
                  (INT32_MAX, \<lparr>xd_storedVal = 0, xd_storedLeadingZeros = nat INT32_MAX,
                               xd_storedTrailingZeros = nat INT32_MAX, xd_first = True\<rparr>);
          Some (sint n, vs) })"

end
