(* ===== verification/Elf_Codec.thy ===== *)
theory Elf_Codec
  imports Elf
begin

text \<open>
  The XOR layer of Elf: the fields that the compressor writes for one value, and that the decompressor reads
  exactly them.
\<close>

section \<open>The fields of one value\<close>

definition long_put :: "u64 \<Rightarrow> nat \<Rightarrow> field list" where
  "long_put d n = (if n = 0 then [] else if 32 < n then [(drop_bit (n - 32) d, 32), (d, n - 32)] else [(d, n)])"

lemma long_put_bits:
  assumes "n \<le> 64"
  shows "writeLong w d n = put_fields bit_write w (long_put d n)" "fields_bits (long_put d n) = to_bits n d"
    "\<forall>f \<in> set (long_put d n). field_ok f"
proof -
  show "writeLong w d n = put_fields bit_write w (long_put d n)"
    unfolding long_put_def by (rule writeLong_fields [OF assms])
  have "32 < n \<Longrightarrow> to_bits n d = to_bits 32 (drop_bit (n - 32) d) @ to_bits (n - 32) d"
    using to_bits_add [of 32 "n - 32" d] by simp
  then show "fields_bits (long_put d n) = to_bits n d" by (auto simp: long_put_def)
  show "\<forall>f \<in> set (long_put d n). field_ok f" using assms by (auto simp: long_put_def)
qed

lemma long_put_field: "(a, b) \<in> set (long_put d n) \<Longrightarrow> n \<le> 64 \<Longrightarrow> 0 < b \<and> b \<le> 32"
  by (auto simp: long_put_def split: if_splits)

type_synonym xor_state = "nat \<times> nat \<times> u64 \<times> bool"

definition xor_new_window :: "elf_undef \<Rightarrow> nat \<Rightarrow> nat \<Rightarrow> u64 \<Rightarrow> field list" where
  "xor_new_window u lead trail x =
     (let center = 64 - lead - trail in
      (if center \<le> 16
       then (push_bit 4 (push_bit 3 2 OR of_nat (leadingRepresentation ! lead)) OR (of_nat center AND 0xF), 9)
       else (push_bit 6 (push_bit 3 3 OR of_nat (leadingRepresentation ! lead)) OR (of_nat center AND 0x3F), 11))
      # long_put (shr_u64 u x (trail + 1)) (center - 1))"

definition xor_same_window :: "elf_undef \<Rightarrow> nat \<Rightarrow> nat \<Rightarrow> u64 \<Rightarrow> field list" where
  "xor_same_window u lead trail x =
     (let center = 64 - lead - trail in
      if 64 < 2 + center then (0, 2) # long_put (shr_u64 u x trail) center
      else long_put (shr_u64 u x trail) (2 + center))"

fun xor_rec :: "elf_undef \<Rightarrow> xor_state \<Rightarrow> u64 \<Rightarrow> field list \<times> xor_state" where
  "xor_rec u (lead, trail, stored, first) v =
     (if first
      then ((of_nat (ctzl (u_ctz0 u) v), 7) #
              (if v \<noteq> 0 then long_put (shr_u64 u v (ctz v + 1)) (63 - ctz v) else []),
            lead, trail, v, False)
      else
        let x = stored XOR v; l = leadingRound ! clz x; t = ctz x in
        if x = 0 then ([(1, 2)], lead, trail, v, False)
        else if l = lead \<and> trail \<le> t then (xor_same_window u lead trail x, lead, trail, v, False)
        else (xor_new_window u l t x, l, t, v, False))"

definition xor_state_of :: "elf_xor \<Rightarrow> xor_state" where
  "xor_state_of c = (xc_storedLeadingZeros c, xc_storedTrailingZeros c, xc_storedVal c, xc_first c)"

fun xor_next_state :: "elf_xor \<Rightarrow> xor_state \<Rightarrow> nat \<Rightarrow> bit_writer \<Rightarrow> elf_xor" where
  "xor_next_state c (lead, trail, stored, first) n w =
     c\<lparr>xc_storedLeadingZeros := lead, xc_storedTrailingZeros := trail, xc_storedVal := stored, xc_first := first,
       xc_size := xc_size c + n, xc_length := (if xc_first c then 1 else xc_length c + 1), xc_writer := w\<rparr>"

section \<open>Windows\<close>

lemma elf_leading_tables:
  assumes "c < 64"
  shows "leadingRound ! c \<le> c \<and> leadingRound ! c \<le> 24 \<and> leadingRepresentation ! (leadingRound ! c) < 8 \<and>
    leadingRep ! (leadingRepresentation ! (leadingRound ! c)) = leadingRound ! c"
proof -
  have "\<forall>c \<in> set [0..<64]. leadingRound ! c \<le> c \<and> leadingRound ! c \<le> 24 \<and>
    leadingRepresentation ! (leadingRound ! c) < 8 \<and>
    leadingRep ! (leadingRepresentation ! (leadingRound ! c)) = leadingRound ! c"
    by code_simp
  with assms show ?thesis by simp
qed

text \<open>A window that the compressor has chosen.\<close>

definition chosen :: "nat \<Rightarrow> nat \<Rightarrow> bool" where
  "chosen lead trail \<longleftrightarrow> lead + trail \<le> 63 \<and> lead \<le> 24 \<and> leadingRepresentation ! lead < 8 \<and>
     leadingRep ! (leadingRepresentation ! lead) = lead"

lemma chosen_new:
  fixes x :: u64
  assumes "x \<noteq> 0"
  shows "chosen (leadingRound ! clz x) (ctz x)" "leadingRound ! clz x \<le> clz x" "ctz x \<le> 63"
proof -
  have b: "clz x + ctz x \<le> 63" using clz_ctz_bound [OF assms] by simp
  then have "clz x < 64" by simp
  from elf_leading_tables [OF this] b show "chosen (leadingRound ! clz x) (ctz x)" "leadingRound ! clz x \<le> clz x" "ctz x \<le> 63"
    by (auto simp: chosen_def)
qed

lemma chosen_window: "chosen lead trail \<Longrightarrow> window_ok lead trail"
  by (simp add: chosen_def window_ok_def)

lemma xor_addValue_fields:
  assumes "chosen (xc_storedLeadingZeros c) (xc_storedTrailingZeros c) \<or> xc_storedLeadingZeros c = nat INT32_MAX"
    "xor_rec u (xor_state_of c) v = (fs, st)"
  shows "xor_addValue u c v =
    map_option (\<lambda>w. (xor_next_state c st (length (fields_bits fs)) w, length (fields_bits fs)))
      (put_fields bit_write (xc_writer c) fs)"
proof (cases "xc_first c")
  case True
  have tz: "v \<noteq> 0 \<Longrightarrow> ctz v \<le> 63" using chosen_new(3) [of v] by simp
  show ?thesis
    using assms(2) True tz
    by (cases c; cases "v = 0")
      (auto simp: xor_addValue_def writeFirst_def xor_state_of_def Let_def long_put_bits ctzl_def
          map_conv_bind_option comp_def)
next
  case False
  define x where "x = xc_storedVal c XOR v"
  let ?l = "leadingRound ! clz x" and ?t = "ctz x"
  consider "x = 0" | (same) "x \<noteq> 0" "?l = xc_storedLeadingZeros c" "xc_storedTrailingZeros c \<le> ?t"
    | (new) "x \<noteq> 0" "\<not> (?l = xc_storedLeadingZeros c \<and> xc_storedTrailingZeros c \<le> ?t)"
    by blast
  then show ?thesis
  proof cases
    case 1
    then show ?thesis
      using assms(2) False
      by (cases c) (auto simp: xor_addValue_def compressValue_def xor_state_of_def Let_def x_def xor_zero_eq map_conv_bind_option comp_def)
  next
    case same
    have "chosen (xc_storedLeadingZeros c) (xc_storedTrailingZeros c)"
      using assms(1) same chosen_new(1) [OF same(1)] by (auto simp: chosen_def INT32_MAX_def)
    then have le: "xc_storedLeadingZeros c + xc_storedTrailingZeros c \<le> 63" by (simp add: chosen_def)
    have "fs = xor_same_window u (xc_storedLeadingZeros c) (xc_storedTrailingZeros c) x"
      "st = (xc_storedLeadingZeros c, xc_storedTrailingZeros c, v, False)"
      using assms(2) False same by (auto simp: xor_state_of_def x_def Let_def)
    then show ?thesis
      using False same le
      by (cases "64 < 2 + (64 - xc_storedLeadingZeros c - xc_storedTrailingZeros c)"; cases c)
        (simp_all add: xor_addValue_def compressValue_def Let_def x_def xor_same_window_def long_put_bits
          map_conv_bind_option comp_def)
  next
    case new
    have ch: "?l + ?t \<le> 63" using chosen_new(1) [OF new(1)] by (simp add: chosen_def)
    have "fs = xor_new_window u ?l ?t x" "st = (?l, ?t, v, False)"
      using assms(2) False new by (auto simp: xor_state_of_def x_def Let_def)
    then show ?thesis
      using False new ch unfolding x_def
      by (cases "64 - leadingRound ! clz (xc_storedVal c XOR v) - ctz (xc_storedVal c XOR v) \<le> 16"; cases c)
        (auto simp: xor_addValue_def compressValue_def Let_def xor_new_window_def long_put_bits
          map_conv_bind_option comp_def)
  qed
qed

section \<open>Reading a window\<close>

lemma center_restores:
  fixes x :: u64
  assumes "x \<noteq> 0" "l \<le> clz x" "l + ctz x \<le> 63"
  shows "push_bit (ctz x) (push_bit 1 (take_bit (63 - l - ctz x) (shr_u64 u x (ctz x + 1))) + 1) = x"
proof -
  define e where "e = take_bit (63 - l - ctz x) (shr_u64 u x (ctz x + 1))"
  let ?t = "ctz x" and ?d = e
  have d: "bit ?d j \<longleftrightarrow> j < 63 - l - ?t \<and> bit x (?t + 1 + j)" for j
    using assms(3) by (cases "?t = 63") (auto simp: e_def shr_u64_def bit_simps)
  have "push_bit 1 ?d + 1 = push_bit 1 ?d OR 1"
    by (rule disjunctive_add) (auto simp: bit_simps bit_1_iff simp del: push_bit_Suc)
  moreover have "push_bit ?t (push_bit 1 ?d OR 1) = x"
  proof (rule bit_word_eqI)
    fix k assume k: "k < LENGTH(64)"
    consider "k < ?t" | "k = ?t" | "?t < k" "k < 64 - l" | "?t < k" "64 - l \<le> k" by linarith
    then show "bit (push_bit ?t (push_bit 1 ?d OR 1)) k = bit x k"
    proof cases
      case 1
      then show ?thesis using not_bit_below_ctz [of k x] by (simp add: bit_simps del: push_bit_Suc)
    next
      case 2
      then show ?thesis using bit_ctz [OF assms(1)] k by (simp add: bit_simps del: push_bit_Suc)
    next
      case 3
      then have "?t + 1 + (k - ?t - 1) = k" "k - ?t - 1 < 63 - l - ?t" "k - ?t \<noteq> 0" using assms(3) by auto
      with 3 k show ?thesis by (simp add: bit_simps bit_1_iff d del: push_bit_Suc)
    next
      case 4
      then have "\<not> bit x k" using assms(2) by (intro not_bit_above_clz) simp
      moreover have "\<not> k - ?t - 1 < 63 - l - ?t" "k - ?t \<noteq> 0" using 4 by auto
      ultimately show ?thesis using k 4 by (simp add: bit_simps bit_1_iff d del: push_bit_Suc)
    qed
  qed
  ultimately show ?thesis by (simp only: e_def)
qed

lemma window_header:
  assumes "a < 8"
  shows "b < 16 \<Longrightarrow> to_bits 9 (push_bit 4 (push_bit 3 2 OR of_nat a) OR of_nat b :: u64) =
      to_bits 2 (2 :: u64) @ to_bits 7 (of_nat (a * 2 ^ 4 + b) :: u64)"
    "b < 64 \<Longrightarrow> to_bits 11 (push_bit 6 (push_bit 3 3 OR of_nat a) OR of_nat b :: u64) =
      to_bits 2 (3 :: u64) @ to_bits 9 (of_nat (a * 2 ^ 6 + b) :: u64)"
proof -
  have p: "push_bit 3 (of_nat n) OR of_nat a = (of_nat (n * 2 ^ 3 + a) :: u64)" for n using assms by (intro pack_or) simp
  have split: "to_bits (2 + k) (of_nat (n * 2 ^ k + r) :: u64) = to_bits 2 (of_nat n :: u64) @ to_bits k (of_nat r :: u64)"
    if "r < 2 ^ k" "n < 4" "k \<le> 9" for n r k
  proof -
    have "(2 :: nat) ^ k \<le> 2 ^ 9" using that(3) by (intro power_increasing) simp_all
    then have lt: "n * 2 ^ k + r < 2 ^ 64" using that(1,2) mult_le_mono [of n 4 "2 ^ k" "2 ^ 9"] by simp
    have "drop_bit k (of_nat (n * 2 ^ k + r) :: u64) = of_nat n"
      unfolding word_unat_eq_iff unat_drop_bit_eq unat_of_nat64 [OF lt] using that(1,2)
      by (simp add: unat_of_nat64 drop_bit_eq_div)
    moreover have "take_bit k (n * 2 ^ k + r) = take_bit k r" by (simp add: take_bit_eq_mod)
    then have "bit (n * 2 ^ k + r) j = bit r j" if "j < k" for j using that by (metis bit_take_bit_iff)
    then have "to_bits k (of_nat (n * 2 ^ k + r) :: u64) = to_bits k (of_nat r :: u64)"
      by (intro to_bits_cong) (simp only: bit_of_nat_iff)
    ultimately show ?thesis by (simp only: to_bits_add)
  qed
  show "to_bits 9 (push_bit 4 (push_bit 3 2 OR of_nat a) OR of_nat b :: u64) =
      to_bits 2 (2 :: u64) @ to_bits 7 (of_nat (a * 2 ^ 4 + b) :: u64)" if "b < 16"
    using p [of 2] pack_or [of b 4 "2 * 2 ^ 3 + a"] split [of "a * 2 ^ 4 + b" 7 2] assms that by (simp add: algebra_simps)
  show "to_bits 11 (push_bit 6 (push_bit 3 3 OR of_nat a) OR of_nat b :: u64) =
      to_bits 2 (3 :: u64) @ to_bits 9 (of_nat (a * 2 ^ 6 + b) :: u64)" if "b < 64"
    using p [of 3] pack_or [of b 6 "3 * 2 ^ 3 + a"] split [of "a * 2 ^ 6 + b" 9 3] assms that by (simp add: algebra_simps)
qed

lemma and_low: "x AND 0xF = take_bit 4 (x :: u64)" "x AND 0x3F = take_bit 6 (x :: u64)"
  by (simp_all add: take_bit_eq_mask mask_eq_exp_minus_1)

lemma center_code:
  assumes "center \<le> 64"
  shows "of_nat center AND 0xF = (of_nat (center mod 16) :: u64)" "of_nat center AND 0x3F = (of_nat (center mod 64) :: u64)"
  unfolding and_low word_unat_eq_iff unsigned_take_bit_eq using assms by (simp_all add: unat_of_nat64 take_bit_eq_mod)

lemma header_parts:
  assumes "a < 8" "b < 2 ^ k" "k \<le> 6"
  shows "unat (drop_bit k (take_bit (3 + k) (of_nat (a * 2 ^ k + b) :: u64))) = a"
    "unat (take_bit k (take_bit (3 + k) (of_nat (a * 2 ^ k + b) :: u64))) = b"
proof -
  have "a * 2 ^ k + b < (a + 1) * 2 ^ k" using assms(2) by simp
  also have "\<dots> \<le> 8 * 2 ^ k" using assms(1) by (intro mult_le_mono1) simp
  finally have "a * 2 ^ k + b < 8 * 2 ^ k" .
  then have lt: "a * 2 ^ k + b < 2 ^ (3 + k)" by (simp add: power_add)
  have "(2 :: nat) ^ (3 + k) \<le> 2 ^ 9" using assms(3) by (intro power_increasing) simp_all
  then have "a * 2 ^ k + b < 2 ^ 64" using lt by simp
  then have t: "unat (take_bit (3 + k) (of_nat (a * 2 ^ k + b) :: u64)) = a * 2 ^ k + b"
    unfolding unsigned_take_bit_eq using lt by (simp only: unat_of_nat64 take_bit_nat_eq_self)
  show "unat (drop_bit k (take_bit (3 + k) (of_nat (a * 2 ^ k + b) :: u64))) = a"
    unfolding unat_drop_bit_eq t using assms(2) by (simp add: drop_bit_eq_div)
  show "unat (take_bit k (take_bit (3 + k) (of_nat (a * 2 ^ k + b) :: u64))) = b"
    unfolding unsigned_take_bit_eq [of k] t using assms(2) by (simp add: take_bit_eq_mod)
qed

lemma read_center_at:
  assumes "x \<noteq> 0" "l \<le> clz x" "l + ctz x \<le> 63" "br.at r (to_bits (63 - l - ctz x) (shr_u64 u x (ctz x + 1)) @ bs)"
  shows "\<exists>r'. read_center r l (64 - l - ctz x) = Some (x, r') \<and> br.at r' bs"
proof -
  have "63 - l - ctz x \<le> 64" by simp
  then obtain r' where r': "readLong r (63 - l - ctz x) =
      Some (take_bit (63 - l - ctz x) (shr_u64 u x (ctz x + 1)), r')" "br.at r' bs"
    using readLong_at [OF assms(4)] by blast
  have e: "64 - l - ctz x - 1 = 63 - l - ctz x" "64 - l - (64 - l - ctz x) = ctz x" using assms(3) by simp_all
  have "\<not> 64 < l + (64 - l - ctz x)" using assms(3) by simp
  then show ?thesis
    using r' center_restores [OF assms(1-3), of u] by (simp only: read_center_def e if_False) simp
qed

section \<open>The decompressor reads what the compressor wrote\<close>

fun xor_sim :: "xor_state \<Rightarrow> elf_xor_reader \<Rightarrow> bool" where
  "xor_sim (lead, trail, stored, first) s \<longleftrightarrow>
     xd_first s = first \<and> (first \<or> xd_storedVal s = stored) \<and>
     (lead = nat INT32_MAX \<or>
      chosen lead trail \<and> xd_storedLeadingZeros s = lead \<and> xd_storedTrailingZeros s = trail)"

lemma new_window_fields:
  assumes "chosen l t"
  shows "\<forall>f \<in> set (xor_new_window u l t x). field_ok f" "length (fields_bits (xor_new_window u l t x)) \<le> 74"
proof -
  have "64 - l - t - 1 \<le> 64" by simp
  note b = long_put_bits [OF this]
  show "\<forall>f \<in> set (xor_new_window u l t x). field_ok f"
    using b(3) by (auto simp: xor_new_window_def Let_def)
  show "length (fields_bits (xor_new_window u l t x)) \<le> 74"
    using b(2) by (auto simp: xor_new_window_def Let_def)
qed

lemma same_window_fields:
  assumes "chosen l t"
  shows "\<forall>f \<in> set (xor_same_window u l t x). field_ok f" "length (fields_bits (xor_same_window u l t x)) \<le> 66"
    "xor_same_window u l t x \<noteq> []"
proof -
  let ?c = "64 - l - t"
  have "?c \<le> 64" "64 < 2 + ?c \<or> 2 + ?c \<le> 64" by auto
  then show "\<forall>f \<in> set (xor_same_window u l t x). field_ok f" "length (fields_bits (xor_same_window u l t x)) \<le> 66"
    by (auto simp: xor_same_window_def Let_def long_put_bits(2) dest: long_put_field simp del: diff_diff_left)
  show "xor_same_window u l t x \<noteq> []" by (simp add: xor_same_window_def long_put_def Let_def)
qed

lemma xor_rec_cases:
  assumes "xor_sim (lead, trail, stored, False) s" "xor_rec u (lead, trail, stored, False) v = (fs, st')"
  obtains (zero) "v = stored" "fs = [(1, 2)]" "st' = (lead, trail, v, False)"
  | (same) x where "x \<noteq> 0" "v = stored XOR x" "chosen lead trail" "in_window lead trail x"
      "fs = xor_same_window u lead trail x" "st' = (lead, trail, v, False)"
  | (new) x l where "x \<noteq> 0" "v = stored XOR x" "chosen l (ctz x)" "l \<le> clz x"
      "fs = xor_new_window u l (ctz x) x" "st' = (l, ctz x, v, False)"
proof -
  define x where "x = stored XOR v"
  have v: "v = stored XOR x" by (simp add: x_def)
  let ?l = "leadingRound ! clz x"
  have rec: "(fs, st') = (if x = 0 then ([(1, 2)], lead, trail, v, False)
      else if ?l = lead \<and> trail \<le> ctz x then (xor_same_window u lead trail x, lead, trail, v, False)
      else (xor_new_window u ?l (ctz x) x, ?l, ctz x, v, False))"
    using assms(2) [symmetric] by (simp only: xor_rec.simps x_def Let_def if_False)
  consider "x = 0" | "x \<noteq> 0" "?l = lead" "trail \<le> ctz x" | "x \<noteq> 0" "\<not> (?l = lead \<and> trail \<le> ctz x)" by blast
  then show thesis
  proof cases
    case 1
    then have "v = stored" by (simp add: x_def xor_zero_eq)
    with 1 rec zero show thesis by simp
  next
    case 2
    note n = chosen_new [OF 2(1)]
    have "chosen lead trail" using assms(1) n(1) 2(2) by (auto simp: chosen_def INT32_MAX_def)
    moreover have "in_window lead trail x" using n(2) 2(2,3) by (auto simp: in_window_def)
    ultimately show thesis using same [OF 2(1) v] rec 2 by simp
  next
    case 3
    then show thesis using new [OF 3(1) v chosen_new(1,2) [OF 3(1)]] rec by auto
  qed
qed

lemma xor_rec_ok:
  assumes "xor_sim st s" "xor_rec u st v = (fs, st')"
  shows "(\<forall>f \<in> set fs. field_ok f) \<and> length (fields_bits fs) \<le> 74 \<and> fs \<noteq> []"
proof -
  obtain lead trail stored first where st: "st = (lead, trail, stored, first)" by (cases st)
  show ?thesis
  proof (cases first)
    case True
    have "63 - ctz v \<le> 64" by simp
    then show ?thesis using True assms(2) by (auto simp: st long_put_bits(2) dest: long_put_field)
  next
    case False
    then have "xor_sim (lead, trail, stored, False) s" "xor_rec u (lead, trail, stored, False) v = (fs, st')"
      using assms by (simp_all add: st)
    then show ?thesis
    proof (cases rule: xor_rec_cases)
      case zero
      then show ?thesis by simp
    next
      case (same x)
      then show ?thesis using same_window_fields [OF same(3), of u x] by auto
    next
      case (new x l)
      then show ?thesis using new_window_fields [OF new(3), of u x] by (auto simp: xor_new_window_def Let_def)
    qed
  qed
qed

lemma same_window_bits:
  assumes "chosen l t" "in_window l t x"
  shows "fields_bits (xor_same_window u l t x) = to_bits 2 (0 :: u64) @ to_bits (64 - l - t) (drop_bit t x)"
proof -
  let ?c = "64 - l - t"
  have t: "t < 64" "?c + t = 64 - l" "?c \<le> 64" using assms(1) by (auto simp: chosen_def)
  have "k < 64 - l" if "bit x k" for k
  proof -
    have "\<not> 64 - clz x \<le> k" using not_bit_above_clz [of x k] that by auto
    then show ?thesis using assms(2) unfolding in_window_def by linarith
  qed
  then have "drop_bit (64 - l) x = 0" by (intro bit_eqI) (auto simp: bit_simps)
  then have z: "drop_bit ?c (drop_bit t x) = 0" using t(2) by (simp add: drop_bit_drop_bit add.commute)
  have s: "shr_u64 u x t = drop_bit t x" using t(1) by (simp add: shr_u64_def)
  show ?thesis
  proof (cases "64 < 2 + ?c")
    case True
    then show ?thesis using long_put_bits(2) [OF t(3)] by (simp add: xor_same_window_def Let_def s)
  next
    case False
    then have "fields_bits (xor_same_window u l t x) = to_bits (2 + ?c) (drop_bit t x)"
      unfolding xor_same_window_def Let_def s if_not_P [OF False] by (intro long_put_bits(2)) simp
    then show ?thesis by (simp only: to_bits_add z)
  qed
qed

lemma new_window_bits:
  assumes "chosen l t"
  shows "fields_bits (xor_new_window u l t x) =
    (if 64 - l - t \<le> 16
     then to_bits 2 (2 :: u64) @ to_bits 7 (of_nat (leadingRepresentation ! l * 2 ^ 4 + (64 - l - t) mod 16) :: u64)
     else to_bits 2 (3 :: u64) @ to_bits 9 (of_nat (leadingRepresentation ! l * 2 ^ 6 + (64 - l - t) mod 64) :: u64)) @
    to_bits (63 - l - t) (shr_u64 u x (t + 1))"
proof -
  let ?c = "64 - l - t"
  have a: "leadingRepresentation ! l < 8" using assms by (simp add: chosen_def)
  have c: "?c \<le> 64" "63 - l - t \<le> 64" "?c - 1 = 63 - l - t" by simp_all
  have m: "?c mod 16 < 16" "?c mod 64 < 64" by simp_all
  show ?thesis
    unfolding xor_new_window_def Let_def center_code [OF c(1)] c(3)
    using window_header(1) [OF a m(1)] window_header(2) [OF a m(2)] long_put_bits(2) [OF c(2), of "shr_u64 u x (t + 1)"]
    by (cases "?c \<le> 16") simp_all
qed

text \<open>The bits of a header, read one part after the other.\<close>

lemma look_skip:
  assumes "br.at r (to_bits n d @ bs)" "0 < n" "n \<le> 32"
  obtains r' where "peek r n = Some (take_bit n d)" "forward r n = Some r'" "br.at r' bs"
  using br.look_field [OF assms] br.skip_field [OF assms(1,3)] that by blast

lemma xor_first_at:
  assumes "xd_first s" "xor_rec u (lead, trail, stored, True) v = (fs, st')"
    "v = 0 \<Longrightarrow> 64 \<le> u_ctz0 u \<and> u_ctz0 u < 128" "br.at r (fields_bits fs @ bs)"
  shows "\<exists>r'. xor_next r s = Some (r', s\<lparr>xd_first := False, xd_storedVal := v\<rparr>) \<and> br.at r' bs"
proof -
  let ?tz = "ctzl (u_ctz0 u) v"
  let ?more = "if v \<noteq> 0 then long_put (shr_u64 u v (ctz v + 1)) (63 - ctz v) else []"
  have fs: "fs = (of_nat ?tz, 7) # ?more" using assms(2) by auto
  have "br.at r (to_bits 7 (of_nat ?tz :: u64) @ fields_bits ?more @ bs)"
    using assms(4) unfolding fs by (simp only: fields_bits_simps fst_conv snd_conv append_assoc)
  then obtain r1 where r1: "peek r 7 = Some (take_bit 7 (of_nat ?tz))" "forward r 7 = Some r1" "br.at r1 (fields_bits ?more @ bs)"
    by (rule look_skip) simp_all
  have tz: "?tz < 128" "v \<noteq> 0 \<Longrightarrow> ctz v \<le> 63"
    using assms(3) chosen_new(3) [of v] by (auto simp: ctzl_def)
  then have "unat (take_bit 7 (of_nat ?tz :: u64)) = ?tz"
    unfolding unsigned_take_bit_eq by (simp add: unat_of_nat64 take_bit_nat_eq_self)
  note n = assms(1) r1(1,2) this
  show ?thesis
  proof (cases "v = 0")
    case True
    then show ?thesis using n r1(3) assms(3) by (simp add: xor_next_def ctzl_def)
  next
    case False
    have l: "63 - ctz v \<le> 64" by simp
    have "br.at r1 (to_bits (63 - ctz v) (shr_u64 u v (ctz v + 1)) @ bs)"
      using r1(3) False long_put_bits(2) [OF l] by simp
    then obtain r2 where r2: "readLong r1 (63 - ctz v) = Some (take_bit (63 - ctz v) (shr_u64 u v (ctz v + 1)), r2)" "br.at r2 bs"
      using readLong_at [OF _ l] by blast
    have "push_bit (ctz v) (push_bit 1 (take_bit (63 - ctz v) (shr_u64 u v (ctz v + 1))) + 1) = v"
      using center_restores [OF False, of 0 u] tz(2) [OF False] by simp
    then show ?thesis
      using n r2 tz(2) [OF False] False by (simp add: xor_next_def ctzl_def)
  qed
qed

lemma xor_new_at:
  assumes "x \<noteq> 0" "chosen l (ctz x)" "l \<le> clz x" "br.at r (fields_bits (xor_new_window u l (ctz x) x) @ bs)"
  shows "\<exists>r'. xor_nextValue r s = Some (r', s\<lparr>xd_storedLeadingZeros := l, xd_storedTrailingZeros := ctz x,
      xd_storedVal := xd_storedVal s XOR x\<rparr>) \<and> br.at r' bs"
proof -
  let ?c = "64 - l - ctz x" and ?a = "leadingRepresentation ! l" and ?rest = "to_bits (63 - l - ctz x) (shr_u64 u x (ctz x + 1)) @ bs"
  have ch: "l + ctz x \<le> 63" "?a < 8" "leadingRep ! ?a = l" "0 < ?c" "?c \<le> 64" "64 - l - ?c = ctz x"
    using assms(2) by (auto simp: chosen_def)
  show ?thesis
  proof (cases "?c \<le> 16")
    case True
    let ?b = "?c mod 16"
    have "br.at r (to_bits 2 (2 :: u64) @ to_bits 7 (of_nat (?a * 2 ^ 4 + ?b) :: u64) @ ?rest)"
      using assms(4) unfolding new_window_bits [OF assms(2)] if_P [OF True] by (simp only: append_assoc)
    then obtain r1 where r1: "peek r 2 = Some (take_bit 2 2)" "forward r 2 = Some r1" "br.at r1 (to_bits 7 (of_nat (?a * 2 ^ 4 + ?b) :: u64) @ ?rest)"
      by (rule look_skip) simp_all
    from r1(3) obtain r2 where r2: "peek r1 7 = Some (take_bit 7 (of_nat (?a * 2 ^ 4 + ?b)))" "forward r1 7 = Some r2" "br.at r2 ?rest"
      by (rule look_skip) simp_all
    obtain r3 where r3: "read_center r2 l ?c = Some (x, r3)" "br.at r3 bs"
      using read_center_at [OF assms(1,3) ch(1) r2(3)] by blast
    have h: "unat (drop_bit 4 (take_bit 7 (of_nat (?a * 2 ^ 4 + ?b) :: u64))) = ?a"
      "unat (take_bit 4 (take_bit 7 (of_nat (?a * 2 ^ 4 + ?b) :: u64))) = ?b"
      using header_parts [OF ch(2), of ?b 4] by simp_all
    have c: "(if ?b = 0 then 16 else ?b) = ?c" using True ch(4) by (auto simp: mod_if)
    show ?thesis
      unfolding xor_nextValue_def r1(1) Option.bind.simps r1(2) r2(1,2) and_low h c Let_def ch(3)
      using r3 ch(6) by simp
  next
    case False
    let ?b = "?c mod 64"
    have "br.at r (to_bits 2 (3 :: u64) @ to_bits 9 (of_nat (?a * 2 ^ 6 + ?b) :: u64) @ ?rest)"
      using assms(4) unfolding new_window_bits [OF assms(2)] if_not_P [OF False] by (simp only: append_assoc)
    then obtain r1 where r1: "peek r 2 = Some (take_bit 2 3)" "forward r 2 = Some r1" "br.at r1 (to_bits 9 (of_nat (?a * 2 ^ 6 + ?b) :: u64) @ ?rest)"
      by (rule look_skip) simp_all
    from r1(3) obtain r2 where r2: "peek r1 9 = Some (take_bit 9 (of_nat (?a * 2 ^ 6 + ?b)))" "forward r1 9 = Some r2" "br.at r2 ?rest"
      by (rule look_skip) simp_all
    obtain r3 where r3: "read_center r2 l ?c = Some (x, r3)" "br.at r3 bs"
      using read_center_at [OF assms(1,3) ch(1) r2(3)] by blast
    have h: "unat (drop_bit 6 (take_bit 9 (of_nat (?a * 2 ^ 6 + ?b) :: u64))) = ?a"
      "unat (take_bit 6 (take_bit 9 (of_nat (?a * 2 ^ 6 + ?b) :: u64))) = ?b"
      using header_parts [OF ch(2), of ?b 6] by simp_all
    have c: "(if ?b = 0 then 64 else ?b) = ?c" using False ch(4,5) by (auto simp: mod_if)
    show ?thesis
      unfolding xor_nextValue_def r1(1) Option.bind.simps r1(2) r2(1,2) and_low h c Let_def ch(3)
      using r3 ch(6) by simp
  qed
qed

lemma xor_same_at:
  assumes "chosen l t" "in_window l t x" "xd_storedLeadingZeros s = l" "xd_storedTrailingZeros s = t"
    "br.at r (fields_bits (xor_same_window u l t x) @ bs)"
  shows "\<exists>r'. xor_nextValue r s = Some (r', s\<lparr>xd_storedVal := xd_storedVal s XOR x\<rparr>) \<and> br.at r' bs"
proof -
  let ?c = "64 - l - t"
  have "br.at r (to_bits 2 (0 :: u64) @ to_bits ?c (drop_bit t x) @ bs)"
    using assms(5) unfolding same_window_bits [OF assms(1,2)] by (simp only: append_assoc)
  then obtain r1 where r1: "peek r 2 = Some (take_bit 2 0)" "forward r 2 = Some r1" "br.at r1 (to_bits ?c (drop_bit t x) @ bs)"
    by (rule look_skip) simp_all
  have "?c \<le> 64" by simp
  with r1(3) obtain r2 where r2: "readLong r1 ?c = Some (take_bit ?c (drop_bit t x), r2)" "br.at r2 bs"
    using readLong_at by blast
  have "push_bit t (take_bit ?c (drop_bit t x)) = x"
    using window_restores [OF chosen_window [OF assms(1)] assms(2)] .
  moreover have "\<not> (64 < l + t \<or> 64 \<le> t)" using assms(1) by (simp add: chosen_def)
  ultimately show ?thesis
    using r1(1,2) r2 assms(3,4) by (simp add: xor_nextValue_def)
qed

lemma xor_next_at:
  assumes "xor_sim st s" "xor_rec u st v = (fs, st')"
    "xd_first s \<Longrightarrow> v = 0 \<Longrightarrow> 64 \<le> u_ctz0 u \<and> u_ctz0 u < 128" "br.at r (fields_bits fs @ bs)"
  shows "\<exists>r' s'. xor_next r s = Some (r', s') \<and> br.at r' bs \<and> xor_sim st' s' \<and> xd_storedVal s' = v"
proof -
  obtain lead trail stored first where st: "st = (lead, trail, stored, first)" by (cases st)
  have f: "xd_first s = first" using assms(1) by (simp add: st)
  show ?thesis
  proof (cases first)
    case True
    then have "xor_rec u (lead, trail, stored, True) v = (fs, st')" using assms(2) by (simp add: st)
    from xor_first_at [OF _ this assms(3,4)] True f obtain r' where
      "xor_next r s = Some (r', s\<lparr>xd_first := False, xd_storedVal := v\<rparr>)" "br.at r' bs" by auto
    moreover have "st' = (lead, trail, v, False)" using True assms(2) by (auto simp: st)
    ultimately show ?thesis using assms(1) by (auto simp: st)
  next
    case False
    have n: "xor_next r s = xor_nextValue r s" using False f by (simp add: xor_next_def)
    have sim: "xor_sim (lead, trail, stored, False) s" and rec: "xor_rec u (lead, trail, stored, False) v = (fs, st')"
      using assms(1,2) False by (simp_all add: st)
    have val: "xd_storedVal s = stored" "\<not> xd_first s" using sim by auto
    from sim rec show ?thesis
    proof (cases rule: xor_rec_cases)
      case zero
      then have "br.at r (to_bits 2 (1 :: u64) @ bs)" using assms(4) by simp
      then obtain r1 where r1: "peek r 2 = Some (take_bit 2 1)" "forward r 2 = Some r1" "br.at r1 bs"
        by (rule look_skip) simp_all
      then have "xor_nextValue r s = Some (r1, s)" by (simp add: xor_nextValue_def)
      then show ?thesis using n r1(3) sim val zero by auto
    next
      case (same x)
      have "lead \<noteq> nat INT32_MAX" using same(3) by (auto simp: chosen_def INT32_MAX_def)
      then have w: "xd_storedLeadingZeros s = lead" "xd_storedTrailingZeros s = trail" using sim by auto
      from xor_same_at [OF same(3,4) w] assms(4) same(5) obtain r' where
        "xor_nextValue r s = Some (r', s\<lparr>xd_storedVal := xd_storedVal s XOR x\<rparr>)" "br.at r' bs" by blast
      then show ?thesis using n val w same by auto
    next
      case (new x l)
      from xor_new_at [OF new(1,3,4)] assms(4) new(5) obtain r' where
        "xor_nextValue r s = Some (r', s\<lparr>xd_storedLeadingZeros := l, xd_storedTrailingZeros := ctz x,
           xd_storedVal := xd_storedVal s XOR x\<rparr>)" "br.at r' bs" by blast
      then show ?thesis using n val new by auto
    qed
  qed
qed

end
