(* ===== verification/Elf_Decimal.thy ===== *)
theory Elf_Decimal
  imports Elf
begin

text \<open>
  Why erasing bits loses nothing: if a double is the one nearest to \<open>n / 10^a\<close>, cutting the bits below
  \<open>2^-f(a)\<close> keeps the product with \<open>10^a\<close> above \<open>n - 1\<close> and at most \<open>n\<close>, so rounding it up gives \<open>n\<close> back.
  All of it is arithmetic on the integral number of units of \<open>2 ^ -1074\<close>.
\<close>

section \<open>More about rounding\<close>

lemma half_even_scale: "0 < c \<Longrightarrow> half_even (c * p) (c * d) = half_even p d"
  by (simp add: half_even_def Let_def mult_mod_right [symmetric] mult.left_commute [of 2])

lemma round_scale:
  assumes "0 < c"
  shows "round_units (c * p) (c * q) = round_units p q"
proof -
  have s: "scale_of (c * p) (c * q) = scale_of p q" using assms by (simp add: scale_of_def)
  show ?thesis
    unfolding round_units_def s Let_def mult.assoc half_even_scale [OF assms] ..
qed

lemma half_even_le': "0 < d \<Longrightarrow> p \<le> k * d \<Longrightarrow> half_even p d \<le> k"
  using half_even_le [of p k d] half_even_dvd [of d p] by (cases "p = k * d") auto

text \<open>A number of at most 53 bits, shifted.\<close>

lemma round_exact:
  assumes "p = m * 2 ^ s" "m < 2 ^ 53"
  shows "units (raw_round p 1) = p"
proof -
  have "scale_of p 1 \<le> s"
  proof (rule ccontr)
    assume n: "\<not> scale_of p 1 \<le> s"
    then have "1 * 2 ^ (scale_of p 1 + 52) \<le> p" by (intro scale_bounds(2)) simp_all
    moreover have "(2 :: nat) ^ (s + 53) \<le> 2 ^ (scale_of p 1 + 52)" using n by (intro power_increasing) simp_all
    moreover have "p < 2 ^ (s + 53)" unfolding assms(1) using assms(2) by (simp add: power_add mult.commute)
    ultimately show False by linarith
  qed
  then have "2 ^ scale_of p 1 dvd p" unfolding assms(1) by (simp add: le_imp_power_dvd)
  then show ?thesis by (rule raw_round_exact)
qed

lemma raw_round_error:
  assumes "0 < q"
  shows "2 * \<bar>int (q * units (raw_round p q)) - int p\<bar> \<le> int (q * 2 ^ scale_of p q)"
proof -
  let ?e = "scale_of p q"
  let ?m = "half_even p (q * 2 ^ ?e)"
  have "\<bar>real ?m - real p / real (q * 2 ^ ?e)\<bar> \<le> 1 / 2" using assms by (intro half_even_near) simp
  then have "\<bar>real ?m - real p / real (q * 2 ^ ?e)\<bar> * real (q * 2 ^ ?e) \<le> 1 / 2 * real (q * 2 ^ ?e)"
    by (intro mult_right_mono) simp_all
  then have "\<bar>(real ?m - real p / real (q * 2 ^ ?e)) * real (q * 2 ^ ?e)\<bar> \<le> 1 / 2 * real (q * 2 ^ ?e)"
    by (simp add: abs_mult)
  moreover have "(real ?m - real p / real (q * 2 ^ ?e)) * real (q * 2 ^ ?e) = real (q * units (raw_round p q)) - real p"
    using assms by (simp add: units_raw_round field_simps)
  ultimately have "2 * \<bar>real (q * units (raw_round p q)) - real p\<bar> \<le> real (q * 2 ^ ?e)" by simp
  then have "real_of_int (2 * \<bar>int (q * units (raw_round p q)) - int p\<bar>) \<le> real_of_int (int (q * 2 ^ ?e))" by simp
  then show ?thesis by (simp only: of_int_le_iff)
qed

lemma raw_round_scale:
  assumes "0 < q" "2 ^ 52 \<le> raw_round p q"
  shows "scale_of p q \<le> raw_round p q div 2 ^ 52 - 1"
proof (cases "scale_of p q = 0")
  case False
  let ?e = "scale_of p q"
  have "2 ^ 52 \<le> half_even p (q * 2 ^ ?e)"
    using scale_bounds(2) [OF assms(1)] False assms(1) by (intro half_even_ge) (auto simp: power_add ac_simps)
  then have "(?e + 1) * 2 ^ 52 \<le> raw_round p q" by (simp add: raw_round_def)
  then have "?e + 1 \<le> raw_round p q div 2 ^ 52" by (simp add: less_eq_div_iff_mult_less_eq)
  then show ?thesis by simp
qed simp

section \<open>The parts of a normal number\<close>

definition ulp :: "nat \<Rightarrow> nat" where
  "ulp k = 2 ^ (k div 2 ^ 52 - 1)"

lemma ulp_pos [simp]: "0 < ulp k"
  by (simp add: ulp_def)

lemma units_ulp: "2 ^ 52 \<le> k \<Longrightarrow> units k = (2 ^ 52 + k mod 2 ^ 52) * ulp k"
proof -
  assume "2 ^ 52 \<le> k"
  then have "k div 2 ^ 52 \<noteq> 0" by (simp add: div_eq_0_iff)
  then show ?thesis by (simp add: units_def ulp_def Let_def)
qed

lemma units_bounds:
  assumes "2 ^ 52 \<le> k"
  shows "2 ^ 52 * ulp k \<le> units k" "units k < 2 ^ 53 * ulp k"
proof -
  have "k mod 2 ^ 52 < 2 ^ 52" by simp
  then show "2 ^ 52 * ulp k \<le> units k" "units k < 2 ^ 53 * ulp k"
    unfolding units_ulp [OF assms] by (intro mult_le_mono1, simp) (simp only: mult_less_cancel2, simp)
qed

section \<open>Rounding is monotone\<close>

lemma remainder_less:
  fixes r r' d d' :: nat
  assumes "r * d' \<le> r' * d" "2 * r' < d'" "0 < d"
  shows "2 * r < d"
proof -
  have "2 * r * d' \<le> 2 * r' * d" using assms(1) by simp
  also have "\<dots> < d' * d" using assms(2,3) by (rule mult_strict_right_mono)
  finally have "2 * r * d' < d * d'" by (simp only: mult.commute)
  then show ?thesis by (simp only: mult_less_cancel2)
qed

lemma remainder_le:
  fixes r r' d d' :: nat
  assumes "r * d' \<le> r' * d" "2 * r' = d'" "0 < d'"
  shows "2 * r \<le> d"
proof -
  have "2 * r * d' \<le> 2 * r' * d" using assms(1) by simp
  then have "2 * r * d' \<le> d * d'" unfolding assms(2) by (simp only: mult.commute)
  then show ?thesis using assms(3) by (simp only: mult_le_cancel2)
qed

lemma half_even_mono:
  assumes "0 < d" "0 < d'" "p * d' \<le> p' * d"
  shows "half_even p d \<le> half_even p' d'"
proof -
  let ?k = "p div d" and ?k' = "p' div d'" and ?r = "p mod d" and ?r' = "p' mod d'"
  have p: "p = ?k * d + ?r" "p' = ?k' * d' + ?r'" by simp_all
  have r: "?r < d" "?r' < d'" using assms by simp_all
  have "?k * d * d' \<le> p * d'" by (simp add: div_times_less_eq_dividend)
  also have "\<dots> \<le> p' * d" by (rule assms(3))
  finally have "?k * d' * d \<le> p' * d" by (simp only: ac_simps)
  then have "?k * d' \<le> p'" using assms(1) by simp
  then have kk: "?k \<le> ?k'" using assms(2) by (simp add: less_eq_div_iff_mult_less_eq)
  show ?thesis
  proof (cases "?k = ?k'")
    case True
    have "(?k * d + ?r) * d' \<le> (?k' * d' + ?r') * d" using assms(3) by (simp only: p [symmetric])
    moreover have "(k * d + r) * d' \<le> (k * d' + r') * d \<Longrightarrow> r * d' \<le> r' * d" for k r r' :: nat
      by (simp add: algebra_simps)
    ultimately have rr: "?r * d' \<le> ?r' * d" unfolding True by blast
    note lt = remainder_less [OF rr _ assms(1)] and le = remainder_le [OF rr _ assms(2)]
    show ?thesis using lt le True by (auto simp: half_even_def Let_def)
  next
    case False
    then have "?k + 1 \<le> ?k'" using kk by simp
    moreover have "half_even p d \<le> ?k + 1" "?k' \<le> half_even p' d'" by (simp_all add: half_even_def Let_def)
    ultimately show ?thesis by linarith
  qed
qed

lemma scale_mono:
  assumes "0 < q" "0 < q'" "p * q' \<le> p' * q"
  shows "scale_of p q \<le> scale_of p' q'"
proof -
  have "p div q * q * q' \<le> p * q'" by (simp add: div_times_less_eq_dividend)
  also have "\<dots> \<le> p' * q" by (rule assms(3))
  finally have "p div q * q' * q \<le> p' * q" by (simp only: ac_simps)
  then have "p div q \<le> p' div q'" using assms(1,2) by (simp add: less_eq_div_iff_mult_less_eq)
  then show ?thesis unfolding scale_of_def by (intro diff_le_mono floorlog_mono)
qed

lemma raw_round_mono:
  assumes "0 < q" "0 < q'" "p * q' \<le> p' * q"
  shows "raw_round p q \<le> raw_round p' q'"
proof -
  let ?e = "scale_of p q" and ?e' = "scale_of p' q'"
  have e: "?e \<le> ?e'" by (rule scale_mono [OF assms])
  show ?thesis
  proof (cases "?e = ?e'")
    case True
    have "half_even p (q * 2 ^ ?e) \<le> half_even p' (q' * 2 ^ ?e)"
      using assms mult_le_mono1 [OF assms(3), of "2 ^ ?e"] by (intro half_even_mono) (simp_all add: ac_simps)
    then show ?thesis by (simp add: raw_round_def True)
  next
    case False
    have "half_even p (q * 2 ^ ?e) \<le> 2 ^ 53"
      using scale_bounds(1) [OF assms(1), of p] by (intro half_even_le) (simp add: power_add ac_simps)
    moreover have "2 ^ 52 \<le> half_even p' (q' * 2 ^ ?e')"
      using scale_bounds(2) [OF assms(2), of p'] False e assms(2) by (intro half_even_ge) (auto simp: power_add ac_simps)
    moreover have "(?e + 1) * 2 ^ 52 \<le> ?e' * 2 ^ 52" using False e by (intro mult_le_mono1) simp
    ultimately show ?thesis unfolding raw_round_def by simp
  qed
qed

lemma round_units_mono: "0 < q \<Longrightarrow> 0 < q' \<Longrightarrow> p * q' \<le> p' * q \<Longrightarrow> round_units p q \<le> round_units p' q'"
  using raw_round_mono [of q q' p p'] by (simp add: round_units_raw)

lemma scale_of_exact: "2 ^ 52 \<le> m \<Longrightarrow> m < 2 ^ 53 \<Longrightarrow> scale_of (m * 2 ^ s) 1 = s"
proof -
  assume m: "2 ^ 52 \<le> m" "m < 2 ^ 53"
  then have "floorlog 2 m \<le> 53" by (intro floorlog_leI) simp_all
  moreover have "53 \<le> floorlog 2 m" using m by (intro floorlog_geI) simp_all
  ultimately have "floorlog 2 (m * 2 ^ s) = s + 53" using m by simp
  then show ?thesis by (simp add: scale_of_def)
qed

lemma raw_round_units [simp]: "raw_round (units k) 1 = k"
proof (cases "k < 2 ^ 52")
  case True
  have u: "units k = k" using True by (simp add: units_def)
  have "scale_of k 1 = 0"
  proof (rule ccontr)
    assume "scale_of k 1 \<noteq> 0"
    then have "2 ^ (scale_of k 1 + 52) \<le> k" using scale_bounds(2) [of 1 k] by simp
    moreover have "(2 :: nat) ^ 52 \<le> 2 ^ (scale_of k 1 + 52)" by (intro power_increasing) simp_all
    ultimately show False using True by linarith
  qed
  then show ?thesis by (simp add: u raw_round_def half_even_dvd)
next
  case False
  let ?m = "2 ^ 52 + k mod 2 ^ 52" and ?s = "k div 2 ^ 52 - 1"
  have u: "units k = ?m * 2 ^ ?s" using units_ulp [of k] False by (simp add: ulp_def)
  have "k mod 2 ^ 52 < 2 ^ 52" by simp
  moreover have "x < 2 ^ 52 \<Longrightarrow> 2 ^ 52 \<le> 2 ^ 52 + x \<and> 2 ^ 52 + x < 2 ^ 53" for x :: nat by simp
  ultimately have m: "2 ^ 52 \<le> ?m" "?m < 2 ^ 53" by blast+
  have s: "scale_of (?m * 2 ^ ?s) 1 = ?s" using m by (rule scale_of_exact)
  have "1 \<le> k div 2 ^ 52" using False by (simp add: less_eq_div_iff_mult_less_eq)
  then have "?s * 2 ^ 52 + ?m = k div 2 ^ 52 * 2 ^ 52 + k mod 2 ^ 52" by (simp add: diff_mult_distrib)
  also have "\<dots> = k" by (rule div_mult_mod_eq)
  finally show ?thesis unfolding u raw_round_def s by (simp add: half_even_dvd)
qed

lemma units_le_iff [simp]: "units k \<le> units k' \<longleftrightarrow> k \<le> k'"
proof -
  have a: "units k \<le> units k' \<Longrightarrow> k \<le> k'" for k k' using raw_round_mono [of 1 1 "units k" "units k'"] by (simp del: One_nat_def)
  show ?thesis
  proof
    assume "k \<le> k'"
    show "units k \<le> units k'"
    proof (rule ccontr)
      assume n: "\<not> units k \<le> units k'"
      then have "k' \<le> k" by (simp add: a)
      then show False using n \<open>k \<le> k'\<close> by simp
    qed
  qed (rule a)
qed

lemma units_less_iff [simp]: "units k < units k' \<longleftrightarrow> k < k'"
  using units_le_iff [of k' k] by (simp only: not_le [symmetric] units_le_iff)

section \<open>Decimal fractions\<close>

text \<open>\<open>decimal n a k\<close>: the pattern \<open>k\<close> is the result of \<open>n / 10^a\<close>.\<close>

definition decimal :: "nat \<Rightarrow> nat \<Rightarrow> nat \<Rightarrow> bool" where
  "decimal n a k \<longleftrightarrow> round_units (n * one_units) (10 ^ a) = k"

lemma decimal_error:
  assumes "decimal n a k" "2 ^ 52 \<le> k" "k < inf_mag"
  shows "2 * \<bar>int (10 ^ a * units k) - int (n * one_units)\<bar> \<le> int (10 ^ a * ulp k)"
proof -
  let ?p = "n * one_units" and ?q = "10 ^ a :: nat"
  have k: "raw_round ?p ?q = k" using assms(1,3) by (auto simp: decimal_def round_units_raw min_def split: if_splits)
  have "scale_of ?p ?q \<le> k div 2 ^ 52 - 1" using raw_round_scale [of ?q ?p] assms(2) k by simp
  then have "(2 :: nat) ^ scale_of ?p ?q \<le> ulp k" unfolding ulp_def by (rule power_increasing) simp
  then have "int (?q * 2 ^ scale_of ?p ?q) \<le> int (?q * ulp k)" by (simp only: of_nat_le_iff mult_le_mono2)
  moreover have "0 < ?q" by simp
  ultimately show ?thesis using raw_round_error [of ?q ?p, unfolded k] by linarith
qed

lemma decimal_shift: "decimal (n * 10 ^ t) (a + t) k \<longleftrightarrow> decimal n a k"
proof -
  have "round_units (n * 10 ^ t * one_units) (10 ^ (a + t)) = round_units (10 ^ t * (n * one_units)) (10 ^ t * 10 ^ a)"
    by (simp add: power_add ac_simps)
  also have "\<dots> = round_units (n * one_units) (10 ^ a)" by (rule round_scale) simp
  finally show ?thesis by (simp add: decimal_def)
qed

section \<open>Erasing bits\<close>

lemma units_erase:
  assumes "2 ^ 52 \<le> k" "e \<le> 52"
  defines "d \<equiv> k mod 2 ^ e"
  shows "2 ^ 52 \<le> k - d" "(k - d) div 2 ^ 52 = k div 2 ^ 52" "ulp (k - d) = ulp k" "units (k - d) + d * ulp k = units k"
proof -
  let ?m = "2 ^ e :: nat"
  have p: "(2 :: nat) ^ 52 = ?m * 2 ^ (52 - e)" unfolding power_add [symmetric] using assms(2) by simp
  have kd: "k - d = k div ?m * ?m" by (simp add: d_def minus_mod_eq_div_mult)
  show div: "(k - d) div 2 ^ 52 = k div 2 ^ 52" unfolding kd p by (simp add: div_mult2_eq)
  show "ulp (k - d) = ulp k" by (simp only: ulp_def div)
  have "1 \<le> k div 2 ^ 52" using assms(1) by (simp add: less_eq_div_iff_mult_less_eq)
  then have "1 \<le> (k - d) div 2 ^ 52" by (simp only: div)
  then show big: "2 ^ 52 \<le> k - d" by (simp add: less_eq_div_iff_mult_less_eq)
  have "d \<le> k" by (simp add: d_def)
  moreover have "k = 2 ^ 52 * (k div 2 ^ 52) + k mod 2 ^ 52" "k - d = 2 ^ 52 * ((k - d) div 2 ^ 52) + (k - d) mod 2 ^ 52"
    by (rule mult_div_mod_eq [symmetric])+
  ultimately have "(k - d) mod 2 ^ 52 + d = k mod 2 ^ 52" unfolding div by linarith
  then show "units (k - d) + d * ulp k = units k"
    unfolding units_ulp [OF big] units_ulp [OF assms(1)] \<open>ulp (k - d) = ulp k\<close> by (metis add.assoc distrib_right)
qed

lemma erase_arith:
  fixes A B C W G N :: nat
  assumes "2 * \<bar>int A - int N\<bar> \<le> int W" "A = B + C" "W \<le> C" "C + W \<le> G" "0 < W"
  shows "B \<le> N" "N \<le> B + G"
proof -
  have "2 * int A \<le> 2 * int N + int W" "2 * int N \<le> 2 * int A + int W"
    using assms(1) by (simp_all add: abs_if split: if_splits)
  moreover have "int A = int B + int C" "int W \<le> int C" "int C + int W \<le> int G" "0 < int W"
    using assms(2-5) by simp_all
  ultimately have "int B \<le> int N" "int N \<le> int B + int G" by linarith+
  then show "B \<le> N" "N \<le> B + G" by simp_all
qed

lemma erase_arith_low:
  fixes B G N R S U :: nat
  assumes "N \<le> B + G" "1024 * G \<le> 1000 * U" "2 * \<bar>int R - int B\<bar> \<le> int S" "32 * S \<le> U" "0 < U"
  shows "int N - int U < int R"
proof -
  have "2 * int B \<le> 2 * int R + int S" using assms(3) by (simp add: abs_if split: if_splits)
  moreover have "int N \<le> int B + int G" "1024 * int G \<le> 1000 * int U" "32 * int S \<le> int U" "0 < int U"
    using assms(1,2,4,5) by simp_all
  ultimately show ?thesis by linarith
qed

text \<open>The product of the cut value with \<open>10^a\<close> lies in the last unit interval below \<open>n\<close>.\<close>

lemma erase_bounds:
  assumes "2 ^ 52 \<le> k" "k < inf_mag" "decimal n a k" "5 \<le> e" "e \<le> 52" "k mod 2 ^ e \<noteq> 0"
    "2 ^ e * ulp k * 2 ^ F = one_units" "1024 * 10 ^ a \<le> (1000 * 2 ^ F :: nat)"
  defines "p \<equiv> 10 ^ a * units (k - k mod 2 ^ e)" and "H \<equiv> 10 ^ a * (2 ^ e * ulp k)"
  shows "p \<le> n * one_units" "n * one_units \<le> p + H" "1024 * H \<le> 1000 * one_units" "p < 2 ^ 48 * one_units"
proof -
  define P :: nat where "P = 10 ^ a"
  define d where "d = k mod 2 ^ e"
  define G where "G = 2 ^ e * ulp k"
  let ?U = one_units and ?w = "ulp k" and ?u = "units k" and ?v = "units (k - d)"
  have pv: "p = P * ?v" "H = P * G" by (simp_all add: p_def H_def P_def G_def d_def)
  have P: "0 < P" by (simp add: P_def)
  have d: "1 \<le> d" "d < 2 ^ e" using assms(6) by (auto simp: d_def)
  have u: "?v + d * ?w = ?u" using units_erase(4) [OF assms(1,5)] by (simp add: d_def)
  have dw: "?w \<le> d * ?w" "d * ?w + ?w \<le> G"
    using d mult_le_mono1 [of "d + 1" "2 ^ e" ?w] by (simp_all add: G_def)
  have U: "?U = G * 2 ^ F" using assms(7) by (simp add: G_def)
  have "P * G * 1024 \<le> 1000 * 2 ^ F * G"
    using mult_le_mono1 [OF assms(8), of G] by (simp add: P_def ac_simps)
  then have PG: "1024 * (P * G) \<le> 1000 * ?U" by (simp add: U ac_simps)
  then show "1024 * H \<le> 1000 * ?U" by (simp only: pv)
  have near: "2 * \<bar>int (P * ?u) - int (n * ?U)\<bar> \<le> int (P * ?w)"
    using decimal_error [OF assms(3,1,2)] by (simp only: P_def)
  have Pu: "P * ?u = P * ?v + P * (d * ?w)" unfolding u [symmetric] by (rule distrib_left)
  have Pd: "P * ?w \<le> P * (d * ?w)" "P * (d * ?w) + P * ?w \<le> P * G" "0 < P * ?w"
    using mult_le_mono2 [OF dw(1), of P] mult_le_mono2 [OF dw(2), of P] P by (simp_all add: distrib_left)
  show "p \<le> n * ?U" "n * ?U \<le> p + H" using erase_arith [OF near Pu Pd] by (simp_all only: pv)
  have "(2 :: nat) ^ 5 \<le> 2 ^ e" using assms(4) by (intro power_increasing) simp_all
  then have "32 * ?w \<le> G" unfolding G_def by (intro mult_le_mono1) simp
  then have "?u < 2 ^ 48 * G" using units_bounds(2) [OF assms(1)] by simp
  then have "P * ?u < P * (2 ^ 48 * G)" using P by (simp only: mult_less_cancel1)
  moreover have "P * G \<le> ?U" using PG by linarith
  then have "2 ^ 48 * (P * G) \<le> 2 ^ 48 * ?U" by (rule mult_le_mono2)
  then have "P * (2 ^ 48 * G) \<le> 2 ^ 48 * ?U" by (simp only: mult.left_commute)
  ultimately show "p < 2 ^ 48 * ?U" using Pu unfolding pv by linarith
qed

text \<open>So does the rounded product.\<close>

lemma erase_product:
  fixes p n H :: nat
  assumes "p \<le> n * one_units" "n * one_units \<le> p + H" "1024 * H \<le> 1000 * one_units" "p < 2 ^ 48 * one_units"
  shows "units (raw_round p 1) \<le> n * one_units" "int n * int one_units - int one_units < int (units (raw_round p 1))"
    "n < 2 ^ 53"
proof -
  let ?U = one_units
  have Upow: "2 ^ 48 * ?U = 2 ^ 1122" unfolding one_units_def by (simp only: flip: power_add) simp
  let ?s = "scale_of p 1"
  have s: "?s \<le> 1069"
  proof (rule ccontr)
    assume ns: "\<not> ?s \<le> 1069"
    then have "1 * 2 ^ (?s + 52) \<le> p" by (intro scale_bounds(2)) simp_all
    moreover have "(2 :: nat) ^ 1122 \<le> 2 ^ (?s + 52)" using ns by (intro power_increasing) simp_all
    ultimately show False using assms(4) Upow by linarith
  qed
  then have "?s \<le> 1074" by simp
  then have "2 ^ ?s dvd ?U" unfolding one_units_def by (rule le_imp_power_dvd)
  then obtain c where c: "?U = 2 ^ ?s * c" by (rule dvdE)
  have nU: "n * ?U = n * c * 2 ^ ?s" by (subst c) (simp add: ac_simps)
  have "p \<le> n * c * 2 ^ ?s" using assms(1) unfolding nU .
  then have "half_even p (1 * 2 ^ ?s) \<le> n * c" by (intro half_even_le') simp_all
  then have "half_even p (1 * 2 ^ ?s) * 2 ^ ?s \<le> n * c * 2 ^ ?s" by (rule mult_le_mono1)
  then show "units (raw_round p 1) \<le> n * ?U" unfolding nU by (simp add: units_raw_round)
  have "32 * 2 ^ ?s \<le> ?U"
  proof -
    have "(2 :: nat) ^ (5 + ?s) \<le> 2 ^ 1074" using s by (intro power_increasing) simp_all
    then show ?thesis by (simp add: power_add one_units_def)
  qed
  moreover have "2 * \<bar>int (units (raw_round p 1)) - int p\<bar> \<le> int (2 ^ ?s)" using raw_round_error [of 1 p] by simp
  ultimately show "int n * int ?U - int ?U < int (units (raw_round p 1))"
    using erase_arith_low [OF assms(2,3), of "units (raw_round p 1)" "2 ^ ?s"] by simp
  have "n * ?U < 2 ^ 48 * ?U + ?U" using assms(2-4) by linarith
  also have "\<dots> \<le> 2 ^ 53 * ?U" by simp
  finally show "n < 2 ^ 53" by (simp only: mult_less_cancel2)
qed

end
