(* ===== verification/Elf_Digits.thy ===== *)
theory Elf_Digits
  imports Elf_Decimal
begin

text \<open>
  The digits of a value: the tables of powers of ten, the position of the first digit that \<open>getSP\<close> finds, and the
  number of digits that \<open>getSignificantCount\<close> finds, with the termination of its loops.
\<close>

section \<open>Powers of ten\<close>

text \<open>Up to \<open>10^22\<close> powers of ten are doubles.\<close>

lemma pow10_facts:
  assumes "i \<le> 22"
  shows "units (mag (pow10 i)) = 10 ^ i * one_units" "f64_finite (pow10 i)" "\<not> neg (pow10 i)"
    "mag (pow10 i) = round_units (10 ^ i * one_units) 1"
proof -
  let ?p = "10 ^ i * one_units :: nat"
  have "(10 :: nat) ^ i = 5 ^ i * 2 ^ i" by (simp flip: power_mult_distrib)
  then have p: "?p = 5 ^ i * 2 ^ (i + 1074)" by (simp add: one_units_def power_add)
  have "(5 :: nat) ^ i \<le> 5 ^ 22" using assms by (intro power_increasing) simp_all
  then have "(5 :: nat) ^ i < 2 ^ 53" by simp
  from round_exact [OF p this] have u: "units (raw_round ?p 1) = ?p" .
  have "(10 :: nat) ^ i \<le> 10 ^ 22" using assms by (intro power_increasing) simp_all
  also have "(10 :: nat) ^ 22 < 2 ^ 1023" by simp
  finally have "?p < 2 ^ 1023 * one_units" by (simp only: mult_less_cancel2 one_units_pos simp_thms)
  then have "?p < 1 * 2 ^ 2097" unfolding one_units_def by (simp only: mult_1 flip: power_add) simp
  then have fin: "raw_round ?p 1 < inf_mag" by (rule raw_round_finite [rotated]) simp
  then have r: "round_units ?p 1 = raw_round ?p 1" by (simp add: round_units_raw)
  have lt: "raw_round ?p 1 < 2 ^ 63" using round_units_less [of ?p 1] by (simp only: r)
  have "nat \<bar>10 ^ i :: int\<bar> = 10 ^ i" by (simp add: nat_power_eq)
  then have eq: "pow10 i = pack False (raw_round ?p 1)" by (simp add: pow10_def f64_of_int_def nat_power_eq r del: One_nat_def)
  show "units (mag (pow10 i)) = ?p" "f64_finite (pow10 i)" "\<not> neg (pow10 i)" "mag (pow10 i) = round_units ?p 1"
    unfolding eq f64_finite_def mag_pack [OF lt] neg_pack [OF lt] r by (simp_all only: u fin simp_thms)
qed

lemma lit_1_pow10: "lit_1 = pow10 0"
proof -
  have "val lit_1 = real (units (mag lit_1)) / real one_units" by (simp add: val_def sunits_def lit_1_val(3))
  then have "real (units (mag lit_1)) = real one_units" using lit_1_val(2) by (simp add: field_simps)
  then have "units (mag lit_1) = units (mag (pow10 0))" using pow10_facts(1) [of 0] by simp
  then have "mag lit_1 = mag (pow10 0)" by (simp add: eq_iff)
  then show ?thesis using lit_1_val(3) pow10_facts(3) [of 0] pack_mag [of lit_1] pack_mag [of "pow10 0"] by simp
qed

lemma mul_pow10:
  assumes "f64_finite x" "i \<le> 22"
  shows "f64_mul x (pow10 i) = pack (neg x) (round_units (10 ^ i * units (mag x)) 1)"
proof -
  have "units (mag x) * (10 ^ i * one_units) = one_units * (10 ^ i * units (mag x))" by (simp only: ac_simps)
  then have "round_units (units (mag x) * (10 ^ i * one_units)) (one_units * 1) = round_units (10 ^ i * units (mag x)) 1"
    by (simp only: round_scale one_units_pos)
  then show ?thesis
    using finite_cases [OF assms(1)] finite_cases [OF pow10_facts(2) [OF assms(2)]] pow10_facts(1,3) [OF assms(2)]
    by (simp add: f64_mul_def)
qed

lemma div_pow10:
  assumes "f64_finite x" "i \<le> 22"
  shows "f64_div x (pow10 i) = pack (neg x) (round_units (units (mag x)) (10 ^ i))"
proof -
  have "units (mag x) * one_units = one_units * units (mag x)" "10 ^ i * one_units = one_units * 10 ^ i"
    by (simp_all only: ac_simps)
  then have "round_units (units (mag x) * one_units) (10 ^ i * one_units) = round_units (units (mag x)) (10 ^ i)"
    by (simp only: round_scale one_units_pos)
  moreover have "mag (pow10 i) \<noteq> 0" using pow10_facts(1) [OF assms(2)] units_pos [of "mag (pow10 i)"] by simp
  ultimately show ?thesis
    using finite_cases [OF assms(1)] finite_cases [OF pow10_facts(2) [OF assms(2)]] pow10_facts(1,3) [OF assms(2)]
    by (simp add: f64_div_def)
qed

section \<open>The position of the first digit\<close>

text \<open>The double nearest to \<open>10^s\<close>.\<close>

definition ten_mag :: "int \<Rightarrow> nat" where
  "ten_mag s = round_units (10 ^ nat s * one_units) (10 ^ nat (- s))"

lemma ten_mag_mono: "s \<le> s' \<Longrightarrow> ten_mag s \<le> ten_mag s'"
proof -
  assume le: "s \<le> s'"
  have "(10 :: nat) ^ (nat s + nat (- s')) \<le> 10 ^ (nat s' + nat (- s))" using le by (intro power_increasing) simp_all
  then have "10 ^ nat s * 10 ^ nat (- s') \<le> (10 ^ nat s' * 10 ^ nat (- s) :: nat)" by (simp add: power_add)
  then have "10 ^ nat s * 10 ^ nat (- s') * one_units \<le> 10 ^ nat s' * 10 ^ nat (- s) * one_units" by (rule mult_le_mono1)
  then show ?thesis unfolding ten_mag_def by (intro round_units_mono) (simp_all add: ac_simps)
qed

lemma ten_mag_pow10: "i \<le> 22 \<Longrightarrow> mag (pow10 i) = ten_mag (int i)"
  using pow10_facts(4) [of i] by (simp add: ten_mag_def)

lemma ten_mag_units: "i \<le> 22 \<Longrightarrow> units (ten_mag (int i)) = 10 ^ i * one_units"
  using pow10_facts(1) [of i] by (simp add: ten_mag_pow10)

lemma round_pow10_finite: "round_units one_units (10 ^ i) < inf_mag"
proof -
  have "round_units one_units (10 ^ i) \<le> round_units one_units 1" by (rule round_units_mono) simp_all
  also have "round_units one_units 1 < inf_mag" using pow10_facts(2,4) [of 0] by (simp add: f64_finite_def)
  finally show ?thesis .
qed

lemma pow10_neg_facts:
  assumes "i \<le> 22"
  shows "mag (pow10_neg i) = ten_mag (- int i)" "f64_finite (pow10_neg i)" "\<not> neg (pow10_neg i)"
    "pow10_neg i = pack False (ten_mag (- int i))"
proof -
  have "units (mag lit_1) = one_units" using pow10_facts(1) [of 0] by (simp add: lit_1_pow10)
  then have eq: "pow10_neg i = pack False (round_units one_units (10 ^ i))"
    using div_pow10 [OF lit_1_val(1) assms] lit_1_val(3) by (simp add: pow10_neg_def)
  note lt = round_units_less [of one_units "10 ^ i"]
  show "mag (pow10_neg i) = ten_mag (- int i)" "f64_finite (pow10_neg i)" "\<not> neg (pow10_neg i)"
    "pow10_neg i = pack False (ten_mag (- int i))"
    unfolding f64_finite_def eq mag_pack [OF lt] neg_pack [OF lt] using round_pow10_finite [of i]
    by (simp_all add: ten_mag_def)
qed

text \<open>Comparisons of doubles that are not negative are comparisons of patterns.\<close>

lemma lt_mag: "f64_finite x \<Longrightarrow> f64_finite y \<Longrightarrow> \<not> neg x \<Longrightarrow> \<not> neg y \<Longrightarrow> f64_lt x y \<longleftrightarrow> mag x < mag y"
  using finite_cases [of x] finite_cases [of y] by (simp add: f64_lt_def sunits_def)

lemma le_mag: "f64_finite x \<Longrightarrow> f64_finite y \<Longrightarrow> \<not> neg x \<Longrightarrow> \<not> neg y \<Longrightarrow> f64_le x y \<longleftrightarrow> mag x \<le> mag y"
  using finite_cases [of x] finite_cases [of y] by (simp add: f64_le_def sunits_def)

lemma eq_mag: "f64_finite x \<Longrightarrow> f64_finite y \<Longrightarrow> \<not> neg x \<Longrightarrow> \<not> neg y \<Longrightarrow> f64_eq x y \<longleftrightarrow> mag x = mag y"
  using finite_cases [of x] finite_cases [of y] by (auto simp: f64_eq_def sunits_def eq_iff)

lemma sp_greater1_eq:
  assumes "f64_finite x" "\<not> neg x" "i < 9" "ten_mag (int i) \<le> mag x" "mag x < ten_mag (int i + 1)"
  shows "sp_greater1 x = Some i"
proof -
  have lt: "f64_lt x (mapSPGreater1 ! (j + 1)) \<longleftrightarrow> mag x < ten_mag (int j + 1)" if "j < 9" for j
    using that assms(1,2) pow10_facts(2,3) [of "j + 1"] ten_mag_pow10 [of "j + 1"]
    by (simp add: mapSPGreater1_def lt_mag ac_simps)
  have "\<not> mag x < ten_mag (int j + 1)" if "j < i" for j
    using that assms(4) ten_mag_mono [of "int j + 1" "int i"] by simp
  then show ?thesis
    unfolding sp_greater1_def find_Some_iff using assms(3,5) lt
    by (intro exI [of _ i]) (auto simp: mapSPGreater1_def)
qed

lemma sp_less1_eq:
  assumes "f64_finite x" "\<not> neg x" "1 \<le> i" "i < 11" "ten_mag (- int i) \<le> mag x" "mag x < ten_mag (1 - int i)"
  shows "sp_less1 x = Some i"
proof -
  have le: "f64_le (mapSPLess1 ! j) x \<longleftrightarrow> ten_mag (- int j) \<le> mag x" if "j < 11" for j
    using that assms(1,2) pow10_neg_facts(1-3) [of j] by (simp add: mapSPLess1_def le_mag)
  have "\<not> ten_mag (- int (Suc j)) \<le> mag x" if "j < i - 1" for j
  proof -
    have "1 - int i \<le> - int (Suc j)" using that by linarith
    then show ?thesis using assms(6) ten_mag_mono [of "1 - int i" "- int (Suc j)"] by linarith
  qed
  then show ?thesis
    unfolding sp_less1_def find_Some_iff using assms(3,4,5) le
    by (intro exI [of _ "i - 1"]) (auto simp: mapSPLess1_def)
qed

text \<open>\<open>first_digit s k\<close>: the first digit of the magnitude \<open>k\<close> is that of \<open>10^s\<close>.\<close>

definition first_digit :: "int \<Rightarrow> nat \<Rightarrow> bool" where
  "first_digit s k \<longleftrightarrow> ten_mag s \<le> k \<and> k < ten_mag (s + 1)"

lemma first_digit_exists:
  assumes "ten_mag a \<le> k" "k < ten_mag b"
  obtains s where "a \<le> s" "s < b" "first_digit s k"
proof -
  have ab: "a < b" using ten_mag_mono [of b a] assms by (meson leD leI order_trans)
  have "k < ten_mag b \<longrightarrow> (\<exists>s. a \<le> s \<and> s < b \<and> first_digit s k)"
    using ab
  proof (rule int_gr_induct)
    show "k < ten_mag (a + 1) \<longrightarrow> (\<exists>s. a \<le> s \<and> s < a + 1 \<and> first_digit s k)"
      using assms(1) by (auto simp: first_digit_def intro!: exI [of _ a])
  next
    fix b
    assume *: "a < b" "k < ten_mag b \<longrightarrow> (\<exists>s. a \<le> s \<and> s < b \<and> first_digit s k)"
    show "k < ten_mag (b + 1) \<longrightarrow> (\<exists>s. a \<le> s \<and> s < b + 1 \<and> first_digit s k)"
    proof (cases "k < ten_mag b")
      case True
      with *(2) obtain s where "a \<le> s" "s < b" "first_digit s k" by blast
      then show ?thesis by (intro impI exI [of _ s]) simp
    next
      case False
      then show ?thesis using *(1) by (intro impI exI [of _ b]) (simp add: first_digit_def)
    qed
  qed
  then show thesis using assms(2) that by blast
qed

lemma not_below_one: "f64_finite x \<Longrightarrow> \<not> neg x \<Longrightarrow> f64_le lit_1 x \<longleftrightarrow> ten_mag 0 \<le> mag x"
  using le_mag [OF lit_1_val(1) _ lit_1_val(3)] ten_mag_pow10 [of 0] by (simp add: lit_1_pow10)

lemma first_digit_sign: "first_digit s k \<Longrightarrow> ten_mag 0 \<le> k \<longleftrightarrow> 0 \<le> s"
  using ten_mag_mono [of 0 s] ten_mag_mono [of "s + 1" 0] by (cases "0 \<le> s") (auto simp: first_digit_def)

lemma getSP_eq:
  assumes "f64_finite x" "\<not> neg x" "first_digit s (mag x)" "- 10 \<le> s" "s \<le> 8"
  shows "getSP m x = Some s"
proof (cases "0 \<le> s")
  case True
  then have "sp_greater1 x = Some (nat s)"
    using assms by (intro sp_greater1_eq) (simp_all add: first_digit_def)
  then show ?thesis
    using True first_digit_sign [OF assms(3)] assms(1,2) by (simp add: getSP_def not_below_one)
next
  case False
  then have "sp_less1 x = Some (nat (- s))"
    using assms by (intro sp_less1_eq) (simp_all add: first_digit_def ac_simps)
  then show ?thesis
    using False first_digit_sign [OF assms(3)] assms(1,2) by (simp add: getSP_def not_below_one)
qed

lemma getSPAnd10iNFlag_eq:
  assumes "f64_finite x" "\<not> neg x" "first_digit s (mag x)" "- 10 \<le> s" "s \<le> 8"
  shows "getSPAnd10iNFlag m junk x = Some (s, if 0 \<le> s then junk else if mag x = ten_mag s then 1 else 0)"
proof (cases "0 \<le> s")
  case True
  then have "sp_greater1 x = Some (nat s)"
    using assms by (intro sp_greater1_eq) (simp_all add: first_digit_def)
  then show ?thesis
    using True first_digit_sign [OF assms(3)] assms(1,2) by (simp add: getSPAnd10iNFlag_def not_below_one)
next
  case False
  then have sp: "sp_less1 x = Some (nat (- s))"
    using assms by (intro sp_less1_eq) (simp_all add: first_digit_def ac_simps)
  have "f64_eq x (mapSPLess1 ! nat (- s)) \<longleftrightarrow> mag x = ten_mag s"
    using False assms(1,2,4) pow10_neg_facts(1-3) [of "nat (- s)"] by (simp add: mapSPLess1_def eq_mag)
  then show ?thesis
    using sp False first_digit_sign [OF assms(3)] assms(1,2) by (simp add: getSPAnd10iNFlag_def not_below_one)
qed

section \<open>Sizes\<close>

lemma decimal_normal:
  assumes "decimal n a k" "0 < n" "a \<le> 22"
  shows "2 ^ 52 \<le> k"
proof -
  have "(10 :: nat) ^ a \<le> 10 ^ 22" using assms(3) by (intro power_increasing) simp_all
  then have "2 ^ 52 * 10 ^ a \<le> 2 ^ 52 * (10 ^ 22 :: nat)" by (rule mult_le_mono2)
  also have "\<dots> \<le> one_units" unfolding one_units_def by simp
  also have "\<dots> \<le> n * one_units" using assms(2) by simp
  finally have "raw_round (2 ^ 52) 1 \<le> raw_round (n * one_units) (10 ^ a)" by (intro raw_round_mono) simp_all
  moreover have "units (2 ^ 52) = 2 ^ 52" by (simp add: units_def)
  then have "raw_round (2 ^ 52) 1 = 2 ^ 52" by (metis raw_round_units)
  ultimately have "min inf_mag (2 ^ 52) \<le> k" using assms(1) unfolding decimal_def round_units_raw by linarith
  then show ?thesis by (simp add: inf_mag_def)
qed

lemma decimal_close:
  assumes "decimal n a k" "0 < n" "a \<le> 22" "k < inf_mag"
  shows "2 ^ 53 * (n * one_units) \<le> (2 ^ 53 + 1) * (10 ^ a * units k)" "10 ^ a * units k \<le> 2 * (n * one_units)"
proof -
  have n: "2 ^ 52 \<le> k" by (rule decimal_normal [OF assms(1-3)])
  define A N W where "A = 10 ^ a * units k" and "N = n * one_units" and "W = 10 ^ a * ulp k"
  have "int (2 ^ 52 * W) \<le> int A" unfolding of_nat_le_iff using mult_le_mono2 [OF units_bounds(1) [OF n], of "10 ^ a"] by (simp add: A_def W_def ac_simps)
  moreover have "2 * \<bar>int A - int N\<bar> \<le> int W" using decimal_error [OF assms(1) n assms(4)] by (simp only: A_def N_def W_def)
  then have "2 * int A \<le> 2 * int N + int W" "2 * int N \<le> 2 * int A + int W" by (simp_all add: abs_if split: if_splits)
  moreover have "int (2 ^ 53 * N) = 9007199254740992 * int N" "int ((2 ^ 53 + 1) * A) = 9007199254740993 * int A"
    "int (2 * N) = 2 * int N" "int (2 ^ 52 * W) = 4503599627370496 * int W"
    by simp_all
  ultimately have "int (2 ^ 53 * N) \<le> int ((2 ^ 53 + 1) * A)" "int A \<le> int (2 * N)" by linarith+
  then have "2 ^ 53 * N \<le> (2 ^ 53 + 1) * A" "A \<le> 2 * N" by (simp_all only: of_nat_le_iff)
  then show "2 ^ 53 * (n * one_units) \<le> (2 ^ 53 + 1) * (10 ^ a * units k)" "10 ^ a * units k \<le> 2 * (n * one_units)"
    by (simp_all only: A_def N_def)
qed

lemma ten_mag_finite: "s \<le> 22 \<Longrightarrow> ten_mag s < inf_mag"
  using ten_mag_mono [of s 22] ten_mag_pow10 [of 22] pow10_facts(2) [of 22] by (simp add: f64_finite_def)

lemma ten_mag_decimal: "decimal (10 ^ nat s) (nat (- s)) (ten_mag s)"
  by (simp add: decimal_def ten_mag_def)

lemma tens_cancel:
  fixes u v :: nat
  assumes "int c + s = int d"
  shows "10 ^ nat (- s) * u \<le> 10 ^ nat s * v \<Longrightarrow> 10 ^ c * u \<le> 10 ^ d * v"
    "10 ^ nat s * v \<le> 10 ^ nat (- s) * u \<Longrightarrow> 10 ^ d * v \<le> 10 ^ c * u"
proof -
  let ?A = "10 ^ nat (- s) :: nat" and ?B = "10 ^ nat s :: nat"
  have "(10 :: nat) ^ (c + nat s) = 10 ^ (d + nat (- s))" using assms by (intro arg_cong [where f = "power 10"]) linarith
  then have e: "10 ^ c * ?B = 10 ^ d * ?A" by (simp only: power_add)
  show "10 ^ c * u \<le> 10 ^ d * v" if "?A * u \<le> ?B * v"
  proof -
    have "?A * (10 ^ c * u) \<le> 10 ^ c * ?B * v" using mult_le_mono2 [OF that, of "10 ^ c"] by (simp only: ac_simps)
    then have "?A * (10 ^ c * u) \<le> ?A * (10 ^ d * v)" unfolding e by (simp only: ac_simps)
    then show ?thesis by simp
  qed
  show "10 ^ d * v \<le> 10 ^ c * u" if "?B * v \<le> ?A * u"
  proof -
    have "10 ^ c * ?B * v \<le> ?A * (10 ^ c * u)" using mult_le_mono2 [OF that, of "10 ^ c"] by (simp only: ac_simps)
    then have "?A * (10 ^ d * v) \<le> ?A * (10 ^ c * u)" unfolding e by (simp only: ac_simps)
    then show ?thesis by simp
  qed
qed

text \<open>Seventeen digits of a double are an integer above \<open>2^53\<close>, and fit into 64 bits.\<close>

lemma first_digit_units:
  assumes "first_digit s k" "- 4 \<le> s" "s \<le> 8"
  shows "2 ^ 53 * one_units \<le> 10 ^ nat (16 - s) * units k" "10 ^ nat (16 - s) * units k \<le> 10 ^ 17 * (2 * one_units)"
proof -
  let ?U = one_units
  have pos: "0 < (10 :: nat) ^ nat z" for z by simp
  have low: "2 ^ 53 * (10 ^ nat s * ?U) \<le> (2 ^ 53 + 1) * (10 ^ nat (- s) * units (ten_mag s))"
    using assms by (intro decimal_close(1) ten_mag_decimal ten_mag_finite pos) simp_all
  then have "10 ^ nat s * (2 ^ 53 * ?U) \<le> 10 ^ nat (- s) * ((2 ^ 53 + 1) * units (ten_mag s))" by (simp only: ac_simps)
  moreover have "int (nat (16 - s)) + s = int 16" using assms(3) by simp
  ultimately have "10 ^ 16 * (2 ^ 53 * ?U) \<le> 10 ^ nat (16 - s) * ((2 ^ 53 + 1) * units (ten_mag s))"
    using tens_cancel(2) by blast
  also have "\<dots> \<le> 10 ^ nat (16 - s) * ((2 ^ 53 + 1) * units k)"
    using assms(1) by (intro mult_le_mono2) (simp only: units_le_iff first_digit_def)
  finally have "10 ^ 16 * (2 ^ 53 * ?U) \<le> (2 ^ 53 + 1) * (10 ^ nat (16 - s) * units k)" by (simp only: ac_simps)
  moreover have "(2 ^ 53 + 1) * X \<le> 10 ^ 16 * X" for X :: nat by (rule mult_le_mono1) simp
  ultimately have "(2 ^ 53 + 1) * (2 ^ 53 * ?U) \<le> (2 ^ 53 + 1) * (10 ^ nat (16 - s) * units k)"
    using order_trans by blast
  then show "2 ^ 53 * ?U \<le> 10 ^ nat (16 - s) * units k" by (simp only: mult_le_cancel1)
  have "10 ^ nat (- (s + 1)) * units (ten_mag (s + 1)) \<le> 2 * (10 ^ nat (s + 1) * ?U)"
    using assms by (intro decimal_close(2) ten_mag_decimal ten_mag_finite pos) simp_all
  then have "10 ^ nat (- (s + 1)) * units (ten_mag (s + 1)) \<le> 10 ^ nat (s + 1) * (2 * ?U)" by (simp only: ac_simps)
  moreover have "int (nat (16 - s)) + (s + 1) = int 17" using assms(3) by simp
  ultimately have "10 ^ nat (16 - s) * units (ten_mag (s + 1)) \<le> 10 ^ 17 * (2 * ?U)" using tens_cancel(1) by blast
  moreover have "10 ^ nat (16 - s) * units k \<le> 10 ^ nat (16 - s) * units (ten_mag (s + 1))"
    using assms(1) by (intro mult_le_mono2) (simp only: units_le_iff first_digit_def less_imp_le)
  ultimately show "10 ^ nat (16 - s) * units k \<le> 10 ^ 17 * (2 * ?U)" by (rule order_trans [rotated])
qed

section \<open>The loops\<close>

lemma get10iP_eq: "0 \<le> i \<Longrightarrow> i \<le> 20 \<Longrightarrow> get10iP m i = Some (pow10 (nat i))"
  by (simp add: get10iP_def map10iP_def nat_less_iff)

lemma units_big_dvd:
  assumes "2 ^ 53 * one_units \<le> units k"
  shows "one_units dvd units k"
proof -
  have n: "2 ^ 52 \<le> k"
  proof (rule ccontr)
    assume "\<not> 2 ^ 52 \<le> k"
    then have "units k < 2 ^ 53 * 1" by (simp add: units_def)
    also have "\<dots> \<le> 2 ^ 53 * one_units" by (rule mult_le_mono2) (simp add: Suc_leI)
    finally show False using assms by simp
  qed
  have "2 ^ 53 * one_units < 2 ^ 53 * ulp k" using assms units_bounds(2) [OF n] by (rule le_less_trans)
  then have "one_units < ulp k" by (simp only: mult_less_cancel1)
  then have "1074 < k div 2 ^ 52 - 1" unfolding one_units_def ulp_def by (rule power_less_imp_less_exp [rotated]) simp
  then have "one_units dvd ulp k" unfolding one_units_def ulp_def by (intro le_imp_power_dvd less_imp_le)
  then show ?thesis by (simp add: units_ulp [OF n])
qed

text \<open>An integer is compared with a double.\<close>

lemma of_int_eq_iff:
  assumes "t < inf_mag" "n = units t div one_units"
  shows "f64_eq (f64_of_int (int n)) (pack False t) \<longleftrightarrow> one_units dvd units t"
proof -
  have t: "t < 2 ^ 63" using assms(1) by (simp add: inf_mag_def)
  have p: "sunits (pack False t) = int (units t)" "\<not> f64_nan (pack False t)"
    using assms(1) t by (simp_all add: sunits_def f64_nan_def)
  show ?thesis
  proof
    assume "one_units dvd units t"
    then have "n * one_units = units t" by (simp add: assms(2))
    then have "f64_of_int (int n) = pack False (round_units (units t) 1)" by (simp add: f64_of_int_def del: One_nat_def)
    also have "round_units (units t) 1 = t" using assms(1) by (simp add: round_units_raw del: One_nat_def)
    finally show "f64_eq (f64_of_int (int n)) (pack False t)" using p(2) by (simp add: f64_eq_def)
  next
    assume eq: "f64_eq (f64_of_int (int n)) (pack False t)"
    show "one_units dvd units t"
    proof (cases "n < 2 ^ 53")
      case True
      have "\<bar>int n\<bar> < 2 ^ 53" using True by simp
      note ex = of_int_exact [OF this]
      have "val (f64_of_int (int n)) = val (pack False t)" using eq by (simp add: f64_eq_def val_def)
      then have "real n = real (units t) / real one_units" using ex(2) by (simp add: val_def p(1))
      then have "real (units t) = real (n * one_units)" by (simp add: field_simps)
      then have "units t = n * one_units" by (simp only: of_nat_eq_iff)
      then show ?thesis by simp
    next
      case False
      then have "2 ^ 53 * one_units \<le> n * one_units" by (intro mult_le_mono1) simp
      also have "\<dots> \<le> units t" by (simp add: assms(2))
      finally show ?thesis by (rule units_big_dvd)
    qed
  qed
qed

text \<open>One pass of the first loop.\<close>

lemma scaled_value:
  assumes "f64_finite x" "\<not> neg x" "first_digit s (mag x)" "- 4 \<le> s" "s \<le> 8" "0 \<le> i" "i \<le> 16 - s"
  defines "t \<equiv> raw_round (10 ^ nat i * units (mag x)) 1"
  shows "f64_mul x (pow10 (nat i)) = pack False t" "t < inf_mag"
    "f64_to_int 64 (pack False t) = Some (int (units t div one_units))"
    "i = 16 - s \<Longrightarrow> one_units dvd units t"
proof -
  let ?U = one_units and ?p = "10 ^ nat i * units (mag x)"
  have i: "nat i \<le> 22" using assms(4,7) by simp
  have "10 ^ nat i * units (mag x) \<le> 10 ^ nat (16 - s) * units (mag x)"
    using assms(7) by (intro mult_le_mono1 power_increasing) simp_all
  also have "\<dots> \<le> 10 ^ 17 * (2 * ?U)" by (rule first_digit_units(2) [OF assms(3-5)])
  finally have "t \<le> raw_round (10 ^ 17 * (2 * ?U)) 1" unfolding t_def by (intro raw_round_mono) simp_all
  then have "units t \<le> units (raw_round (10 ^ 17 * (2 * ?U)) 1)" by simp
  also have "\<dots> = 10 ^ 17 * (2 * ?U)"
    by (rule round_exact [of _ "5 ^ 17" 1092]) (simp_all add: one_units_def power_add)
  finally have ut: "units t \<le> 10 ^ 17 * (2 * ?U)" .
  have "10 ^ 17 * (2 * ?U) < 2 ^ 63 * ?U" using one_units_pos(1) by simp
  then have "units t < 2 ^ 63 * ?U" using ut by (rule le_less_trans [rotated])
  then have d: "units t div ?U < 2 ^ 63" by (rule less_mult_imp_div_less)
  have "2 ^ 63 * ?U = 2 ^ 1137" unfolding one_units_def by (simp only: flip: power_add) simp
  then have "units t < 1 * 2 ^ 2097" using \<open>units t < 2 ^ 63 * ?U\<close>
    by (simp only: mult_1) (rule less_trans, assumption, rule power_strict_increasing, simp_all)
  then have "raw_round (units t) 1 < inf_mag" by (rule raw_round_finite [rotated]) simp
  then show tf: "t < inf_mag" by (simp only: raw_round_units)
  then show "f64_mul x (pow10 (nat i)) = pack False t"
    using mul_pow10 [OF assms(1) i] assms(2) by (simp add: round_units_raw t_def del: One_nat_def)
  have t63: "t < 2 ^ 63" using tf by (simp add: inf_mag_def)
  then have tr: "f64_trunc (pack False t) = int (units t div ?U)" by (simp add: f64_trunc_def)
  have "int (units t div ?U) < 2 ^ 63" using d by simp
  then show "f64_to_int 64 (pack False t) = Some (int (units t div ?U))"
    using t63 tf unfolding f64_to_int_def tr by (simp add: f64_finite_def)
  assume "i = 16 - s"
  then have "2 ^ 53 * ?U \<le> ?p" using first_digit_units(1) [OF assms(3-5)] by simp
  then have "raw_round (2 ^ 53 * ?U) 1 \<le> t" unfolding t_def by (intro raw_round_mono) simp_all
  then have "units (raw_round (2 ^ 53 * ?U) 1) \<le> units t" by simp
  moreover have "units (raw_round (2 ^ 53 * ?U) 1) = 2 ^ 53 * ?U"
    by (rule round_exact [of _ 1 1127]) (simp_all add: one_units_def flip: power_add)
  ultimately show "?U dvd units t" by (intro units_big_dvd) (simp only:)
qed

text \<open>The loop ends, at the latest when all digits are before the point.\<close>

lemma integral_scale_ends:
  assumes "f64_finite x" "\<not> neg x" "first_digit s (mag x)" "- 4 \<le> s" "s \<le> 8" "0 \<le> i" "i \<le> 16 - s"
  shows "\<exists>j n. i \<le> j \<and> j \<le> 16 - s \<and>
    integral_scale m x i = Some (j, f64_mul x (pow10 (nat j)), int n) \<and>
    f64_finite (f64_mul x (pow10 (nat j))) \<and> \<not> neg (f64_mul x (pow10 (nat j))) \<and>
    units (mag (f64_mul x (pow10 (nat j)))) = n * one_units"
  using assms(6,7)
proof (induction "nat (16 - s - i)" arbitrary: i rule: less_induct)
  case less
  define t where "t = raw_round (10 ^ nat i * units (mag x)) 1"
  note sv = scaled_value [OF assms(1-5) less.prems, folded t_def]
  have g: "get10iP m i = Some (pow10 (nat i))" using less.prems assms(4) by (intro get10iP_eq) simp_all
  have t: "t < 2 ^ 63" using sv(2) by (simp add: inf_mag_def)
  have eq: "f64_eq (f64_of_int (int (units t div one_units))) (pack False t) \<longleftrightarrow> one_units dvd units t"
    by (rule of_int_eq_iff [OF sv(2) refl])
  have unf: "integral_scale m x i =
    (if one_units dvd units t then Some (i, pack False t, int (units t div one_units)) else integral_scale m x (i + 1))"
    by (subst integral_scale.simps) (simp add: g sv(1,3) eq)
  show ?case
  proof (cases "one_units dvd units t")
    case True
    then show ?thesis
      using less.prems sv(1,2) t unf
      by (intro exI [of _ i] exI [of _ "units t div one_units"]) (simp add: f64_finite_def)
  next
    case False
    then have "i \<noteq> 16 - s" using sv(4) by blast
    then have "nat (16 - s - (i + 1)) < nat (16 - s - i)" "0 \<le> i + 1" "i + 1 \<le> 16 - s" using less.prems by simp_all
    from less.hyps [OF this] obtain j n where "i + 1 \<le> j" "j \<le> 16 - s"
      "integral_scale m x (i + 1) = Some (j, f64_mul x (pow10 (nat j)), int n)"
      "f64_finite (f64_mul x (pow10 (nat j)))" "\<not> neg (f64_mul x (pow10 (nat j)))"
      "units (mag (f64_mul x (pow10 (nat j)))) = n * one_units"
      by blast
    then show ?thesis using False unf by (intro exI [of _ j] exI [of _ n]) simp
  qed
qed

lemma strip_zeros_value: "strip_zeros i (int n) \<le> i \<and> (\<exists>n'. n = n' * 10 ^ (i - strip_zeros i (int n)))"
proof (induction i arbitrary: n)
  case 0
  then show ?case by simp
next
  case (Suc i)
  show ?case
  proof (cases "n mod 10 = 0")
    case True
    then have z: "int n mod 10 = 0" "int n div 10 = int (n div 10)"
      using zmod_int [of n 10] zdiv_int [of n 10] by simp_all
    let ?a = "strip_zeros i (int (n div 10))"
    from Suc.IH [of "n div 10"] obtain n' where a: "?a \<le> i" "n div 10 = n' * 10 ^ (i - ?a)" by blast
    have "n = n div 10 * 10" using div_mult_mod_eq [of n 10] True by linarith
    also have "\<dots> = n' * 10 ^ (Suc i - ?a)" using a by (simp add: Suc_diff_le)
    finally show ?thesis using a z by auto
  next
    case False
    then have "int n mod 10 \<noteq> 0" using zmod_int [of n 10] by simp
    then show ?thesis by simp
  qed
qed

text \<open>The number of digits: 17, or the digits of a decimal fraction that is rounded to the value.\<close>

definition beta_ok :: "int \<Rightarrow> bool" where
  "beta_ok lb \<longleftrightarrow> lb = INT32_MAX \<or> 0 \<le> lb \<and> lb \<le> 15"

lemma first_scale_range: "beta_ok lb \<Longrightarrow> s \<le> 8 \<Longrightarrow> 0 \<le> first_scale s lb \<and> first_scale s lb \<le> 16 - s"
  by (auto simp: beta_ok_def first_scale_def INT32_MAX_def)

lemma getSignificantCount_value:
  assumes "f64_finite x" "\<not> neg x" "first_digit s (mag x)" "- 4 \<le> s" "s \<le> 8" "beta_ok lb" "0 < mag x"
  shows "\<exists>beta. getSignificantCount m x s lb = Some beta \<and>
    (beta = 17 \<or> (\<exists>n a. beta = s + int a + 1 \<and> 0 < n \<and> int a \<le> 16 - s \<and> decimal n a (mag x)))"
proof -
  note r = first_scale_range [OF assms(6,5)]
  from integral_scale_ends [OF assms(1-5), of "first_scale s lb" m] r obtain j n where
    j: "first_scale s lb \<le> j" "j \<le> 16 - s" and
    loop: "integral_scale m x (first_scale s lb) = Some (j, f64_mul x (pow10 (nat j)), int n)" and
    t: "f64_finite (f64_mul x (pow10 (nat j)))" "\<not> neg (f64_mul x (pow10 (nat j)))"
      "units (mag (f64_mul x (pow10 (nat j)))) = n * one_units"
    by blast
  have jr: "0 \<le> j" "j \<le> 20" "nat j \<le> 22" using r j assms(4) by simp_all
  let ?a = "strip_zeros (nat j) (int n)"
  define q where "q = round_units (n * one_units) (10 ^ nat j)"
  have q63: "q < 2 ^ 63" unfolding q_def by (rule round_units_less)
  have d: "f64_div (f64_mul x (pow10 (nat j))) (pow10 (nat j)) = pack False q"
    using div_pow10 [OF t(1) jr(3)] t(2,3) by (simp add: q_def)
  have val: "getSignificantCount m x s lb = Some (if f64_eq (pack False q) x then s + int ?a + 1 else 17)"
    by (simp add: getSignificantCount_def loop get10iP_eq [OF jr(1,2)] d)
  show ?thesis
  proof (cases "f64_eq (pack False q) x")
    case True
    then have "units q = units (mag x)" using q63 assms(2) by (simp add: f64_eq_def sunits_def)
    then have "q = mag x" by (simp add: eq_iff)
    then have dec: "decimal n (nat j) (mag x)" by (simp add: decimal_def q_def)
    from strip_zeros_value [of "nat j" n] obtain n' where a: "?a \<le> nat j" "n = n' * 10 ^ (nat j - ?a)" by blast
    have "decimal (n' * 10 ^ (nat j - ?a)) (?a + (nat j - ?a)) (mag x)" using dec a by simp
    then have "decimal n' ?a (mag x)" by (simp only: decimal_shift)
    moreover from this have "0 < n'" using assms(7) by (cases n') (simp_all add: decimal_def)
    ultimately show ?thesis using val True a(1) j(2) jr(1) by auto
  qed (simp add: val)
qed


end
