(* ===== verification/Elf_Recover.thy ===== *)
theory Elf_Recover
  imports Elf_Digits
begin

text \<open>
  The value that Elf's decompressor computes from a cut value is the original one.  Throughout, \<open>k\<close> is the magnitude
  pattern of the value, the double nearest to \<open>n / 10^a\<close>; its first digit is that of \<open>10^s\<close>; \<open>e\<close> bits are cut, where
  the last bit kept is \<open>2^-F\<close>.
\<close>

section \<open>The number of bits\<close>

lemma f_table_powers:
  assumes "a \<le> 20"
  shows "0 \<le> f_table ! a" "f_table ! a \<le> 67" "10 ^ a \<le> (2 ^ nat (f_table ! a) :: nat)"
    "1 \<le> a \<Longrightarrow> 1024 * 10 ^ a \<le> (1000 * 2 ^ nat (f_table ! a) :: nat)"
proof -
  have "\<forall>a \<in> set [0..<21]. 0 \<le> f_table ! a \<and> f_table ! a \<le> 67 \<and> 10 ^ a \<le> (2 ^ nat (f_table ! a) :: nat) \<and>
      (a = 0 \<or> 1024 * 10 ^ a \<le> (1000 * 2 ^ nat (f_table ! a) :: nat))"
    by (simp add: upt_rec f_table_def)
  moreover have "a \<in> set [0..<21]" using assms by simp
  ultimately have "0 \<le> f_table ! a \<and> f_table ! a \<le> 67 \<and> 10 ^ a \<le> (2 ^ nat (f_table ! a) :: nat) \<and>
      (a = 0 \<or> 1024 * 10 ^ a \<le> (1000 * 2 ^ nat (f_table ! a) :: nat))"
    by (rule bspec)
  then show "0 \<le> f_table ! a" "f_table ! a \<le> 67" "10 ^ a \<le> (2 ^ nat (f_table ! a) :: nat)"
    "1 \<le> a \<Longrightarrow> 1024 * 10 ^ a \<le> (1000 * 2 ^ nat (f_table ! a) :: nat)"
    by auto
qed

lemma decimal_raw: "decimal n a k \<Longrightarrow> k < inf_mag \<Longrightarrow> raw_round (n * one_units) (10 ^ a) = k"
  by (auto simp: decimal_def round_units_raw min_def split: if_splits)

text \<open>Only bits of the mantissa are cut.\<close>

lemma erase_width:
  assumes "decimal n a k" "0 < n" "k < inf_mag" "2 ^ 52 \<le> k" "10 ^ a \<le> (2 ^ F :: nat)" "F \<le> 1074"
    "2 ^ e * ulp k * 2 ^ F = one_units"
  shows "e \<le> 52"
proof -
  let ?c = "2 ^ (1074 - F) :: nat"
  have c: "?c * 2 ^ F = one_units" unfolding one_units_def power_add [symmetric] using assms(6) by simp
  have "?c * 10 ^ a \<le> ?c * 2 ^ F" using assms(5) by (rule mult_le_mono2)
  also have "\<dots> \<le> n * one_units" using assms(2) by (simp add: c)
  finally have "raw_round ?c 1 \<le> raw_round (n * one_units) (10 ^ a)" by (intro raw_round_mono) simp_all
  then have "units (raw_round ?c 1) \<le> units k" unfolding decimal_raw [OF assms(1,3)] by simp
  moreover have "units (raw_round ?c 1) = ?c" by (rule round_exact [of _ 1]) simp_all
  ultimately have "?c < 2 ^ 53 * ulp k" using units_bounds(2) [OF assms(4)] by linarith
  then have "?c * 2 ^ F < 2 ^ 53 * ulp k * 2 ^ F" by (simp only: mult_less_cancel2) simp
  then have "2 ^ e * (ulp k * 2 ^ F) < 2 ^ 53 * (ulp k * 2 ^ F)" unfolding c assms(7) [symmetric] by (simp only: ac_simps)
  then have "(2 :: nat) ^ e < 2 ^ 53" by (simp only: mult_less_cancel2)
  then have "e < 53" by (rule power_less_imp_less_exp [rotated]) simp
  then show ?thesis by simp
qed

text \<open>A value that is cut has at most fifteen digits.\<close>

lemma erased_size:
  assumes "2 ^ 52 \<le> k" "10 ^ a \<le> (2 ^ F :: nat)" "5 \<le> e" "2 ^ e * ulp k * 2 ^ F = one_units"
  shows "10 ^ a * units k < 2 ^ 48 * one_units"
proof -
  have "10 ^ a * units k \<le> 2 ^ F * units k" using assms(2) by (rule mult_le_mono1)
  also have "\<dots> < 2 ^ F * (2 ^ 53 * ulp k)" using units_bounds(2) [OF assms(1)] by (simp only: mult_less_cancel1) simp
  also have "\<dots> = 2 ^ 48 * (2 ^ 5 * (ulp k * 2 ^ F))" by simp
  also have "\<dots> \<le> 2 ^ 48 * (2 ^ e * (ulp k * 2 ^ F))"
    using assms(3) by (intro mult_le_mono2 mult_le_mono1 power_increasing) simp_all
  also have "\<dots> = 2 ^ 48 * one_units" by (simp only: assms(4) flip: mult.assoc)
  finally show ?thesis .
qed

lemma erased_digits:
  assumes "first_digit s k" "- 4 \<le> s" "s \<le> 8" "10 ^ a * units k < 2 ^ 48 * one_units"
  shows "s + int a \<le> 14"
proof (rule ccontr)
  assume n: "\<not> s + int a \<le> 14"
  have "2 ^ 53 * one_units \<le> 10 ^ nat (16 - s) * units k" by (rule first_digit_units(1) [OF assms(1-3)])
  also have "\<dots> \<le> 10 ^ (a + 1) * units k" using n by (intro mult_le_mono1 power_increasing) simp_all
  finally have "2 ^ 53 * one_units \<le> 10 * (10 ^ a * units k)" by simp
  moreover have "2 ^ 53 * U \<le> 10 * X \<Longrightarrow> X < 2 ^ 48 * U \<Longrightarrow> False" for U X :: nat by simp
  ultimately show False using assms(4) by blast
qed

lemma digits_low:
  assumes "decimal n a k" "0 < n" "first_digit s k"
  shows "- int a \<le> s"
proof (rule ccontr)
  assume "\<not> - int a \<le> s"
  then have "ten_mag (s + 1) \<le> ten_mag (- int a)" by (intro ten_mag_mono) simp
  also have "\<dots> = round_units one_units (10 ^ a)" by (simp add: ten_mag_def)
  also have "\<dots> \<le> round_units (n * one_units) (10 ^ a)" using assms(2) by (intro round_units_mono) simp_all
  also have "\<dots> = k" using assms(1) by (simp add: decimal_def)
  finally show False using assms(3) by (simp add: first_digit_def)
qed

text \<open>An integer has no bits to cut.\<close>

lemma integer_kept:
  assumes "decimal n 0 k" "0 < n" "k < inf_mag" "2 ^ 52 \<le> k" "2 ^ e * ulp k = one_units" "e \<le> 52" "units k < 2 ^ 48 * one_units"
  shows "k mod 2 ^ e = 0"
proof -
  let ?U = one_units
  have "2 ^ 53 * (n * ?U) \<le> (2 ^ 53 + 1) * (10 ^ 0 * units k)" using assms by (intro decimal_close) simp_all
  then have "n * ?U \<le> 2 * units k" by simp
  also have "\<dots> < 2 ^ 53 * ?U" using assms(7) by simp
  finally have "n < 2 ^ 53" by (simp only: mult_less_cancel2)
  then have "units (raw_round (n * ?U) 1) = n * ?U" by (intro round_exact [of _ n 1074]) (simp add: one_units_def)
  moreover have "raw_round (n * ?U) 1 = k" using decimal_raw [OF assms(1,3)] by simp
  ultimately have "(2 ^ 52 + k mod 2 ^ 52) * ulp k = n * 2 ^ e * ulp k"
    using units_ulp [OF assms(4)] assms(5) by (simp add: ac_simps)
  then have "2 ^ 52 + k mod 2 ^ 52 = n * 2 ^ e" using ulp_pos [of k] by (simp only: mult_cancel2) simp
  then have "2 ^ e dvd 2 ^ 52 + k mod 2 ^ 52" by simp
  moreover have "(2 :: nat) ^ e dvd 2 ^ 52" using assms(6) by (rule le_imp_power_dvd)
  ultimately have "2 ^ e dvd k mod 2 ^ 52" by (simp only: dvd_add_right_iff)
  then show ?thesis using \<open>2 ^ e dvd 2 ^ 52\<close> by (metis dvd_mod_iff mod_0_imp_dvd dvd_imp_mod_0)
qed

section \<open>The first digit of the cut value\<close>

lemma erase_floor:
  assumes "2 ^ 52 \<le> k" "e \<le> 52" "c * (2 ^ e * ulp k) \<le> units k"
  shows "c * (2 ^ e * ulp k) \<le> units (k - k mod 2 ^ e)"
proof -
  let ?d = "k mod 2 ^ e" and ?G = "2 ^ e * ulp k"
  note ue = units_erase [OF assms(1,2)]
  have "units (k - ?d) = (2 ^ 52 + (k - ?d) mod 2 ^ 52) * ulp k" using units_ulp [OF ue(1)] by (simp only: ue(3))
  moreover have "2 ^ e dvd (2 :: nat) ^ 52" using assms(2) by (rule le_imp_power_dvd)
  moreover have "2 ^ e dvd k - ?d" by (simp add: minus_mod_eq_div_mult)
  then have "2 ^ e dvd (k - ?d) mod 2 ^ 52" using \<open>2 ^ e dvd (2 :: nat) ^ 52\<close> by (simp only: dvd_mod_iff)
  ultimately have "?G dvd units (k - ?d)" by (simp only: dvd_add mult_dvd_mono dvd_refl)
  then obtain q where q: "units (k - ?d) = ?G * q" by (rule dvdE)
  have "?d < 2 ^ e" by simp
  then have "?d * ulp k < ?G" by (simp only: mult_less_cancel2 ulp_pos simp_thms)
  then have "c * ?G < ?G * q + ?G" using assms(3) ue(4) q by linarith
  then have "c * ?G < (q + 1) * ?G" by (simp add: algebra_simps)
  then have "c < q + 1" by (simp only: mult_less_cancel2)
  then have "c * ?G \<le> q * ?G" by (intro mult_le_mono1) simp
  then show ?thesis by (simp add: q mult.commute)
qed

lemma ten_mag_le:
  assumes "s \<le> 0" "one_units \<le> units k * 10 ^ nat (- s)"
  shows "ten_mag s \<le> k"
proof -
  have "raw_round one_units (10 ^ nat (- s)) \<le> raw_round (units k) 1" using assms(2) by (intro raw_round_mono) simp_all
  then have "raw_round one_units (10 ^ nat (- s)) \<le> k" by (simp only: raw_round_units)
  then show ?thesis using assms(1) by (simp add: ten_mag_def round_units_raw)
qed

text \<open>It is the same, unless the value is a power of ten below one.\<close>

lemma digit_kept:
  assumes "2 ^ 52 \<le> k" "k < inf_mag" "decimal n a k" "first_digit s k" "s \<le> 22" "e \<le> 52"
    "2 ^ e * ulp k * 2 ^ F = one_units" "s < 0 \<Longrightarrow> k \<noteq> ten_mag s" "- int a \<le> s"
    "n * one_units \<le> 10 ^ a * units (k - k mod 2 ^ e) + H" "1024 * H \<le> 1000 * one_units"
  shows "first_digit s (k - k mod 2 ^ e)"
proof -
  let ?k = "k - k mod 2 ^ e" and ?U = one_units
  have "ten_mag s \<le> ?k"
  proof (cases "0 \<le> s")
    case True
    have "units (ten_mag s) = 10 ^ nat s * ?U" using ten_mag_units [of "nat s"] True assms(5) by simp
    also have "\<dots> = 10 ^ nat s * 2 ^ F * (2 ^ e * ulp k)" unfolding assms(7) [symmetric] by (simp only: ac_simps)
    finally have t: "units (ten_mag s) = 10 ^ nat s * 2 ^ F * (2 ^ e * ulp k)" .
    have "units (ten_mag s) \<le> units k" using assms(4) by (simp add: first_digit_def)
    then have "units (ten_mag s) \<le> units ?k" unfolding t by (rule erase_floor [OF assms(1,6)])
    then show ?thesis by simp
  next
    case False
    let ?i = "nat (- s)"
    have i: "?i \<le> a" using assms(9) by simp
    have n1: "10 ^ (a - ?i) < n"
    proof (rule ccontr)
      assume "\<not> 10 ^ (a - ?i) < n"
      then have "n * 10 ^ ?i \<le> 10 ^ (a - ?i) * 10 ^ ?i" by (intro mult_le_mono1) simp
      also have "\<dots> = 10 ^ a" unfolding power_add [symmetric] using i by simp
      finally have "n * 10 ^ ?i * ?U \<le> 10 ^ a * ?U" by (rule mult_le_mono1)
      then have "round_units (n * ?U) (10 ^ a) \<le> round_units ?U (10 ^ ?i)" by (intro round_units_mono) (simp_all add: ac_simps)
      then have "k \<le> ten_mag s" using assms(3) False by (simp add: decimal_def ten_mag_def)
      then show False using assms(4,8) False by (simp add: first_digit_def)
    qed
    have "(10 ^ (a - ?i) + 1) * ?U \<le> n * ?U" using n1 by (intro mult_le_mono1) simp
    then have "10 ^ (a - ?i) * ?U + ?U \<le> 10 ^ a * units ?k + H" using assms(10) by simp
    moreover have "H \<le> ?U" using assms(11) by simp
    ultimately have "10 ^ (a - ?i) * ?U \<le> 10 ^ a * units ?k" by linarith
    also have "(10 :: nat) ^ a = 10 ^ (a - ?i) * 10 ^ ?i" unfolding power_add [symmetric] using i by simp
    finally have "10 ^ (a - ?i) * ?U \<le> 10 ^ (a - ?i) * (units ?k * 10 ^ ?i)" by (simp only: ac_simps)
    then have "?U \<le> units ?k * 10 ^ ?i" by simp
    then show ?thesis using False by (intro ten_mag_le) simp_all
  qed
  moreover have "?k < ten_mag (s + 1)" using assms(4) by (simp add: first_digit_def less_imp_diff_less)
  ultimately show ?thesis by (simp add: first_digit_def)
qed

lemma digit_drops:
  assumes "2 ^ 52 \<le> k" "k < inf_mag" "k = ten_mag s" "s < 0" "- 22 \<le> s" "e \<le> 52" "k mod 2 ^ e \<noteq> 0"
  shows "first_digit (s - 1) (k - k mod 2 ^ e)"
proof -
  let ?k = "k - k mod 2 ^ e" and ?i = "nat (- s)" and ?U = one_units
  note ue = units_erase [OF assms(1,6)]
  have "decimal 1 ?i k" using ten_mag_decimal [of s] assms(3,4) by simp
  then have c: "2 ^ 53 * (1 * ?U) \<le> (2 ^ 53 + 1) * (10 ^ ?i * units k)"
    using assms(2,5) by (intro decimal_close) simp_all
  have "units k \<le> 2 * units ?k"
    using units_bounds(2) [OF assms(1)] units_bounds(1) [OF ue(1)] by (simp add: ue(3))
  then have "10 ^ ?i * units k \<le> 10 ^ ?i * (2 * units ?k)" by (rule mult_le_mono2)
  then have "10 ^ ?i * units k \<le> 2 * (10 ^ ?i * units ?k)" by (simp only: mult.left_commute)
  moreover have "2 ^ 53 * (1 * U) \<le> (2 ^ 53 + 1) * X \<Longrightarrow> X \<le> 2 * Y \<Longrightarrow> U \<le> 10 * Y" for U X Y :: nat by simp
  ultimately have "?U \<le> 10 * (10 ^ ?i * units ?k)" using c by blast
  also have "\<dots> = units ?k * 10 ^ Suc ?i" by simp
  also have "Suc ?i = nat (- (s - 1))" using assms(4) by simp
  finally have "ten_mag (s - 1) \<le> ?k" using assms(4) by (intro ten_mag_le) simp_all
  moreover have "?k < ten_mag s" using assms(1,3,7) by simp
  ultimately show ?thesis by (simp add: first_digit_def)
qed

section \<open>Rounding up\<close>

lemma ceil_units:
  assumes "R \<le> n * one_units" "int n * int one_units - int one_units < int R"
  shows "(- int R) div int one_units = - int n"
proof (rule int_div_pos_eq)
  show "- int R = int one_units * - int n + (int n * int one_units - int R)" by (simp add: algebra_simps)
  have "int R \<le> int (n * one_units)" using assms(1) by (simp only: of_nat_le_iff)
  then show "0 \<le> int n * int one_units - int R" by simp
  show "int n * int one_units - int R < int one_units" using assms(2) by linarith
qed

lemma less_inf_mag: "k < inf_mag \<Longrightarrow> k < 2 ^ 63"
  by (simp add: inf_mag_def)

lemma pack_facts:
  assumes "k < inf_mag"
  shows "f64_finite (pack g k)" "mag (pack g k) = k" "neg (pack g k) = g"
    "sunits (pack g k) = (if g then - int (units k) else int (units k))"
  using less_inf_mag [OF assms] assms by (simp_all add: f64_finite_def sunits_def)

lemma integer_units:
  assumes "n < 2 ^ 53"
  shows "round_units (n * one_units) 1 < inf_mag" "units (round_units (n * one_units) 1) = n * one_units"
proof -
  have u: "units (raw_round (n * one_units) 1) = n * one_units"
    using assms by (intro round_exact [of _ n 1074]) (simp add: one_units_def)
  have "n * one_units < 2 ^ 53 * one_units" using assms by (simp only: mult_less_cancel2 one_units_pos simp_thms)
  also have "\<dots> = 2 ^ 1127" unfolding one_units_def by (simp only: flip: power_add) simp
  also have "\<dots> < 1 * 2 ^ 2097" unfolding mult_1 by (rule power_strict_increasing) simp_all
  finally have "raw_round (n * one_units) 1 < inf_mag" by (rule raw_round_finite [rotated]) simp
  then have "round_units (n * one_units) 1 = raw_round (n * one_units) 1" by (simp add: round_units_raw)
  then show "round_units (n * one_units) 1 < inf_mag" "units (round_units (n * one_units) 1) = n * one_units"
    using u \<open>raw_round (n * one_units) 1 < inf_mag\<close> by (simp_all only:)
qed

lemma roundUp_value:
  assumes "k < inf_mag" "0 < k" "a \<le> 20" "10 ^ a * units k < 2 ^ 48 * one_units" "n < 2 ^ 53"
  defines "R \<equiv> units (raw_round (10 ^ a * units k) 1)"
  assumes "R \<le> n * one_units" "int n * int one_units - int one_units < int R"
  shows "roundUp m (pack g k) (int a) = Some (pack g (round_units (n * one_units) (10 ^ a)))"
proof -
  let ?r = "raw_round (10 ^ a * units k) 1" and ?q = "round_units (n * one_units) 1"
  have "2 ^ 48 * one_units = 2 ^ 1122" unfolding one_units_def by (simp only: flip: power_add) simp
  also have "\<dots> < 2 ^ 2097" by (rule power_strict_increasing) simp_all
  finally have "10 ^ a * units k < 1 * 2 ^ 2097" using assms(4) by simp
  then have r: "?r < inf_mag" by (rule raw_round_finite [rotated]) simp
  then have ru: "round_units (10 ^ a * units k) 1 = ?r" by (simp add: round_units_raw)
  note pk = pack_facts [OF assms(1), of g] and pr = pack_facts [OF r, of g] and iu = integer_units [OF assms(5)]
  note pq = pack_facts [OF iu(1), of g]
  have mul: "f64_mul (pack g k) (pow10 a) = pack g ?r"
    using mul_pow10 [OF pk(1), of a] assms(3) pk(2,3) by (simp add: ru del: One_nat_def)
  have dv: "(- int R) div int one_units = - int n" by (rule ceil_units [OF assms(7,8)])
  have ceil: "f64_ceil (pack g ?r) = pack g ?q" if "\<not> g"
    using pr that dv by (simp add: f64_ceil_def R_def del: One_nat_def)
  have floor: "f64_floor (pack g ?r) = pack g ?q" if g
    using pr that dv by (simp add: f64_floor_def R_def del: One_nat_def)
  have lt: "f64_lt (pack g k) 0 \<longleftrightarrow> g"
    using pk(4) assms(2) finite_cases [OF pk(1)] finite_cases [OF zero_facts(4)] zero_facts(1) by (simp add: f64_lt_def)
  have "f64_div (pack g ?q) (pow10 a) = pack g (round_units (n * one_units) (10 ^ a))"
    using div_pow10 [OF pq(1), of a] assms(3) pq(2,3) iu(2) by (simp del: One_nat_def)
  moreover have "get10iP m (int a) = Some (pow10 a)" using get10iP_eq [of "int a" m] assms(3) by simp
  ultimately show ?thesis unfolding roundUp_def lt using mul ceil floor by (cases g) (simp_all del: One_nat_def)
qed

text \<open>The whole decision of the decompressor, for the value that the compressor has cut.\<close>

lemma abs_pack: "k < inf_mag \<Longrightarrow> f64_abs (pack g k) = pack False k"
  using pack_facts [of k g] pack_mag [of "f64_abs (pack g k)"] by simp

theorem recover_cut:
  assumes "k < inf_mag" "first_digit s k" "- 4 \<le> s" "s \<le> 8" "decimal n a k" "0 < n" "a \<le> 20" "5 \<le> e"
    "2 ^ e * ulp k * 2 ^ nat (f_table ! a) = one_units" "k mod 2 ^ e \<noteq> 0"
  defines "k' \<equiv> k - k mod 2 ^ e" and "beta \<equiv> s + int a + 1"
  shows "1 \<le> beta" "beta \<le> 15" "e \<le> 52"
    "s < 0 \<and> k = ten_mag s \<Longrightarrow> recoverV m 0 (pack g k') = Some (pack g k)"
    "\<not> (s < 0 \<and> k = ten_mag s) \<Longrightarrow> recoverV m beta (pack g k') = Some (pack g k)"
proof -
  let ?F = "nat (f_table ! a)" and ?U = one_units
  note F = f_table_powers [OF assms(7)]
  have "a \<le> 22" using assms(7) by linarith
  then have n: "2 ^ 52 \<le> k" by (rule decimal_normal [OF assms(5,6)])
  show e: "e \<le> 52" using F by (intro erase_width [OF assms(5,6,1) n F(3) _ assms(9)]) simp
  note size = erased_size [OF n F(3) assms(8,9)]
  show "beta \<le> 15" using erased_digits [OF assms(2-4) size] by (simp add: beta_def)
  have low: "- int a \<le> s" by (rule digits_low [OF assms(5,6,2)])
  then show "1 \<le> beta" by (simp add: beta_def)
  have "1 \<le> a"
  proof (rule ccontr)
    assume "\<not> 1 \<le> a"
    then have "a = 0" by simp
    then have "k mod 2 ^ e = 0" using assms(1,5,6,9) n e size by (intro integer_kept) (simp_all add: f_table_def)
    then show False using assms(10) by simp
  qed
  note eb = erase_bounds [OF n assms(1,5,8) e assms(10,9) F(4) [OF this], folded k'_def]
  note ep = erase_product [OF eb]
  have k': "k' < inf_mag" "0 < k'" using assms(1) units_erase(1) [OF n e] by (simp_all add: k'_def)
  note pk = pack_facts [OF k'(1)]
  {
    assume p: "s < 0 \<and> k = ten_mag s"
    then have "first_digit (s - 1) k'" unfolding k'_def using n assms(1,3,10) e by (intro digit_drops) simp_all
    then have "getSP m (pack False k') = Some (s - 1)" using pk p assms(3) by (intro getSP_eq) simp_all
    moreover have "get10iN m (- s) = Some (pow10_neg (nat (- s)))"
      using p assms(3) by (simp add: get10iN_def map10iN_def nat_less_iff)
    moreover have "pow10_neg (nat (- s)) = pack False k" using p assms(3) pow10_neg_facts(4) [of "nat (- s)"] by simp
    moreover have "f64_lt (pack g k') 0 \<longleftrightarrow> g"
      using pk(4) [of g] k'(2) finite_cases [OF pk(1) [of g]] finite_cases [OF zero_facts(4)] zero_facts(1) by (simp add: f64_lt_def)
    moreover have "f64_neg (pack False k) = pack True k"
      using pack_mag [of "f64_neg (pack False k)"] pack_facts [OF assms(1), of False] by simp
    ultimately show "recoverV m 0 (pack g k') = Some (pack g k)"
      by (simp add: recoverV_def abs_pack [OF k'(1)])
  next
    assume *: "\<not> (s < 0 \<and> k = ten_mag s)"
    have "first_digit s k'"
      unfolding k'_def
      by (rule digit_kept [OF n assms(1,5,2) _ e assms(9) _ low eb(2,3) [unfolded k'_def]]) (use * assms(4) in simp_all)
    then have "getSP m (pack False k') = Some s" using pk assms(3,4) by (intro getSP_eq) simp_all
    moreover have "roundUp m (pack g k') (int a) = Some (pack g (round_units (n * ?U) (10 ^ a)))"
      by (rule roundUp_value [OF k' assms(7) eb(4) ep(3,1,2)])
    moreover have "round_units (n * ?U) (10 ^ a) = k" using assms(5) by (simp add: decimal_def)
    ultimately show "recoverV m beta (pack g k') = Some (pack g k)"
      using \<open>1 \<le> beta\<close> by (simp add: recoverV_def abs_pack [OF k'(1)] beta_def)
  }
qed


end
