(* ===== verification/Elf_Roundtrip.thy ===== *)
theory Elf_Roundtrip
  imports Elf_Codec Elf_Recover
begin

text \<open>
  Elf is lossless.  The decision of \<open>addValue\<close> about one value, as a function that returns the field announcing it and
  the bits that go to the XOR compressor, is undone by \<open>nextValue\<close>; the record codec lifts this to series.
\<close>

section \<open>Cutting bits\<close>

lemma cut_word:
  fixes v :: double
  assumes "e \<le> 52"
  shows "push_bit e 0xFFFFFFFFFFFFFFFF AND v = pack (neg v) (mag v - mag v mod 2 ^ e)"
    "NOT (push_bit e 0xFFFFFFFFFFFFFFFF) AND v = 0 \<longleftrightarrow> mag v mod 2 ^ e = 0"
proof -
  let ?k = "mag v" and ?g = "if neg v then 2 ^ 63 else 0 :: nat"
  have u: "unat v = ?k + ?g"
  proof -
    have "unat v = unat (pack (neg v) ?k)" by (simp only: pack_mag)
    then show ?thesis by (simp only: unat_pack [OF mag_less])
  qed
  have ones: "(0xFFFFFFFFFFFFFFFF :: u64) = - 1" by simp
  have "2 ^ e dvd (2 :: nat) ^ 63" using assms by (intro le_imp_power_dvd) simp
  then have "2 ^ e dvd ?g" by simp
  then have m: "unat v mod 2 ^ e = ?k mod 2 ^ e" unfolding u by (metis dvd_imp_mod_0 mod_add_right_eq add.right_neutral)
  have t: "unat (take_bit e v) = ?k mod 2 ^ e" by (simp only: unsigned_take_bit_eq take_bit_eq_mod [of e "unat v"] m)
  have "NOT (push_bit e (- 1)) AND v = take_bit e v" by (rule bit_word_eqI) (auto simp: bit_simps)
  moreover have "take_bit e v = 0 \<longleftrightarrow> ?k mod 2 ^ e = 0" using t by (metis unsigned_0 unat_eq_zero)
  ultimately show "NOT (push_bit e 0xFFFFFFFFFFFFFFFF) AND v = 0 \<longleftrightarrow> ?k mod 2 ^ e = 0" by (simp only: ones)
  have s: "(push_bit e (- 1) AND v) + take_bit e v = v"
  proof -
    have "(push_bit e (- 1) AND v) AND take_bit e v = 0" by (rule bit_word_eqI) (auto simp: bit_simps)
    then have "(push_bit e (- 1) AND v) + take_bit e v = (push_bit e (- 1) AND v) OR take_bit e v"
      by (rule disjunctive_add_eq_or)
    also have "\<dots> = v" by (rule bit_word_eqI) (auto simp: bit_simps)
    finally show ?thesis .
  qed
  then have "push_bit e (- 1) AND v = v - take_bit e v" by (simp add: algebra_simps)
  also have "\<dots> = of_nat (unat v) - of_nat (unat (take_bit e v))" by simp
  also have "\<dots> = of_nat (unat v - ?k mod 2 ^ e)" unfolding t by (rule of_nat_diff [symmetric]) (simp add: u trans_le_add1)
  also have "unat v - ?k mod 2 ^ e = ?k - ?k mod 2 ^ e + ?g" by (simp add: u)
  finally show "push_bit e 0xFFFFFFFFFFFFFFFF AND v = pack (neg v) (?k - ?k mod 2 ^ e)" by (simp only: ones pack_def)
qed

lemma exponent_field: "int (unat (drop_bit 52 v AND 0x7FF)) = int (mag v div 2 ^ 52)"
proof -
  have "drop_bit 52 v AND 0x7FF = take_bit 11 (drop_bit 52 v)" by (simp add: take_bit_eq_mask mask_numeral)
  also have "\<dots> = drop_bit 52 (take_bit 63 v)" by (simp add: take_bit_drop_bit)
  finally have "unat (drop_bit 52 v AND 0x7FF) = unat (take_bit 63 v) div 2 ^ 52"
    by (simp only: unat_drop_bit_eq drop_bit_eq_div [of 52 "unat (take_bit 63 v)"])
  then show ?thesis by (simp only: mag_take)
qed

section \<open>The decision about one value\<close>

text \<open>The field that announces the value, the bits to compress, the number of digits from now on.\<close>

definition elf_choice :: "libm \<Rightarrow> elf_undef \<Rightarrow> int \<Rightarrow> int \<Rightarrow> double \<Rightarrow> ((int \<times> nat) \<times> u64 \<times> int) option" where
  "elf_choice m u junk lb v =
     (if f64_eq v 0 then Some ((2, 2), v, lb)
      else do {
        (alpha, betaStar) \<leftarrow> getAlphaAndBetaStar m junk v lb;
        fAlpha \<leftarrow> getFAlpha alpha;
        let eraseBits = 52 - (fAlpha + int (mag v div 2 ^ 52) - 1023);
        let mask = shl_u64 u 0xFFFFFFFFFFFFFFFF eraseBits;
        if NOT mask AND v \<noteq> 0 \<and> 4 < eraseBits
        then Some (if betaStar = lb then (0, 1) else (betaStar OR 0x30, 6), mask AND v, betaStar)
        else Some ((2, 2), v, lb) })"

lemma addValue_choice:
  "addValue m u junk c v =
     (if f64_nan v then None
      else do {
        (f, v', lb) \<leftarrow> elf_choice m u junk (ec_lastBetaStar c) v;
        c \<leftarrow> writeInt c (fst f) (snd f);
        xorCompress u (c\<lparr>ec_lastBetaStar := lb\<rparr>) v' })"
proof -
  have w: "\<And>x len. writeInt c x len = map_option (\<lambda>w. c\<lparr>ec_xor := (ec_xor c)\<lparr>xc_writer := w\<rparr>, ec_size := ec_size c + len\<rparr>)
      (bit_write (xc_writer (ec_xor c)) (word_of_int x) len)"
    by (simp add: writeInt_def map_conv_bind_option comp_def)
  show ?thesis
    unfolding addValue_def elf_choice_def exponent_field Let_def w
    by (cases c) (auto simp: map_conv_bind_option comp_def split: Option.bind_splits option.splits prod.splits)
qed

text \<open>The values for which the tables of the code are enough: zeros, and magnitudes from \<open>0.0001\<close> to below \<open>10^9\<close>.\<close>

definition elf_value :: "double \<Rightarrow> bool" where
  "elf_value v \<longleftrightarrow> f64_finite v \<and>
     (mag v = 0 \<or> f64_le (pow10_neg 4) (f64_abs v) \<and> f64_lt (f64_abs v) (pow10 9))"

lemma elf_valueI:
  assumes "f64_finite v" "mag v = 0 \<or> one_units \<le> units (mag v) * 10 ^ 4 \<and> units (mag v) < 10 ^ 9 * one_units"
  shows "elf_value v"
proof (cases "mag v = 0")
  case False
  then have "ten_mag (- 4) \<le> mag v" using assms(2) by (intro ten_mag_le) simp_all
  moreover have "units (mag v) < units (ten_mag 9)" using ten_mag_units [of 9] assms(2) False by simp
  then have "mag v < ten_mag 9" by simp
  ultimately show ?thesis
    using assms(1) pow10_neg_facts(1-3) [of 4] pow10_facts(2,3) [of 9] ten_mag_pow10 [of 9]
    by (simp add: elf_value_def le_mag lt_mag)
qed (simp add: elf_value_def assms(1))

lemma elf_value_digit:
  assumes "elf_value v" "mag v \<noteq> 0"
  obtains s where "first_digit s (mag v)" "- 4 \<le> s" "s \<le> 8"
proof -
  have "f64_finite v" "f64_le (pow10_neg 4) (f64_abs v)" "f64_lt (f64_abs v) (pow10 9)"
    using assms by (simp_all add: elf_value_def)
  then have "ten_mag (- 4) \<le> mag v" "mag v < ten_mag 9"
    using pow10_neg_facts(1-3) [of 4] pow10_facts(2,3) [of 9] ten_mag_pow10 [of 9] by (simp_all add: le_mag lt_mag)
  then obtain s where "- 4 \<le> s" "s < 9" "first_digit s (mag v)" by (rule first_digit_exists)
  then show thesis using that [of s] by simp
qed

lemma getFAlpha_eq: "a \<le> 20 \<Longrightarrow> getFAlpha (int a) = Some (f_table ! a)"
  by (simp add: getFAlpha_def f_table_def)

lemma positive_part:
  assumes "f64_finite v" "mag v \<noteq> 0"
  shows "(if f64_lt v 0 then f64_neg v else v) = pack False (mag v)" "\<not> f64_eq v 0"
proof -
  have z: "\<not> f64_nan v" "\<not> f64_nan 0" "sunits 0 = 0" "units (mag v) \<noteq> 0"
    using finite_cases [OF assms(1)] finite_cases [OF zero_facts(4)] zero_facts(1) assms(2) by simp_all
  have lt: "f64_lt v 0 \<longleftrightarrow> neg v" "\<not> f64_eq v 0" using z by (auto simp: f64_lt_def f64_eq_def sunits_def)
  then show "\<not> f64_eq v 0" by simp
  show "(if f64_lt v 0 then f64_neg v else v) = pack False (mag v)"
    using lt(1) pack_mag [of v] pack_mag [of "f64_neg v"] by (cases "neg v") simp_all
qed

text \<open>The two numbers that the compressor computes.\<close>

lemma getAlphaAndBetaStar_value:
  assumes "f64_finite v" "mag v \<noteq> 0" "first_digit s (mag v)" "- 4 \<le> s" "s \<le> 8" "beta_ok lb" "junk \<noteq> 1"
  obtains a b where "getAlphaAndBetaStar m junk v lb = Some (int a, b)" "a \<le> 20"
    "a = nat (16 - s) \<or>
     (\<exists>n. 0 < n \<and> decimal n a (mag v) \<and> b = (if s < 0 \<and> mag v = ten_mag s then 0 else s + int a + 1))"
proof -
  let ?x = "pack False (mag v)"
  have k: "mag v < inf_mag" using assms(1) by (simp add: f64_finite_def)
  note px = pack_facts [OF k, of False]
  have fd: "first_digit s (mag ?x)" "0 < mag ?x" "- 10 \<le> s" using assms(2-4) px by simp_all
  have ng: "\<not> neg ?x" using px by simp
  let ?fl = "if 0 \<le> s then junk else if mag v = ten_mag s then 1 else 0"
  have flag: "getSPAnd10iNFlag m junk ?x = Some (s, ?fl)"
    using getSPAnd10iNFlag_eq [OF px(1) ng fd(1,3) assms(5)] px by simp
  obtain beta where beta: "getSignificantCount m ?x s lb = Some beta"
    "beta = 17 \<or> (\<exists>n a. beta = s + int a + 1 \<and> 0 < n \<and> int a \<le> 16 - s \<and> decimal n a (mag v))"
    using getSignificantCount_value [OF px(1) ng fd(1) assms(4,5,6) fd(2), of m] px(2) by auto
  have val: "getAlphaAndBetaStar m junk v lb = Some (beta - s - 1, if ?fl = 1 then 0 else beta)"
    by (simp add: getAlphaAndBetaStar_def positive_part(1) [OF assms(1,2)] flag beta(1) Let_def)
  from beta(2) show thesis
  proof (elim disjE exE conjE)
    assume "beta = 17"
    then show thesis using val assms(4,5) by (intro that [of "nat (16 - s)"]) simp_all
  next
    fix n a assume *: "beta = s + int a + 1" "0 < n" "int a \<le> 16 - s" "decimal n a (mag v)"
    have b: "(if ?fl = 1 then 0 else beta) = (if s < 0 \<and> mag v = ten_mag s then 0 else s + int a + 1)"
      using *(1) assms(7) by auto
    have "getAlphaAndBetaStar m junk v lb = Some (int a, if s < 0 \<and> mag v = ten_mag s then 0 else s + int a + 1)"
      using val *(1) b by simp
    then show thesis using * assms(4) by (intro that [of a]) auto
  qed
qed

text \<open>A value is kept, or cut in a way that the decompressor undoes.\<close>

theorem elf_choice_recovers:
  assumes "elf_value v" "beta_ok lb" "junk \<noteq> 1"
  obtains (raw) "elf_choice m u junk lb v = Some ((2, 2), v, lb)"
  | (cut) f v' b where "elf_choice m u junk lb v = Some (f, v', b)" "f = (if b = lb then (0, 1) else (b OR 0x30, 6))"
      "0 \<le> b" "b \<le> 15" "recoverV m b v' = Some v" "v' \<noteq> 0"
proof (cases "mag v = 0")
  case True
  then have "f64_eq v 0"
    using assms(1) finite_cases [of v] finite_cases [OF zero_facts(4)] zero_facts(1,2)
    by (auto simp: f64_eq_def sunits_def elf_value_def)
  then show ?thesis by (intro raw) (simp add: elf_choice_def)
next
  case False
  have fin: "f64_finite v" and k: "mag v < inf_mag" using assms(1) by (simp_all add: elf_value_def f64_finite_def)
  obtain s where s: "first_digit s (mag v)" "- 4 \<le> s" "s \<le> 8" by (rule elf_value_digit [OF assms(1) False])
  obtain a b where ab: "getAlphaAndBetaStar m junk v lb = Some (int a, b)" "a \<le> 20"
    "a = nat (16 - s) \<or>
     (\<exists>n. 0 < n \<and> decimal n a (mag v) \<and> b = (if s < 0 \<and> mag v = ten_mag s then 0 else s + int a + 1))"
    by (rule getAlphaAndBetaStar_value [OF fin False s assms(2,3)])
  define e where "e = 52 - (f_table ! a + int (mag v div 2 ^ 52) - 1023)"
  have ch: "elf_choice m u junk lb v =
      (if NOT (shl_u64 u 0xFFFFFFFFFFFFFFFF e) AND v \<noteq> 0 \<and> 4 < e
       then Some (if b = lb then (0, 1) else (b OR 0x30, 6), shl_u64 u 0xFFFFFFFFFFFFFFFF e AND v, b)
       else Some ((2, 2), v, lb))"
    using positive_part(2) [OF fin False] ab(1) getFAlpha_eq [OF ab(2)] by (simp add: elf_choice_def e_def Let_def)
  show ?thesis
  proof (cases "NOT (shl_u64 u 0xFFFFFFFFFFFFFFFF e) AND v \<noteq> 0 \<and> 4 < e")
    case no: False
    then show ?thesis using ch by (intro raw) simp
  next
    case yes: True
    let ?e = "nat e" and ?F = "nat (f_table ! a)"
    note F = f_table_powers [OF ab(2)]
    have n: "2 ^ 52 \<le> mag v"
    proof -
      have "2 ^ 52 \<le> ten_mag s" using s by (intro decimal_normal [OF ten_mag_decimal]) simp_all
      then show ?thesis using s(1) by (simp add: first_digit_def)
    qed
    then have "1 \<le> mag v div 2 ^ 52" by (simp add: less_eq_div_iff_mult_less_eq)
    moreover have "int ?e = 1075 - f_table ! a - int (mag v div 2 ^ 52)" "int ?F = f_table ! a"
      using yes F(1) by (simp_all add: e_def)
    ultimately have "?e + (mag v div 2 ^ 52 - 1) + ?F = 1074" by linarith
    then have w: "2 ^ ?e * ulp (mag v) * 2 ^ ?F = one_units" by (simp only: ulp_def one_units_def flip: power_add)
    have "4 < e" using yes by blast
    then have e5: "5 \<le> ?e" by linarith
    have "s + int a \<le> 14" by (rule erased_digits [OF s erased_size [OF n F(3) e5 w]])
    then obtain d where d: "0 < d" "decimal d a (mag v)" "b = (if s < 0 \<and> mag v = ten_mag s then 0 else s + int a + 1)"
      using ab(3) s(3) by auto
    have e52: "?e \<le> 52" using F(2) by (intro erase_width [OF d(2,1) k n F(3) _ w]) simp
    then have "0 \<le> e \<and> e < 64" using \<open>4 < e\<close> by linarith
    then have shl: "shl_u64 u 0xFFFFFFFFFFFFFFFF e = push_bit ?e 0xFFFFFFFFFFFFFFFF" by (simp add: shl_u64_def)
    have md: "mag v mod 2 ^ ?e \<noteq> 0" using yes cut_word(2) [OF e52, of v] unfolding shl by blast
    note rc = recover_cut [OF k s d(2,1) ab(2) e5 w md]
    have "recoverV m b (pack (neg v) (mag v - mag v mod 2 ^ ?e)) = Some v"
      using rc(4,5) [where m = m and g = "neg v", unfolded pack_mag] unfolding d(3)
      by (cases "s < 0 \<and> mag v = ten_mag s") (simp_all only: if_P if_not_P simp_thms)
    then have "recoverV m b (shl_u64 u 0xFFFFFFFFFFFFFFFF e AND v) = Some v" by (simp only: shl cut_word(1) [OF e52])
    moreover have "0 \<le> b" "b \<le> 15" using rc(1,2) d(3) by auto
    moreover have "mag (pack (neg v) (mag v - mag v mod 2 ^ ?e)) \<noteq> 0"
      using units_erase(1) [OF n e52] mag_less [of v] by (subst mag_pack) simp_all
    then have "shl_u64 u 0xFFFFFFFFFFFFFFFF e AND v \<noteq> 0"
      unfolding shl cut_word(1) [OF e52] using zero_facts(2) by metis
    ultimately show ?thesis using ch yes by (intro cut) auto
  qed
qed

lemma elf_choice_ok:
  assumes "elf_value v" "beta_ok lb" "junk \<noteq> 1"
  shows "\<exists>f v' b. elf_choice m u junk lb v = Some (f, v', b) \<and> beta_ok b \<and> (v \<noteq> 0 \<longrightarrow> v' \<noteq> 0)"
proof (rule elf_choice_recovers [OF assms, of m u])
  assume "elf_choice m u junk lb v = Some ((2, 2), v, lb)"
  then show ?thesis using assms(2) by blast
next
  fix f v' b
  assume "elf_choice m u junk lb v = Some (f, v', b)" "0 \<le> b" "b \<le> 15" "v' \<noteq> 0"
  then show ?thesis by (auto simp: beta_ok_def)
qed

section \<open>Records\<close>

type_synonym elf_state = "nat \<times> int \<times> xor_state"

fun elf_rec :: "libm \<Rightarrow> elf_undef \<Rightarrow> (nat \<Rightarrow> int) \<Rightarrow> elf_state \<Rightarrow> u64 \<Rightarrow> field list \<times> elf_state" where
  "elf_rec m u junk (i, lb, st) v =
     (case elf_choice m u (junk i) lb v of
        None \<Rightarrow> ([], i, lb, st)
      | Some (f, v', b) \<Rightarrow>
          (case xor_rec u st v' of (fs, st') \<Rightarrow> ((word_of_int (fst f), snd f) # fs, i + 1, b, st')))"

fun elf_sim :: "elf_state \<Rightarrow> int \<times> elf_xor_reader \<Rightarrow> bool" where
  "elf_sim (i, lb, st) (lb', s) \<longleftrightarrow> lb' = lb \<and> beta_ok lb \<and> xor_sim st s"

definition elf_adm :: "elf_undef \<Rightarrow> (nat \<Rightarrow> int) \<Rightarrow> u64 \<Rightarrow> bool" where
  "elf_adm u junk v \<longleftrightarrow> elf_value v \<and> (\<forall>i. junk i \<noteq> 1) \<and> 64 \<le> u_ctz0 u \<and> u_ctz0 u < 128"

lemma digits_code:
  assumes "0 \<le> b" "b \<le> 15"
  shows "to_bits 6 (word_of_int (b OR 0x30) :: u64) = to_bits 1 (1 :: u64) @ to_bits 1 (1 :: u64) @ to_bits 4 (word_of_int b :: u64)"
    "unat (take_bit 4 (word_of_int b :: u64)) = nat b"
proof -
  have "\<forall>b \<in> set [0..15]. to_bits 6 (word_of_int (b OR 0x30) :: u64) =
      to_bits 1 (1 :: u64) @ to_bits 1 (1 :: u64) @ to_bits 4 (word_of_int b :: u64) \<and>
      unat (take_bit 4 (word_of_int b :: u64)) = nat b"
    by code_simp
  then show "to_bits 6 (word_of_int (b OR 0x30) :: u64) = to_bits 1 (1 :: u64) @ to_bits 1 (1 :: u64) @ to_bits 4 (word_of_int b :: u64)"
    "unat (take_bit 4 (word_of_int b :: u64)) = nat b"
    using assms by auto
qed

lemma readInt_at:
  fixes d :: u64
  assumes "br.at r (to_bits n d @ bs)" "0 < n" "n \<le> 32"
  obtains r' where "readInt r n = Some (int (unat (take_bit n d)), r')" "br.at r' bs"
  using look_skip [OF assms] that by (metis (no_types, lifting) Option.bind.simps(2) readInt_def)

lemma raw_bits: "to_bits 2 (2 :: u64) = to_bits 1 (1 :: u64) @ to_bits 1 (0 :: u64)"
  by code_simp

lemma elf_next_raw:
  assumes "br.at r (to_bits 2 (2 :: u64) @ bs)" "\<And>r1. br.at r1 bs \<Longrightarrow>
      \<exists>r' s'. xor_next r1 s = Some (r', s') \<and> br.at r' bs' \<and> Q s' \<and> xd_storedVal s' = v"
  shows "\<exists>r' s'. elf_nextValue m r (lb, s) = Some (v, r', lb, s') \<and> br.at r' bs' \<and> Q s'"
proof -
  have "br.at r (to_bits 1 (1 :: u64) @ to_bits 1 (0 :: u64) @ bs)" using assms(1) by (simp only: raw_bits append_assoc)
  then obtain r1 where r1: "readInt r 1 = Some (int (unat (take_bit 1 (1 :: u64))), r1)" "br.at r1 (to_bits 1 (0 :: u64) @ bs)"
    by (rule readInt_at) simp_all
  from r1(2) obtain r2 where r2: "readInt r1 1 = Some (int (unat (take_bit 1 (0 :: u64))), r2)" "br.at r2 bs"
    by (rule readInt_at) simp_all
  from assms(2) [OF r2(2)] obtain r' s' where "xor_next r2 s = Some (r', s')" "br.at r' bs'" "Q s'" "xd_storedVal s' = v" by blast
  then show ?thesis using r1(1) r2(1) by (auto simp: elf_nextValue_def)
qed

lemma elf_next_cut:
  assumes "br.at r (to_bits (snd f) (word_of_int (fst f) :: u64) @ bs)" "f = (if b = lb then (0, 1) else (b OR 0x30, 6))"
    "0 \<le> b" "b \<le> 15"
    "\<And>r1. br.at r1 bs \<Longrightarrow> \<exists>r' s'. xor_next r1 s = Some (r', s') \<and> br.at r' bs' \<and> Q s' \<and> xd_storedVal s' = v'"
    "recoverV m b v' = Some v"
  shows "\<exists>r' s'. elf_nextValue m r (lb, s) = Some (v, r', b, s') \<and> br.at r' bs' \<and> Q s'"
proof (cases "b = lb")
  case True
  then have "br.at r (to_bits 1 (0 :: u64) @ bs)" using assms(1,2) by simp
  then obtain r1 where r1: "readInt r 1 = Some (int (unat (take_bit 1 (0 :: u64))), r1)" "br.at r1 bs"
    by (rule readInt_at) simp_all
  from assms(5) [OF r1(2)] obtain r' s' where
    "xor_next r1 s = Some (r', s')" "br.at r' bs'" "Q s'" "xd_storedVal s' = v'" by blast
  then show ?thesis using r1(1) assms(6) True by (auto simp: elf_nextValue_def recoverVByBetaStar_def)
next
  case False
  note c = digits_code [OF assms(3,4)]
  have "br.at r (to_bits 1 (1 :: u64) @ to_bits 1 (1 :: u64) @ to_bits 4 (word_of_int b :: u64) @ bs)"
    using assms(1) c(1) by (simp only: assms(2) False if_False fst_conv snd_conv append_assoc)
  then obtain r1 where r1: "readInt r 1 = Some (int (unat (take_bit 1 (1 :: u64))), r1)"
    "br.at r1 (to_bits 1 (1 :: u64) @ to_bits 4 (word_of_int b :: u64) @ bs)"
    by (rule readInt_at) simp_all
  from r1(2) obtain r2 where r2: "readInt r1 1 = Some (int (unat (take_bit 1 (1 :: u64))), r2)"
    "br.at r2 (to_bits 4 (word_of_int b :: u64) @ bs)"
    by (rule readInt_at) simp_all
  from r2(2) obtain r3 where "readInt r2 4 = Some (int (unat (take_bit 4 (word_of_int b :: u64))), r3)" "br.at r3 bs"
    by (rule readInt_at) simp_all
  then have r3: "readInt r2 4 = Some (b, r3)" "br.at r3 bs" using c(2) assms(3) by simp_all
  from assms(5) [OF r3(2)] obtain r' s' where
    "xor_next r3 s = Some (r', s')" "br.at r' bs'" "Q s'" "xd_storedVal s' = v'" by blast
  then show ?thesis using r1(1) r2(1) r3(1) assms(6) by (auto simp: elf_nextValue_def recoverVByBetaStar_def)
qed

lemma xor_sim_next:
  assumes "xor_sim st s" "xor_rec u st v = (fs, st')"
  shows "\<exists>s'. xor_sim st' s'"
proof -
  obtain lead trail stored first where st: "st = (lead, trail, stored, first)" by (cases st)
  have ex: "\<exists>s'. xor_sim (l, t, w, False) s'" if "l = nat INT32_MAX \<or> chosen l t" for l t w
    using that
    by (intro exI [of _ "\<lparr>xd_storedVal = w, xd_storedLeadingZeros = l, xd_storedTrailingZeros = t, xd_first = False\<rparr>"]) auto
  show ?thesis
  proof (cases first)
    case True
    then have "st' = (lead, trail, v, False)" using assms(2) by (auto simp: st)
    then show ?thesis using ex assms(1) by (auto simp: st)
  next
    case False
    then have sim: "xor_sim (lead, trail, stored, False) s" and rec: "xor_rec u (lead, trail, stored, False) v = (fs, st')"
      using assms by (simp_all add: st)
    have lt: "lead = nat INT32_MAX \<or> chosen lead trail" using sim by auto
    from sim rec show ?thesis
    proof (cases rule: xor_rec_cases)
      case zero
      show ?thesis unfolding zero(3) by (rule ex [OF lt])
    next
      case (same x)
      show ?thesis unfolding same(6) by (rule ex [OF lt])
    next
      case (new x l)
      show ?thesis unfolding new(6) by (rule ex [OF disjI2 [OF new(3)]])
    qed
  qed
qed

interpretation elf: record_codec "elf_rec m u junk" "elf_nextValue m" elf_sim "elf_adm u junk" 80
  for m :: libm and u :: elf_undef and junk :: "nat \<Rightarrow> int"
proof
  fix st t v fs st'
  assume sim: "elf_sim st t" and adm: "elf_adm u junk v" and step: "elf_rec m u junk st v = (fs, st')"
  obtain i lb xs s where st: "st = (i, lb, xs)" "t = (lb, s)" "beta_ok lb" "xor_sim xs s"
    using sim by (cases st; cases t) auto
  have v: "elf_value v" "junk i \<noteq> 1" and cz: "64 \<le> u_ctz0 u \<and> u_ctz0 u < 128" using adm by (auto simp: elf_adm_def)
  obtain f v' b where ch: "elf_choice m u (junk i) lb v = Some (f, v', b)"
      "(f = (2, 2) \<and> v' = v \<and> b = lb) \<or>
       (f = (if b = lb then (0, 1) else (b OR 0x30, 6)) \<and> 0 \<le> b \<and> b \<le> 15 \<and> recoverV m b v' = Some v)"
    by (rule elf_choice_recovers [OF v(1) st(3) v(2)]) blast+
  obtain gs xs' where rec: "xor_rec u xs v' = (gs, xs')" by (cases "xor_rec u xs v'")
  have fs: "fs = (word_of_int (fst f), snd f) # gs" "st' = (i + 1, b, xs')" using step by (simp_all add: st(1) ch(1) rec)
  have b: "beta_ok b" using ch(2) st(3) by (auto simp: beta_ok_def)
  note ok = xor_rec_ok [OF st(4) rec]
  have len: "0 < snd f" "snd f \<le> 6" using ch(2) by (auto split: if_splits)
  {
    fix r bs
    assume "br.at r (fields_bits fs @ bs)"
    then have at: "br.at r (to_bits (snd f) (word_of_int (fst f) :: u64) @ fields_bits gs @ bs)" by (simp add: fs)
    have nx: "\<exists>r' s'. xor_next r1 s = Some (r', s') \<and> br.at r' bs \<and> xor_sim xs' s' \<and> xd_storedVal s' = v'"
      if "br.at r1 (fields_bits gs @ bs)" for r1
      by (rule xor_next_at [OF st(4) rec _ that]) (rule cz)
    from ch(2) show "\<exists>r' t'. elf_nextValue m r t = Some (v, r', t') \<and> br.at r' bs \<and> elf_sim st' t'"
    proof (elim disjE conjE)
      assume "f = (2, 2)" "v' = v" "b = lb"
      then show ?thesis using elf_next_raw [where Q = "xor_sim xs'", OF _ nx] at st fs(2) b by fastforce
    next
      assume *: "f = (if b = lb then (0, 1) else (b OR 0x30, 6))" "0 \<le> b" "b \<le> 15" "recoverV m b v' = Some v"
      from elf_next_cut [where Q = "xor_sim xs'", OF at *(1-3) nx *(4)]
      show ?thesis using st fs(2) b by fastforce
    qed
  next
    obtain s' where "xor_sim xs' s'" using xor_sim_next [OF st(4) rec] by blast
    then have "elf_sim st' (b, s')" using b by (simp add: fs(2))
    then show "(\<forall>f \<in> set fs. field_ok f) \<and> length (fields_bits fs) \<le> 80 \<and> fs \<noteq> [] \<and> (\<exists>t'. elf_sim st' t')"
      using ok len by (auto simp: fs(1) simp del: elf_sim.simps)
  }
qed

section \<open>Whole series\<close>

lemma elf_decompress_codec: "elf_decompress m n r t = codec_decode (elf_nextValue m) n r t"
  by (induction n arbitrary: r t) simp_all

lemma addValue_fields:
  assumes "\<not> f64_nan v" "elf_choice m u junk (ec_lastBetaStar c) v = Some (f, v', b)"
    "xor_sim (xor_state_of (ec_xor c)) s" "xor_rec u (xor_state_of (ec_xor c)) v' = (fs, st')"
  shows "addValue m u junk c v =
    map_option (\<lambda>w. c\<lparr>ec_size := ec_size c + length (fields_bits ((word_of_int (fst f), snd f) # fs)), ec_lastBetaStar := b,
        ec_xor := xor_next_state (ec_xor c) st' (length (fields_bits fs)) w\<rparr>)
      (put_fields bit_write (xc_writer (ec_xor c)) ((word_of_int (fst f), snd f) # fs))"
proof -
  let ?x = "\<lambda>w. (ec_xor c)\<lparr>xc_writer := w\<rparr>"
  have ch: "chosen (xc_storedLeadingZeros (?x w)) (xc_storedTrailingZeros (?x w)) \<or> xc_storedLeadingZeros (?x w) = nat INT32_MAX" for w
    using assms(3) by (auto simp: xor_state_of_def)
  have rec: "xor_rec u (xor_state_of (?x w)) v' = (fs, st')" for w using assms(4) by (simp add: xor_state_of_def)
  have nx: "xor_next_state (x\<lparr>xc_writer := w0\<rparr>) st' n w = xor_next_state x st' n w" for x w0 w n
    by (cases st'; cases x) simp
  show ?thesis
    unfolding addValue_choice
    using assms(1,2) xor_addValue_fields [OF ch rec]
    by (cases c) (auto simp: writeInt_def xorCompress_def nx map_conv_bind_option comp_def split: Option.bind_splits)
qed

lemma xor_next_fields:
  "xor_state_of (xor_next_state x st n w) = st" "xc_writer (xor_next_state x st n w) = w"
  "xc_length (xor_next_state x st n w) = (if xc_first x then 1 else xc_length x + 1)"
  by (cases st; simp add: xor_state_of_def)+

lemma xor_rec_first: "xor_rec u st v = (fs, st') \<Longrightarrow> \<not> snd (snd (snd st'))"
  by (cases st) (auto simp: Let_def split: if_splits)

text \<open>The compressor writes the records of the values.\<close>

lemma addValues_fields:
  assumes "elf_sim (i, ec_lastBetaStar c, xor_state_of (ec_xor c)) t" "\<forall>v \<in> set vs. elf_value v" "\<forall>i. junk i \<noteq> 1"
    "xc_first (ec_xor c) \<Longrightarrow> xc_length (ec_xor c) = 0"
    "put_fields bit_write (xc_writer (ec_xor c))
       (codec_fields (elf_rec m u junk) (i, ec_lastBetaStar c, xor_state_of (ec_xor c)) vs) = Some w"
  shows "\<exists>c'. addValues m u junk i c vs = Some c' \<and> xc_writer (ec_xor c') = w \<and>
    ec_size c' = ec_size c +
      length (fields_bits (codec_fields (elf_rec m u junk) (i, ec_lastBetaStar c, xor_state_of (ec_xor c)) vs)) \<and>
    xc_length (ec_xor c') = xc_length (ec_xor c) + length vs"
  using assms
proof (induction vs arbitrary: i c t)
  case Nil
  then show ?case by simp
next
  case (Cons v vs)
  let ?st = "xor_state_of (ec_xor c)"
  obtain s where s: "beta_ok (ec_lastBetaStar c)" "xor_sim ?st s" using Cons.prems(1) by (cases t) auto
  have v: "elf_value v" "junk i \<noteq> 1" using Cons.prems(2,3) by simp_all
  then have nn: "\<not> f64_nan v" using finite_cases by (auto simp: elf_value_def)
  obtain f v' b where ch: "elf_choice m u (junk i) (ec_lastBetaStar c) v = Some (f, v', b)" "beta_ok b"
    using elf_choice_ok [OF v(1) s(1) v(2)] by blast
  obtain gs st' where rec: "xor_rec u ?st v' = (gs, st')" by (cases "xor_rec u ?st v'")
  let ?fs = "(word_of_int (fst f), snd f) # gs"
  let ?rest = "codec_fields (elf_rec m u junk) (i + 1, b, st') vs"
  have fields: "codec_fields (elf_rec m u junk) (i, ec_lastBetaStar c, ?st) (v # vs) = ?fs @ ?rest"
    by (simp add: ch(1) rec)
  obtain w1 where w1: "put_fields bit_write (xc_writer (ec_xor c)) ?fs = Some w1" "put_fields bit_write w1 ?rest = Some w"
    using Cons.prems(5) unfolding fields put_fields_append by (auto split: Option.bind_splits)
  let ?c = "c\<lparr>ec_size := ec_size c + length (fields_bits ?fs), ec_lastBetaStar := b,
      ec_xor := xor_next_state (ec_xor c) st' (length (fields_bits gs)) w1\<rparr>"
  have step: "addValue m u (junk i) c v = Some ?c"
    using addValue_fields [OF nn ch(1) s(2) rec] w1(1) by simp
  obtain s' where "xor_sim st' s'" using xor_sim_next [OF s(2) rec] by blast
  then have sim: "elf_sim (i + 1, b, st') (b, s')" using ch(2) by simp
  have first: "\<not> xc_first (xor_next_state (ec_xor c) st' (length (fields_bits gs)) w1)"
    using xor_rec_first [OF rec] by (cases st') simp
  have "\<exists>c'. addValues m u junk (i + 1) ?c vs = Some c' \<and> xc_writer (ec_xor c') = w \<and>
    ec_size c' = ec_size ?c + length (fields_bits ?rest) \<and> xc_length (ec_xor c') = xc_length (ec_xor ?c) + length vs"
    using Cons.IH [of "i + 1" ?c "(b, s')"] sim Cons.prems(2,3) first w1(2) by (simp add: xor_next_fields)
  then show ?case
    unfolding fields using step Cons.prems(4) by (auto simp: xor_next_fields)
qed

text \<open>The result of \<open>__builtin_ctzl(0)\<close> matters for a first value 0 only.\<close>

lemma elf_choice_ctz0: "elf_choice m (u\<lparr>u_ctz0 := z\<rparr>) junk lb v = elf_choice m u junk lb v"
proof -
  have "shl_u64 (u\<lparr>u_ctz0 := z\<rparr>) = shl_u64 u" by (intro ext) (simp add: shl_u64_def)
  then show ?thesis by (simp only: elf_choice_def)
qed

lemma xor_rec_ctz0:
  assumes "\<not> first \<or> v \<noteq> 0"
  shows "xor_rec (u\<lparr>u_ctz0 := z\<rparr>) (lead, trail, stored, first) v = xor_rec u (lead, trail, stored, first) v"
proof -
  have "shr_u64 (u\<lparr>u_ctz0 := z\<rparr>) = shr_u64 u" by (intro ext) (simp add: shr_u64_def)
  then show ?thesis using assms by (auto simp: xor_new_window_def xor_same_window_def ctzl_def Let_def)
qed

lemma codec_fields_ctz0:
  "codec_fields (elf_rec m (u\<lparr>u_ctz0 := z\<rparr>) junk) (i, lb, lead, trail, stored, False) vs =
   codec_fields (elf_rec m u junk) (i, lb, lead, trail, stored, False) vs"
proof (induction vs arbitrary: i lb lead trail stored)
  case Nil
  then show ?case by simp
next
  case (Cons v vs)
  show ?case
  proof (cases "elf_choice m u (junk i) lb v")
    case None
    then show ?thesis using Cons.IH by (simp add: elf_choice_ctz0)
  next
    case (Some r)
    obtain f v' b where r: "r = (f, v', b)" by (cases r)
    obtain fs l t w first where rec: "xor_rec u (lead, trail, stored, False) v' = (fs, l, t, w, first)"
      by (cases "xor_rec u (lead, trail, stored, False) v'") auto
    then have "\<not> first" using xor_rec_first by fastforce
    then show ?thesis using Cons.IH Some r rec xor_rec_ctz0 [where first = False and v = v' and z = z and u = u]
      by (simp add: elf_choice_ctz0 del: xor_rec.simps)
  qed
qed

lemma first_fields_ctz0:
  assumes "elf_value v" "beta_ok lb" "junk i \<noteq> 1" "v \<noteq> 0"
  shows "codec_fields (elf_rec m (u\<lparr>u_ctz0 := z\<rparr>) junk) (i, lb, lead, trail, stored, True) (v # vs) =
    codec_fields (elf_rec m u junk) (i, lb, lead, trail, stored, True) (v # vs)"
proof -
  obtain f v' b where ch: "elf_choice m u (junk i) lb v = Some (f, v', b)" "v' \<noteq> 0"
    using elf_choice_ok [OF assms(1-3)] assms(4) by blast
  obtain fs l t w first where rec: "xor_rec u (lead, trail, stored, True) v' = (fs, l, t, w, first)"
    by (cases "xor_rec u (lead, trail, stored, True) v'") auto
  then have "\<not> first" using xor_rec_first by fastforce
  then show ?thesis
    using ch rec codec_fields_ctz0 xor_rec_ctz0 [where first = True and v = v' and z = z and u = u]
    by (simp add: elf_choice_ctz0 del: xor_rec.simps)
qed

text \<open>The words up to the end of the fields, although a final mark follows them.\<close>

lemma words_bits_take: "words_bits (take k ws) = take (32 * k) (words_bits ws)"
  by (induction ws arbitrary: k) (auto simp: take_Cons' diff_mult_distrib2)

lemma words_bytes_take: "words_bytes (take k ws) = take (4 * k) (words_bytes ws)"
  by (induction ws arbitrary: k) (auto simp: words_bytes_def take_Cons' diff_mult_distrib2)

lemma marked_stream:
  assumes "fs \<noteq> []" "\<forall>f \<in> set fs. field_ok f" "length (fields_bits fs) + 2 \<le> 32 * n"
  defines "k \<equiv> (length (fields_bits fs) + 31) div 32"
  obtains w0 w1 w2 w3 k' r where
    "initBitWriter (replicate n 0) n = Some w0" "put_fields bit_write w0 fs = Some w1" "bit_write w1 2 2 = Some w2"
    "flush w2 = Some (w3, k')" "length (take k (w_output w3)) = k"
    "initBitReader (take k (w_output w3)) k = Some r" "br.at r (fields_bits fs)"
proof -
  let ?all = "fs @ [(2, 2)]"
  have pos: "0 < length (fields_bits fs)" using assms(1,2) by (cases fs) auto
  have "1 \<le> n" using assms(3) by (cases n) auto
  then obtain w0 where w0: "initBitWriter (replicate n 0) n = Some w0" "writer_ok w0" "writer_bits w0 = []"
      "writer_cap w0 = 32 * n"
    using initBitWriter_ok [of "replicate n 0" n] by auto
  obtain w2 where w2: "put_fields bit_write w0 ?all = Some w2" "writer_ok w2"
      "writer_bits w2 = fields_bits ?all" "writer_cap w2 = 32 * n"
    using bw.put_fields_appends [of w0 ?all] w0 assms(2,3) by auto
  then obtain w1 where w1: "put_fields bit_write w0 fs = Some w1" "bit_write w1 2 2 = Some w2"
    by (auto simp: put_fields_append split: Option.bind_splits)
  let ?k' = "(length (fields_bits ?all) + 31) div 32"
  obtain w3 pad where w3: "flush w2 = Some (w3, ?k')" "length (w_output w3) = w_len w2"
      "words_bits (take ?k' (w_output w3)) = fields_bits ?all @ replicate pad False" "?k' \<le> w_len w2"
    using flush_ok [OF w2(2)] w2(3,4) assms(3) by auto
  have kk: "k \<le> ?k'" unfolding k_def by (intro div_le_mono) simp
  then have len: "length (take k (w_output w3)) = k" using w3(2,4) by simp
  have "words_bits (take k (w_output w3)) = words_bits (take k (take ?k' (w_output w3)))" using kk by (simp add: min_def)
  also have "\<dots> = take (32 * k) (fields_bits ?all @ replicate pad False)"     unfolding words_bits_take [of k "take ?k' (w_output w3)"] w3(3) ..
  also have "\<dots> = take (32 * k) (fields_bits fs @ to_bits 2 (2 :: u64) @ replicate pad False)" by simp
  also have "\<dots> = fields_bits fs @ take (32 * k - length (fields_bits fs)) (to_bits 2 (2 :: u64) @ replicate pad False)"
  proof -
    have "length (fields_bits fs) \<le> 32 * k" unfolding k_def by simp
    then show ?thesis by (simp add: take_append)
  qed
  finally obtain rest where "words_bits (take k (w_output w3)) = (fields_bits fs @ rest) @ replicate 0 False" by simp
  moreover have "0 < k" using pos by (simp add: k_def div_greater_zero_iff Suc_le_eq)
  then have "take k (w_output w3) \<noteq> []" using len by fastforce
  ultimately obtain r where "initBitReader (take k (w_output w3)) (length (take k (w_output w3))) = Some r"
    "br.at r (fields_bits fs @ rest)"
    using reader_after_flush by blast
  then have "initBitReader (take k (w_output w3)) k = Some r" "br.at r (fields_bits fs)"
    using br.at_prefix len by auto
  then show thesis using that w0(1) w1 w3(1) len by blast
qed

lemma elf_bytes:
  assumes "length (take k ws) = k" "k = (L + 31) div 32"
  shows "take ((32 + L + 31) div 32 * 4) (le_bytes 4 (n :: u32) @ words_bytes ws) = words_bytes (n # take k ws)"
proof -
  have "(32 + (L + 31)) div 32 = (L + 31) div 32 + 1" by (rule div_add_self1) simp
  then have "(32 + L + 31) div 32 * 4 = 4 + 4 * k" unfolding assms(2) add.assoc [of 32 L 31] by simp
  then show ?thesis by (simp add: words_bytes_take words_bytes_def [of "n # ws" for ws] words_bytes_def [symmetric])
qed

text \<open>C7. Elf is lossless: a non-empty series of zeros and of values with magnitudes from \<open>0.0001\<close> to below \<open>10^9\<close> is
  compressed without a failing assertion, an undefined conversion or a write outside the buffer, and decompressed to
  the same bit patterns, whatever the mathematical library computes and whatever the undefined shifts return.  The
  uninitialised flag must not happen to be 1, and \<open>__builtin_ctzl(0)\<close> must be at least 64 if the first value is 0.\<close>

theorem elf_roundtrip:
  assumes "vs \<noteq> []" "length vs < 2 ^ 24" "\<forall>v \<in> set vs. elf_value v" "\<forall>i. junk i \<noteq> 1"
    "hd vs = 0 \<longrightarrow> 64 \<le> u_ctz0 u \<and> u_ctz0 u < 128"
  shows "\<exists>bytes. elf_encode m u junk vs = Some bytes \<and> elf_decode m bytes = Some (int (length vs), vs)"
proof -
  let ?n = "length vs * 12 div 4"
  let ?st = "(0, INT32_MAX, nat INT32_MAX, nat INT32_MAX, 0, True) :: elf_state"
  let ?t = "(INT32_MAX, \<lparr>xd_storedVal = 0, xd_storedLeadingZeros = nat INT32_MAX,
      xd_storedTrailingZeros = nat INT32_MAX, xd_first = True\<rparr>)"
  define u' where "u' = (if hd vs = 0 then u else u\<lparr>u_ctz0 := 64\<rparr>)"
  define fs where "fs = codec_fields (elf_rec m u junk) ?st vs"
  have sim: "elf_sim ?st ?t" by (simp add: beta_ok_def)
  have "codec_fields (elf_rec m u' junk) ?st vs = fs"
    unfolding fs_def u'_def using assms(1,3,4)
    by (cases vs) (auto simp: beta_ok_def intro!: first_fields_ctz0 simp del: codec_fields.simps)
  note fs' = this [symmetric]
  have adm: "\<forall>v \<in> set vs. elf_adm u' junk v" using assms(3-5) by (auto simp: elf_adm_def u'_def)
  note ok = elf.codec_fields_ok [OF sim adm, where m = m, folded fs']
  have pos: "fs \<noteq> []" "1 \<le> length vs" using ok assms(1) by (auto simp: Suc_le_eq)
  have room: "length (fields_bits fs) + 2 \<le> 32 * ?n" using ok pos(2) by simp
  let ?k = "(length (fields_bits fs) + 31) div 32"
  obtain w0 w1 w2 w3 k' r where w:
    "initBitWriter (replicate ?n 0) ?n = Some w0" "put_fields bit_write w0 fs = Some w1" "bit_write w1 2 2 = Some w2"
    "flush w2 = Some (w3, k')" "length (take ?k (w_output w3)) = ?k"
    "initBitReader (take ?k (w_output w3)) ?k = Some r" "br.at r (fields_bits fs)"
    by (rule marked_stream [OF pos(1) _ room]) (use ok in blast)
  let ?x = "\<lparr>xc_storedLeadingZeros = nat INT32_MAX, xc_storedTrailingZeros = nat INT32_MAX, xc_storedVal = 0,
      xc_first = True, xc_size = 32, xc_length = 0, xc_writer = w0\<rparr>"
  let ?c = "\<lparr>ec_size = 32, ec_lastBetaStar = INT32_MAX, ec_xor = ?x\<rparr>"
  obtain c' where c': "addValues m u junk 0 ?c vs = Some c'" "xc_writer (ec_xor c') = w1"
    "ec_size c' = 32 + length (fields_bits fs)" "xc_length (ec_xor c') = length vs"
    using addValues_fields [of 0 ?c ?t vs junk m u w1] sim assms(3,4) w(2)
    by (auto simp: xor_state_of_def fs_def simp del: elf_sim.simps)
  let ?bytes = "words_bytes (of_nat (length vs) # take ?k (w_output w3))"
  have "32 + length (fields_bits fs) + 31 < 2 ^ 31" using ok assms(2) by simp
  then have "elf_encode m u junk vs = Some ?bytes"
    using w(1,3,4) c' elf_bytes [OF w(5) refl] by (simp add: elf_encode_def xor_init_def)
  moreover have "elf_decompress m (length vs) r ?t = Some vs"
    unfolding elf_decompress_codec by (rule elf.codec_decode_at [OF _ sim adm]) (use w(7) fs' in simp)
  moreover have "sint (of_nat (length vs) :: u32) = int (length vs)"
    using assms(2) by (simp add: signed_of_nat signed_take_bit_int_eq_self)
  ultimately show ?thesis using w(5,6) by (intro exI [of _ ?bytes]) (simp add: elf_decode_def)
qed

text \<open>Witness of C7: the series 1.1, 0, -2.25, 0.001.\<close>

theorem elf_roundtrip_witness:
  "\<exists>bytes. elf_encode \<lparr>m_log10 = \<lambda>x. x, m_pow = \<lambda>x y. x, m_sqrt = \<lambda>x. x\<rparr> \<lparr>u_ctz0 = 0, u_shift = 7\<rparr> (\<lambda>i. - int i)
       [0x3FF199999999999A, 0, 0xC002000000000000, 0x3F50624DD2F1A9FC] = Some bytes \<and>
     elf_decode \<lparr>m_log10 = \<lambda>x. x, m_pow = \<lambda>x y. x, m_sqrt = \<lambda>x. x\<rparr> bytes =
       Some (4, [0x3FF199999999999A, 0, 0xC002000000000000, 0x3F50624DD2F1A9FC])"
proof -
  let ?vs = "[0x3FF199999999999A, 0, 0xC002000000000000, 0x3F50624DD2F1A9FC] :: double list"
  have "elf_value 0x3FF199999999999A" "elf_value 0" "elf_value 0xC002000000000000" "elf_value 0x3F50624DD2F1A9FC"
    by (rule elf_valueI; simp add: f64_finite_def mag_def units_def inf_mag_def one_units_def)+
  then have "\<forall>v \<in> set ?vs. elf_value v" by simp
  moreover have "length ?vs < 2 ^ 24" "length ?vs = 4" "hd ?vs \<noteq> 0" "?vs \<noteq> []" "\<forall>i. - int i \<noteq> 1" by simp_all
  ultimately show ?thesis using elf_roundtrip [of ?vs "\<lambda>i. - int i"] by (metis of_nat_numeral)
qed

end
