(* ===== verification/Ovlq.thy ===== *)
theory Ovlq
  imports BitStream
begin

text \<open>
  Optimal variable-length quantities, \<open>Machete/machete/ovlq.cpp\<close>.  A mapping is a 32-bit mask
  whose one bits give the data lengths (levels) in use; a value is stored in the shortest level
  that fits it, preceded by the level number in unary when there are several levels.

  The theory models the search for a mapping (a dynamic programme over the bit lengths that
  occur), both table builders, the encoder and the decoder, and proves that the announced size
  is exactly the number of bits written, that the decode table inverts the encode table, and
  that decoding inverts encoding.  The decode table is built with 32-bit builtins from a 64-bit
  mask; the value of \<open>__builtin_ctz(0)\<close> that this can ask for is the parameter \<open>ctz0\<close>.
\<close>

section \<open>Bit lengths\<close>

definition data_bitlen :: "int32 \<Rightarrow> nat" where
  "data_bitlen x =
     (let d = if sint x < 0 then NOT x else x
      in if d = 0 then 1 else 33 - clz d)"

definition DIV_UP :: "int \<Rightarrow> nat \<Rightarrow> int" where
  "DIV_UP x b = drop_bit b (x + 2 ^ b - 1)"

definition ALIGN_UP :: "int \<Rightarrow> nat \<Rightarrow> int" where
  "ALIGN_UP x b = (x + 2 ^ b - 1) AND NOT (2 ^ b - 1)"

section \<open>The search for a mapping\<close>

text \<open>\<open>range_cnt[data_min_bitlen[i]]++\<close>.\<close>

fun count_bitlens :: "nat list \<Rightarrow> int list \<Rightarrow> int list option" where
  "count_bitlens [] cnt = Some cnt"
| "count_bitlens (b # bs) cnt =
     (if b < length cnt then count_bitlens bs (cnt[b := i32 (cnt ! b + 1)]) else None)"

text \<open>The index at which the first loop over \<open>range_cnt\<close> stops (33 if no count is positive),
  and the second loop, which collects the other lengths with their running sums.\<close>

function first_range :: "int list \<Rightarrow> nat \<Rightarrow> nat" where
  "first_range cnt i = (if i \<le> 32 \<and> cnt ! i = 0 then first_range cnt (i + 1) else i)"
  by pat_completeness auto
termination by (relation "measure (\<lambda>(_, i). 33 - i)") auto

function more_ranges :: "int list \<Rightarrow> nat \<Rightarrow> nat list \<Rightarrow> int list \<Rightarrow> nat list \<times> int list" where
  "more_ranges cnt i rng sums =
     (if i \<le> 32
      then if cnt ! i \<noteq> 0
           then more_ranges cnt (i + 1) (rng @ [i]) (sums @ [i32 (last sums + cnt ! i)])
           else more_ranges cnt (i + 1) rng sums
      else (rng, sums))"
  by pat_completeness auto
termination by (relation "measure (\<lambda>(_, i, _). 33 - i)") auto

declare first_range.simps [simp del] more_ranges.simps [simp del]

text \<open>One row of the dynamic programme: the inner loop over \<open>j\<close> improves
  \<open>(C[i], A[i], M[i])\<close>.\<close>

fun relax ::
  "int \<Rightarrow> nat list \<Rightarrow> int list \<Rightarrow> int list \<Rightarrow> int list \<Rightarrow> int32 list \<Rightarrow> nat \<Rightarrow> nat list \<Rightarrow>
   int \<times> int \<times> int32 \<Rightarrow> int \<times> int \<times> int32" where
  "relax len rng sums C A M i [] row = row"
| "relax len rng sums C A M i (j # js) (ci, ai, mi) =
     (let c = i32 (C ! j + A ! j + (int (rng ! i) - int (rng ! j)) * (len - sums ! j))
      in relax len rng sums C A M i js
           (if c < ci
            then (c, i32 (len - sums ! j), push_bit (rng ! i - 1) 1 OR M ! j)
            else (ci, ai, mi)))"

fun dp_rows ::
  "int \<Rightarrow> nat list \<Rightarrow> int list \<Rightarrow> nat list \<Rightarrow> int list \<times> int list \<times> int32 list \<Rightarrow>
   int list \<times> int list \<times> int32 list" where
  "dp_rows len rng sums [] (C, A, M) = (C, A, M)"
| "dp_rows len rng sums (i # is) (C, A, M) =
     (let (c, a, m) = relax len rng sums C A M i [0..<i]
            (i32 (len * int (rng ! i)), i32 len, push_bit (rng ! i - 1) 1)
      in dp_rows len rng sums is (C @ [c], A @ [a], M @ [m]))"

text \<open>With no value at all the code shifts by \<open>-1\<close>.\<close>

definition ovlq_search_optimal_mapping :: "nat list \<Rightarrow> (int32 \<times> int) option" where
  "ovlq_search_optimal_mapping data_min_bitlen = do {
     cnt \<leftarrow> count_bitlens data_min_bitlen (replicate 33 0);
     let len = int (length data_min_bitlen);
     let i = first_range cnt 1;
     if 32 < i then None
     else
       let (rng, sums) = more_ranges cnt (i + 1) [i] [cnt ! i];
           range_top = length rng
       in if range_top = 1
          then Some (push_bit (rng ! 0 - 1) 1, int (rng ! 0) * len)
          else
            let (C, A, M) = dp_rows len rng sums [1..<range_top]
                  ([i32 (len * int (rng ! 0))], [i32 len], [push_bit (rng ! 0 - 1) 1])
            in Some (M ! (range_top - 1), C ! (range_top - 1)) }"

section \<open>Encode table and encoder\<close>

record encode_entry =
  e_flen :: nat
  e_flag :: int32
  e_dlen :: nat

function fill_entries ::
  "nat \<Rightarrow> nat \<Rightarrow> encode_entry \<Rightarrow> encode_entry option list \<Rightarrow> nat \<times> encode_entry option list" where
  "fill_entries t dlen entry table =
     (if t \<le> dlen then fill_entries (t + 1) dlen entry (table[t := Some entry]) else (t, table))"
  by pat_completeness auto
termination by (relation "measure (\<lambda>(t, dlen, _). Suc dlen - t)") auto

declare fill_entries.simps [simp del]

function encode_levels ::
  "nat \<Rightarrow> nat \<Rightarrow> nat \<Rightarrow> int32 \<Rightarrow> int32 \<Rightarrow> encode_entry option list \<Rightarrow>
   nat \<times> int32 \<times> int32 \<times> encode_entry option list" where
  "encode_levels i level t flag mapping table =
     (if i < level
      then
        let dlen = ctz mapping + 1;
            (t, table) = fill_entries t dlen \<lparr>e_flen = i, e_flag = flag, e_dlen = dlen\<rparr> table
        in encode_levels (i + 1) level t (flag OR push_bit i 1)
             (mapping AND NOT (push_bit (dlen - 1) 1)) table
      else (t, flag, mapping, table))"
  by pat_completeness auto
termination by (relation "measure (\<lambda>(i, level, _). level - i)") auto

declare encode_levels.simps [simp del]

text \<open>The outer option is the assertion, the inner one the null pointer returned for a single
  level.  The right shift of the flag is arithmetic.\<close>

definition ovlq_build_encode_table_with_mapping ::
  "int32 \<Rightarrow> encode_entry option list option option" where
  "ovlq_build_encode_table_with_mapping mapping =
     (let level = popcount mapping
      in if level = 0 then None
         else if 1 < level
         then
           let (t, flag, mapping, table) =
                 encode_levels 1 level 1 0 mapping (replicate 33 None);
               dlen = ctz mapping + 1;
               (t, table) = fill_entries t dlen
                 \<lparr>e_flen = level - 1, e_flag = signed_drop_bit 1 flag, e_dlen = dlen\<rparr> table
           in Some (Some table)
         else Some None)"

fun write_plain :: "bit_writer \<Rightarrow> nat \<Rightarrow> int32 list \<Rightarrow> bit_writer option" where
  "write_plain w bitlen [] = Some w"
| "write_plain w bitlen (x # xs) = do {
     w \<leftarrow> bit_write w (scast x) bitlen;
     write_plain w bitlen xs }"

fun write_levelled ::
  "bit_writer \<Rightarrow> encode_entry option list \<Rightarrow> (int32 \<times> nat) list \<Rightarrow> bit_writer option" where
  "write_levelled w table [] = Some w"
| "write_levelled w table ((x, bitlen) # xs) = do {
     entry \<leftarrow> table ! bitlen;
     w \<leftarrow> bit_write w (scast (e_flag entry)) (e_flen entry);
     w \<leftarrow> bit_write w (scast x) (e_dlen entry);
     write_levelled w table xs }"

definition ovlq_encode :: "int32 list \<Rightarrow> u8 list option" where
  "ovlq_encode input = do {
     let data_min_bitlen = map data_bitlen input;
     (mapping, total_bitlen) \<leftarrow> ovlq_search_optimal_mapping data_min_bitlen;
     table \<leftarrow> ovlq_build_encode_table_with_mapping mapping;
     let osize = 8 + nat (ALIGN_UP (DIV_UP total_bitlen 3) 2);
     let words = (osize - 8) div 4;
     w \<leftarrow> initBitWriter (replicate words 0) words;
     w \<leftarrow> (case table of
             None \<Rightarrow> write_plain w (ctz mapping + 1) input
           | Some table \<Rightarrow> write_levelled w table (zip input data_min_bitlen));
     (w, k) \<leftarrow> flush w;
     Some (le_bytes 4 (of_nat (length input) :: u32) @ le_bytes 4 mapping @
           words_bytes (w_output w)) }"

section \<open>Decode table and decoder\<close>

record decode_entry =
  d_flen :: nat
  d_dlen :: nat

text \<open>\<open>__builtin_ctz\<close> of the low 32 bits, and \<open>mapping &= ~(1 << min_len)\<close>, whose right
  operand is a 32-bit \<open>int\<close> that is sign-extended.\<close>

definition ctz32 :: "nat \<Rightarrow> u64 \<Rightarrow> nat" where
  "ctz32 ctz0 m = (let v = ucast m :: u32 in if v = 0 then ctz0 else ctz v)"

definition clear_level :: "u64 \<Rightarrow> nat \<Rightarrow> u64 option" where
  "clear_level m min_len =
     (if min_len < 32 then Some (m AND scast (NOT (push_bit min_len (1 :: int32)))) else None)"

fun decode_entries ::
  "nat \<Rightarrow> nat \<Rightarrow> nat \<Rightarrow> u32 \<Rightarrow> decode_entry \<Rightarrow> u64 \<Rightarrow> nat \<Rightarrow> decode_entry list option" where
  "decode_entries ctz0 0 i msk entry mapping min_len = Some []"
| "decode_entries ctz0 (Suc n) i msk entry mapping min_len =
     (if msk AND of_nat i \<noteq> 0
      then do {
        mapping \<leftarrow> clear_level mapping min_len;
        let min_len = ctz32 ctz0 mapping;
        let entry = \<lparr>d_flen = d_flen entry + 1, d_dlen = min_len\<rparr>;
        rest \<leftarrow> decode_entries ctz0 n (i + 1) (drop_bit 1 msk) entry mapping min_len;
        Some (entry # rest) }
      else do {
        rest \<leftarrow> decode_entries ctz0 n (i + 1) msk entry mapping min_len;
        Some (entry # rest) })"

text \<open>\<open>1 << (level - 1)\<close> overflows \<open>int\<close> from 32 levels on.\<close>

definition ovlq_build_decode_table_with_mapping ::
  "nat \<Rightarrow> u64 \<Rightarrow> (decode_entry list \<times> nat) option" where
  "ovlq_build_decode_table_with_mapping ctz0 mapping =
     (let level = popcount mapping;
          min_len = ctz mapping;
          ent_cnt = 2 ^ (level - 1) :: nat;
          msk = push_bit (level - 2) 1 :: u32
      in if level < 2 \<or> 31 < level then None
         else do {
           table \<leftarrow> decode_entries ctz0 ent_cnt 0 msk \<lparr>d_flen = 1, d_dlen = min_len\<rparr> mapping min_len;
           let lst = table ! (ent_cnt - 1);
           let table = table[ent_cnt - 1 := lst\<lparr>d_flen := d_flen lst - 1\<rparr>];
           Some (table, d_flen (table ! (ent_cnt - 1))) })"

text \<open>\<open>d << (32 - bitlen) >> (32 - bitlen)\<close> on \<open>int32_t\<close>.\<close>

definition sign_extend :: "nat \<Rightarrow> u64 \<Rightarrow> int32" where
  "sign_extend bitlen d = signed_drop_bit (32 - bitlen) (push_bit (32 - bitlen) (ucast d))"

fun read_plain :: "nat \<Rightarrow> bit_reader \<Rightarrow> nat \<Rightarrow> int32 list option" where
  "read_plain 0 r bitlen = Some []"
| "read_plain (Suc n) r bitlen = do {
     d \<leftarrow> peek r bitlen;
     r \<leftarrow> forward r bitlen;
     xs \<leftarrow> read_plain n r bitlen;
     Some (sign_extend bitlen d # xs) }"

fun read_levelled :: "nat \<Rightarrow> bit_reader \<Rightarrow> decode_entry list \<Rightarrow> nat \<Rightarrow> int32 list option" where
  "read_levelled 0 r table index_bitlen = Some []"
| "read_levelled (Suc n) r table index_bitlen = do {
     index \<leftarrow> peek r index_bitlen;
     let entry = table ! unat index;
     r \<leftarrow> forward r (d_flen entry);
     d \<leftarrow> peek r (d_dlen entry);
     r \<leftarrow> forward r (d_dlen entry);
     xs \<leftarrow> read_levelled n r table index_bitlen;
     Some (sign_extend (d_dlen entry) d # xs) }"

definition ovlq_decode :: "nat \<Rightarrow> u8 list \<Rightarrow> int32 list option" where
  "ovlq_decode ctz0 input = do {
     (lb, rest) \<leftarrow> split_at 4 input;
     (mb, payload) \<leftarrow> split_at 4 rest;
     let len = unat (of_le_bytes lb :: u32);
     let mapping = (push_bit 1 (ucast (of_le_bytes mb :: u32)) :: u64);
     r \<leftarrow> initBitReader (bytes_words payload) (length payload div 4);
     let level = popcount mapping;
     if level = 1 then read_plain len r (ctz mapping)
     else do {
       (table, index_bitlen) \<leftarrow> ovlq_build_decode_table_with_mapping ctz0 mapping;
       read_levelled len r table index_bitlen } }"

section \<open>The counting loops\<close>

definition above :: "nat list \<Rightarrow> nat \<Rightarrow> nat" where
  "above bs d = length (filter (\<lambda>b. d < b) bs)"

definition upto_cnt :: "nat list \<Rightarrow> nat \<Rightarrow> nat" where
  "upto_cnt bs d = length (filter (\<lambda>b. b \<le> d) bs)"

definition occurring :: "nat list \<Rightarrow> nat \<Rightarrow> nat list" where
  "occurring bs i = filter (\<lambda>b. b \<in> set bs) [i..<33]"

definition bitlens_ok :: "nat list \<Rightarrow> bool" where
  "bitlens_ok bs \<longleftrightarrow> bs \<noteq> [] \<and> (\<forall>b \<in> set bs. 1 \<le> b \<and> b \<le> 32) \<and> length bs < 2 ^ 25"

lemma upto_above: "upto_cnt bs d + above bs d = length bs"
  by (induction bs) (auto simp: upto_cnt_def above_def)

lemma count_bitlens_eq:
  assumes "\<forall>b \<in> set bs. b < length cnt" "\<forall>c \<in> set cnt. 0 \<le> c \<and> c + int (length bs) < 2 ^ 31"
  shows "count_bitlens bs cnt =
           Some (map (\<lambda>b. cnt ! b + int (count_list bs b)) [0..<length cnt])"
  using assms
proof (induction bs arbitrary: cnt)
  case Nil
  then show ?case by (simp add: map_nth)
next
  case (Cons b bs)
  let ?cnt = "cnt[b := cnt ! b + 1]"
  have b: "b < length cnt" using Cons.prems(1) by simp
  then have cb: "0 \<le> cnt ! b" "cnt ! b + int (length bs) + 1 < 2 ^ 31"
    using Cons.prems(2) nth_mem [OF b] by (fastforce simp: algebra_simps)+
  then have "i32 (cnt ! b + 1) = cnt ! b + 1" by simp
  moreover have "\<forall>c \<in> set ?cnt. 0 \<le> c \<and> c + int (length bs) < 2 ^ 31"
  proof
    fix c assume "c \<in> set ?cnt"
    then consider "c = cnt ! b + 1" | "c \<in> set cnt" using set_update_subset_insert by fast
    then show "0 \<le> c \<and> c + int (length bs) < 2 ^ 31"
      using cb Cons.prems(2) by cases auto
  qed
  ultimately have "count_bitlens (b # bs) cnt =
      Some (map (\<lambda>a. ?cnt ! a + int (count_list bs a)) [0..<length ?cnt])"
    using Cons.IH [of ?cnt] Cons.prems(1) b by simp
  then show ?case using b by (auto simp: nth_list_update intro!: map_cong)
qed

lemma count_bitlens_start:
  assumes "bitlens_ok bs"
  shows "count_bitlens bs (replicate 33 0) = Some (map (\<lambda>b. int (count_list bs b)) [0..<33])"
proof -
  have "\<forall>b \<in> set bs. b < length (replicate 33 (0 :: int))"
    using assms by (auto simp: bitlens_ok_def)
  moreover have "\<forall>c \<in> set (replicate 33 0). 0 \<le> c \<and> c + int (length bs) < 2 ^ 31"
    using assms by (auto simp: bitlens_ok_def)
  ultimately show ?thesis
    by (subst count_bitlens_eq) (auto simp del: upt_Suc intro!: map_cong)
qed

lemma upt_33: "i \<le> 32 \<Longrightarrow> [i..<33] = i # [Suc i..<33]"
  by (simp add: upt_conv_Cons)

lemma occurring_step:
  "i \<le> 32 \<Longrightarrow> occurring bs i = (if i \<in> set bs then i # occurring bs (Suc i) else occurring bs (Suc i))"
  by (simp add: occurring_def upt_33)

lemma count_nonzero: "i \<le> 32 \<Longrightarrow> map (\<lambda>b. int (count_list bs b)) [0..<33] ! i = int (count_list bs i)"
  by (simp del: upt_Suc)

lemma first_range_eq:
  assumes "occurring bs i = k # ks" "i \<le> 33"
  shows "first_range (map (\<lambda>b. int (count_list bs b)) [0..<33]) i = k \<and> ks = occurring bs (Suc k) \<and> k \<le> 32"
  using assms
proof (induction "33 - i" arbitrary: i)
  case 0
  then show ?case by (simp add: occurring_def)
next
  case (Suc n)
  then have i: "i \<le> 32" by simp
  show ?case
  proof (cases "i \<in> set bs")
    case True
    then have "count_list bs i \<noteq> 0" by (simp add: count_list_0_iff)
    with True i Suc.prems show ?thesis
      by (subst first_range.simps) (auto simp: count_nonzero occurring_step simp del: upt_Suc)
  next
    case False
    then have "count_list bs i = 0" by (simp add: count_list_0_iff)
    with False i Suc.hyps(2) Suc.prems Suc.hyps(1) [of "Suc i"] show ?thesis
      by (subst first_range.simps) (simp add: count_nonzero occurring_step del: upt_Suc)
  qed
qed

lemma upto_cnt_Suc: "upto_cnt bs (Suc i) = upto_cnt bs i + count_list bs (Suc i)"
  by (induction bs) (auto simp: upto_cnt_def le_Suc_eq)

lemma more_ranges_eq:
  assumes "bitlens_ok bs" "last sums = int (upto_cnt bs i)" "i \<le> 32"
  shows "more_ranges (map (\<lambda>b. int (count_list bs b)) [0..<33]) (Suc i) rng sums =
           (rng @ occurring bs (Suc i), sums @ map (\<lambda>r. int (upto_cnt bs r)) (occurring bs (Suc i)))"
  using assms(2,3)
proof (induction "32 - i" arbitrary: i rng sums)
  case 0
  then show ?case by (subst more_ranges.simps) (simp add: occurring_def)
next
  case (Suc n)
  then have i: "Suc i \<le> 32" by simp
  have "upto_cnt bs (Suc i) \<le> length bs" using upto_above [of bs "Suc i"] by simp
  then have wrap: "i32 (last sums + int (count_list bs (Suc i))) = int (upto_cnt bs (Suc i))"
    using assms(1) Suc.prems(1) by (simp add: upto_cnt_Suc bitlens_ok_def)
  show ?case
  proof (cases "Suc i \<in> set bs")
    case True
    then have "count_list bs (Suc i) \<noteq> 0" by (simp add: count_list_0_iff)
    with True i Suc wrap show ?thesis
      by (subst more_ranges.simps) (simp add: count_nonzero occurring_step del: upt_Suc)
  next
    case False
    then have "count_list bs (Suc i) = 0" by (simp add: count_list_0_iff)
    with False i Suc show ?thesis
      by (subst more_ranges.simps) (simp add: count_nonzero occurring_step upto_cnt_Suc del: upt_Suc)
  qed
qed

lemma occurring_props:
  assumes "bitlens_ok bs"
  shows "occurring bs 1 \<noteq> []" "sorted_wrt (<) (occurring bs 1)" "set (occurring bs 1) = set bs"
    and "\<forall>d \<in> set (occurring bs 1). 1 \<le> d \<and> d \<le> 32" "length (occurring bs 1) \<le> 32"
proof -
  show set: "set (occurring bs 1) = set bs"
    using assms by (auto simp: occurring_def bitlens_ok_def)
  with assms show "occurring bs 1 \<noteq> []" by (metis bitlens_ok_def set_empty)
  show "sorted_wrt (<) (occurring bs 1)" by (simp add: occurring_def sorted_wrt_filter)
  show "\<forall>d \<in> set (occurring bs 1). 1 \<le> d \<and> d \<le> 32"
    using set assms by (simp add: bitlens_ok_def)
  show "length (occurring bs 1) \<le> 32"
    unfolding occurring_def by (rule order_trans [OF length_filter_le]) simp
qed

text \<open>The search, with the arrays the counting loops build written in closed form.\<close>

lemma search_ranges:
  assumes "bitlens_ok bs"
  defines "rng \<equiv> occurring bs 1" and "len \<equiv> int (length bs)"
  shows "ovlq_search_optimal_mapping bs =
    (if length rng = 1 then Some (push_bit (rng ! 0 - 1) 1, int (rng ! 0) * len)
     else case dp_rows len rng (map (\<lambda>r. int (upto_cnt bs r)) rng) [1..<length rng]
            ([i32 (len * int (rng ! 0))], [i32 len], [push_bit (rng ! 0 - 1) 1]) of
          (C, A, M) \<Rightarrow> Some (M ! (length rng - 1), C ! (length rng - 1)))"
proof -
  obtain k ks where ks: "rng = k # ks" 
    using occurring_props(1) [OF assms(1)] unfolding rng_def by (meson neq_Nil_conv)
  note fr = first_range_eq [OF ks [unfolded rng_def]]
  have "upto_cnt bs 0 = 0"
    using assms(1) by (auto simp: upto_cnt_def bitlens_ok_def filter_empty_conv)
  have "\<forall>b \<in> set bs. k \<le> b"
    using occurring_props(2,3) [OF assms(1)] ks unfolding rng_def
    by (metis insertE less_imp_le_nat list.simps(15) order_refl sorted_wrt.simps(2))
  then have "upto_cnt bs k = count_list bs k"
    by (auto simp: upto_cnt_def count_list_eq_length_filter intro!: arg_cong [where f = length] filter_cong)
  then have mr: "more_ranges (map (\<lambda>b. int (count_list bs b)) [0..<33]) (Suc k) [k] [int (count_list bs k)] =
      (rng, map (\<lambda>r. int (upto_cnt bs r)) rng)"
    using more_ranges_eq [OF assms(1), of "[int (count_list bs k)]" k "[k]"] fr ks by simp
  show ?thesis
    using fr mr
    by (simp add: ovlq_search_optimal_mapping_def count_bitlens_start [OF assms(1)] len_def
        count_nonzero ks split_beta Let_def del: upt_Suc)
qed

section \<open>Levels, their codes and their cost\<close>

text \<open>The reference semantics of a list of levels: the unary level number of a value of \<open>b\<close>
  bits (zero after the ones, except for the last level) and the data length it is stored in.\<close>

fun level_code :: "nat list \<Rightarrow> nat \<Rightarrow> bool list \<times> nat" where
  "level_code [] b = ([], 0)"
| "level_code [d] b = ([], d)"
| "level_code (d # e # ds) b =
     (if b \<le> d then ([False], d)
      else case level_code (e # ds) b of (flag, dlen) \<Rightarrow> (True # flag, dlen))"

definition code_len :: "nat list \<Rightarrow> nat \<Rightarrow> nat" where
  "code_len ds b = length (fst (level_code ds b)) + snd (level_code ds b)"

definition cost :: "nat list \<Rightarrow> nat list \<Rightarrow> nat" where
  "cost ds bs = sum_list (map (code_len ds) bs)"

definition mapping_of :: "nat list \<Rightarrow> int32" where
  "mapping_of ds = foldr (\<lambda>d m. push_bit (d - 1) 1 OR m) ds 0"

lemma code_len_simps:
  "code_len [d] b = d"
  "code_len (d # e # ds) b = (if b \<le> d then Suc d else Suc (code_len (e # ds) b))"
  by (simp_all add: code_len_def split: prod.split)

lemma code_len_snoc:
  assumes "sorted_wrt (<) (ds @ [d, e])"
  shows "code_len (ds @ [d, e]) b =
    code_len (ds @ [d]) b +
    (if \<forall>x \<in> set ds. x < b then 1 + (if d < b then e - d else 0) else 0)"
  using assms
proof (induction ds)
  case Nil
  then show ?case by (auto simp: code_len_simps)
next
  case (Cons x ds)
  then show ?case by (cases ds) (auto simp: code_len_simps)
qed

lemma cost_snoc:
  assumes "sorted_wrt (<) (ds @ [d, e])"
  shows "cost (ds @ [d, e]) bs =
    cost (ds @ [d]) bs + length (filter (\<lambda>b. \<forall>x \<in> set ds. x < b) bs) + (e - d) * above bs d"
proof -
  have "d < b \<Longrightarrow> \<forall>x \<in> set ds. x < b" for b
    using assms by (auto simp: sorted_wrt_append)
  then show ?thesis
    by (induction bs) (auto simp: cost_def above_def code_len_snoc [OF assms])
qed

lemma cost_single: "cost [d] bs = d * length bs"
  by (induction bs) (auto simp: cost_def code_len_simps)

lemma bit_mapping_of:
  "bit (mapping_of ds) k \<longleftrightarrow> (\<exists>d \<in> set ds. k = d - 1) \<and> k < 32"
  by (induction ds) (auto simp: mapping_of_def bit_simps)

lemma mapping_of_append: "mapping_of (ds @ es) = mapping_of ds OR mapping_of es"
  by (induction ds) (simp_all add: mapping_of_def or.assoc)

lemma mapping_of_positions:
  assumes "sorted_wrt (<) ds" "\<forall>d \<in> set ds. 1 \<le> d \<and> d \<le> 32"
  shows "bit_positions (mapping_of ds) = map (\<lambda>d. d - 1) ds"
proof (rule bit_positions_eqI)
  show "sorted_wrt (<) (map (\<lambda>d. d - 1) ds)"
    using assms by (induction ds) (auto simp: diff_less_mono)
  show "bit (mapping_of ds) k \<longleftrightarrow> k \<in> set (map (\<lambda>d. d - 1) ds)" for k
    using assms(2) by (fastforce simp: bit_mapping_of)
qed

section \<open>The dynamic programme\<close>

text \<open>Row \<open>i\<close> of the tables describes a chain of levels that ends in \<open>range[i]\<close>.\<close>

definition reaching :: "nat list \<Rightarrow> nat list \<Rightarrow> nat" where
  "reaching bs ds = length (filter (\<lambda>b. \<forall>x \<in> set (butlast ds). x < b) bs)"

definition describes :: "nat list \<Rightarrow> nat list \<Rightarrow> int \<times> int \<times> int32 \<Rightarrow> bool" where
  "describes bs ds row \<longleftrightarrow> row = (int (cost ds bs), int (reaching bs ds), mapping_of ds)"

definition extend_cost :: "nat list \<Rightarrow> nat list \<Rightarrow> nat \<Rightarrow> nat \<Rightarrow> nat" where
  "extend_cost bs ds d e = cost ds bs + reaching bs ds + (e - d) * above bs d"

lemma reaching_le: "reaching bs ds \<le> length bs"
  by (simp add: reaching_def)

lemma above_le: "above bs d \<le> length bs"
  by (simp add: above_def)

lemma reaching_snoc:
  assumes "sorted_wrt (<) ds" "ds \<noteq> []"
  shows "reaching bs (ds @ [e]) = above bs (last ds)"
proof -
  have "(\<forall>x \<in> set ds. x < b) \<longleftrightarrow> last ds < b" for b
    using assms by (cases ds rule: rev_cases) (auto simp: sorted_wrt_append)
  then show ?thesis by (simp add: reaching_def above_def)
qed

lemma cost_extend:
  assumes "sorted_wrt (<) (ds @ [e])" "ds \<noteq> []"
  shows "cost (ds @ [e]) bs = extend_cost bs ds (last ds) e"
  using cost_snoc [of "butlast ds" "last ds" e bs] assms
  by (cases ds rule: rev_cases) (simp_all add: extend_cost_def reaching_def)

definition candidate :: "nat list \<Rightarrow> nat list list \<Rightarrow> nat \<Rightarrow> nat list \<Rightarrow> bool" where
  "candidate rng D i ds \<longleftrightarrow> ds = [rng ! i] \<or> (\<exists>j < i. ds = D ! j @ [rng ! i])"

definition best_row :: "nat list \<Rightarrow> nat list \<Rightarrow> nat list list \<Rightarrow> nat \<Rightarrow> nat list \<Rightarrow> bool" where
  "best_row bs rng D i ds \<longleftrightarrow>
     candidate rng D i ds \<and> cost ds bs \<le> rng ! i * length bs \<and>
     (\<forall>j < i. cost ds bs \<le> extend_cost bs (D ! j) (rng ! j) (rng ! i))"

definition chains_ok :: "nat list \<Rightarrow> nat list \<Rightarrow> nat list list \<Rightarrow> bool" where
  "chains_ok bs rng D \<longleftrightarrow> (\<forall>i < length D. best_row bs rng D i (D ! i))"

lemma best_row_append: "i \<le> length D \<Longrightarrow> best_row bs rng (D @ E) i ds = best_row bs rng D i ds"
  by (auto simp: best_row_def candidate_def nth_append)

lemma chains_ok_snoc:
  "chains_ok bs rng (D @ [ds]) \<longleftrightarrow> chains_ok bs rng D \<and> best_row bs rng D (length D) ds"
  unfolding chains_ok_def by (auto simp: nth_append less_Suc_eq best_row_append)

lemma chain_cases:
  assumes "chains_ok bs rng D" "i < length D"
  obtains "D ! i = [rng ! i]" | j where "j < i" "D ! i = D ! j @ [rng ! i]"
  using assms by (auto simp: chains_ok_def best_row_def candidate_def)

lemma chain_best:
  assumes "chains_ok bs rng D" "i < length D"
  shows "cost (D ! i) bs \<le> rng ! i * length bs"
    and "j < i \<Longrightarrow> cost (D ! i) bs \<le> extend_cost bs (D ! j) (rng ! j) (rng ! i)"
  using assms by (auto simp: chains_ok_def best_row_def)

lemma chain_props:
  assumes "chains_ok bs rng D" "sorted_wrt (<) rng" "length D \<le> length rng" "i < length D"
  shows "D ! i \<noteq> [] \<and> last (D ! i) = rng ! i \<and> set (D ! i) \<subseteq> set rng \<and> sorted_wrt (<) (D ! i) \<and>
    (\<forall>d \<in> set (D ! i). d \<le> rng ! i)"
  using assms(4)
proof (induction i rule: less_induct)
  case (less i)
  then have i: "i < length rng" using assms(3) by simp
  from assms(1) less.prems show ?case
  proof (cases rule: chain_cases)
    case 1
    then show ?thesis using i by simp
  next
    case (2 j)
    have "rng ! j < rng ! i"
      using 2(1) assms(2) i by (simp add: sorted_wrt_nth_less)
    moreover note less.IH [OF 2(1)]
    ultimately show ?thesis
      using 2 i less.prems by (auto simp: sorted_wrt_append)
  qed
qed

definition rows_ok :: "nat list \<Rightarrow> nat list \<Rightarrow> nat list list \<Rightarrow> int list \<times> int list \<times> int32 list \<Rightarrow> bool" where
  "rows_ok bs rng D rows \<longleftrightarrow>
     (case rows of (C, A, M) \<Rightarrow>
        length C = length D \<and> length A = length D \<and> length M = length D \<and>
        (\<forall>j < length D. describes bs (D ! j) (C ! j, A ! j, M ! j)) \<and> chains_ok bs rng D)"

lemma rng_step:
  assumes "bitlens_ok bs" "rng = occurring bs 1" "i < length rng" "j < i"
  shows "rng ! j < rng ! i" "1 \<le> rng ! j" "rng ! i \<le> 32"
proof -
  have "rng ! i \<in> set rng" "rng ! j \<in> set rng" using assms(3,4) by auto
  then show "1 \<le> rng ! j" "rng ! i \<le> 32" using occurring_props(4) [OF assms(1)] assms(2) by auto
  show "rng ! j < rng ! i"
    using occurring_props(2) [OF assms(1)] assms(2-4) by (simp add: sorted_wrt_nth_less)
qed

lemma relax_value:
  assumes "bitlens_ok bs" "rng = occurring bs 1" "rows_ok bs rng D (C, A, M)" "i = length D"
    "i < length rng" "j < i"
  shows "i32 (C ! j + A ! j + (int (rng ! i) - int (rng ! j)) *
             (int (length bs) - map (\<lambda>r. int (upto_cnt bs r)) rng ! j)) =
         int (extend_cost bs (D ! j) (rng ! j) (rng ! i))"
proof -
  note r = rng_step [OF assms(1,2,5,6)]
  have row: "C ! j = int (cost (D ! j) bs)" "A ! j = int (reaching bs (D ! j))"
    and cost: "cost (D ! j) bs \<le> rng ! j * length bs"
    using assms(3,4,6) chain_best(1) [of bs rng D j] by (auto simp: rows_ok_def describes_def)
  have "int (length bs) - int (upto_cnt bs (rng ! j)) = int (above bs (rng ! j))"
    using upto_above [of bs "rng ! j"] by linarith
  then have eq: "C ! j + A ! j + (int (rng ! i) - int (rng ! j)) *
      (int (length bs) - map (\<lambda>r. int (upto_cnt bs r)) rng ! j) =
      int (extend_cost bs (D ! j) (rng ! j) (rng ! i))"
    using assms(5,6) r(1) by (simp add: row extend_cost_def of_nat_diff)
  have "rng ! j * length bs \<le> 31 * length bs" "(rng ! i - rng ! j) * above bs (rng ! j) \<le> 31 * length bs"
    using r by (auto intro!: mult_le_mono above_le)
  then have "extend_cost bs (D ! j) (rng ! j) (rng ! i) \<le> 63 * length bs"
    using cost reaching_le [of bs "D ! j"] unfolding extend_cost_def by linarith
  then have "extend_cost bs (D ! j) (rng ! j) (rng ! i) < 2 ^ 31"
    using assms(1) by (simp add: bitlens_ok_def)
  then show ?thesis by (simp add: eq)
qed

lemma extend_candidate:
  assumes "bitlens_ok bs" "rng = occurring bs 1" "rows_ok bs rng D (C, A, M)" "i = length D"
    "i < length rng" "j < i"
  shows "describes bs (D ! j @ [rng ! i])
    (int (extend_cost bs (D ! j) (rng ! j) (rng ! i)),
     i32 (int (length bs) - map (\<lambda>r. int (upto_cnt bs r)) rng ! j),
     push_bit (rng ! i - 1) 1 OR M ! j)"
proof -
  have D: "D ! j \<noteq> []" "last (D ! j) = rng ! j" "sorted_wrt (<) (D ! j)" "\<forall>d \<in> set (D ! j). d \<le> rng ! j"
    using chain_props [of bs rng D j] assms occurring_props(2) [OF assms(1)]
    by (auto simp: rows_ok_def)
  have M: "M ! j = mapping_of (D ! j)"
    using assms(3,4,6) by (auto simp: rows_ok_def describes_def)
  have sorted: "sorted_wrt (<) (D ! j @ [rng ! i])"
    using D rng_step(1) [OF assms(1,2,5,6)] by (auto simp: sorted_wrt_append)
  have "int (length bs) - int (upto_cnt bs (rng ! j)) = int (above bs (rng ! j))"
    using upto_above [of bs "rng ! j"] by linarith
  moreover have "int (above bs (rng ! j)) < 2 ^ 31"
    using above_le [of bs "rng ! j"] assms(1) by (simp add: bitlens_ok_def)
  moreover have "mapping_of (D ! j @ [rng ! i]) = push_bit (rng ! i - 1) 1 OR M ! j"
    by (simp add: mapping_of_append M) (simp add: mapping_of_def or.commute)
  ultimately show ?thesis
    using assms(5,6) D cost_extend [OF sorted D(1), of bs] reaching_snoc [OF D(3,1), of bs "rng ! i"]
    by (simp add: describes_def)
qed

lemma relax_ok:
  assumes "bitlens_ok bs" "rng = occurring bs 1" "rows_ok bs rng D (C, A, M)" "i = length D"
    "i < length rng" "set js \<subseteq> {0..<i}" "candidate rng D i ds" "describes bs ds row"
  shows "\<exists>ds'. candidate rng D i ds' \<and> cost ds' bs \<le> cost ds bs \<and>
    (\<forall>j \<in> set js. cost ds' bs \<le> extend_cost bs (D ! j) (rng ! j) (rng ! i)) \<and>
    describes bs ds' (relax (int (length bs)) rng (map (\<lambda>r. int (upto_cnt bs r)) rng) C A M i js row)"
  using assms(6-8)
proof (induction js arbitrary: ds row)
  case Nil
  then show ?case by auto
next
  case (Cons j js)
  then have j: "j < i" and js: "set js \<subseteq> {0..<i}" by auto
  note ext = extend_candidate [OF assms(1-5) j]
  note val = relax_value [OF assms(1-5) j]
  obtain a m where row: "row = (int (cost ds bs), a, m)"
    using Cons.prems(3) by (auto simp: describes_def)
  let ?c = "extend_cost bs (D ! j) (rng ! j) (rng ! i)"
  have cost: "cost (D ! j @ [rng ! i]) bs = ?c" using ext by (simp add: describes_def)
  show ?case
  proof (cases "?c < cost ds bs")
    case True
    have "candidate rng D i (D ! j @ [rng ! i])" using j by (auto simp: candidate_def)
    from Cons.IH [OF js this ext] obtain ds' where
      "candidate rng D i ds'" "cost ds' bs \<le> ?c"
      "\<forall>j \<in> set js. cost ds' bs \<le> extend_cost bs (D ! j) (rng ! j) (rng ! i)"
      "describes bs ds' (relax (int (length bs)) rng (map (\<lambda>r. int (upto_cnt bs r)) rng) C A M i js
         (int ?c, i32 (int (length bs) - map (\<lambda>r. int (upto_cnt bs r)) rng ! j),
          push_bit (rng ! i - 1) 1 OR M ! j))"
      unfolding cost by blast
    with True show ?thesis
      by (intro exI [of _ ds']) (simp add: row val Let_def)
  next
    case False
    from Cons.IH [OF js Cons.prems(2,3)] obtain ds' where
      "candidate rng D i ds'" "cost ds' bs \<le> cost ds bs"
      "\<forall>j \<in> set js. cost ds' bs \<le> extend_cost bs (D ! j) (rng ! j) (rng ! i)"
      "describes bs ds' (relax (int (length bs)) rng (map (\<lambda>r. int (upto_cnt bs r)) rng) C A M i js row)"
      by blast
    with False show ?thesis
      by (intro exI [of _ ds']) (simp add: row val Let_def)
  qed
qed

lemma single_describes:
  assumes "bitlens_ok bs" "1 \<le> d" "d \<le> 32"
  shows "describes bs [d] (i32 (int (length bs) * int d), i32 (int (length bs)), push_bit (d - 1) 1)"
proof -
  have "length bs * d \<le> length bs * 32" using assms(3) by (intro mult_le_mono) simp_all
  also have "\<dots> < 2 ^ 31" using assms(1) by (simp add: bitlens_ok_def)
  finally have "int (length bs * d) < int (2 ^ 31)" by (simp only: of_nat_less_iff)
  then have "i32 (int (length bs * d)) = int (length bs * d)"
    by (intro i32_id) (simp_all del: of_nat_mult)
  then show ?thesis
    using assms(1)
    by (simp add: describes_def cost_single reaching_def mapping_of_def bitlens_ok_def mult.commute)
qed

lemma rows_ok_snoc:
  assumes "rows_ok bs rng D (C, A, M)" "candidate rng D (length D) ds" "describes bs ds (c, a, m)"
    "cost ds bs \<le> rng ! length D * length bs"
    "\<forall>j < length D. cost ds bs \<le> extend_cost bs (D ! j) (rng ! j) (rng ! length D)"
  shows "rows_ok bs rng (D @ [ds]) (C @ [c], A @ [a], M @ [m])"
  using assms by (auto simp: rows_ok_def nth_append less_Suc_eq chains_ok_snoc best_row_def)

lemma dp_rows_ok:
  assumes "bitlens_ok bs" "rng = occurring bs 1" "rows_ok bs rng D rows" "length D \<le> length rng"
  shows "\<exists>D'. length D' = length rng \<and>
    rows_ok bs rng D' (dp_rows (int (length bs)) rng (map (\<lambda>r. int (upto_cnt bs r)) rng)
      [length D..<length rng] rows)"
  using assms(3,4)
proof (induction "length rng - length D" arbitrary: D rows)
  case 0
  then show ?case by (cases rows) auto
next
  case (Suc n)
  obtain C A M where rows: "rows = (C, A, M)" by (cases rows)
  let ?i = "length D" and ?len = "int (length bs)"
  have i: "?i < length rng" using Suc.hyps(2) by simp
  have bnd: "1 \<le> rng ! ?i" "rng ! ?i \<le> 32"
    using occurring_props(4) [OF assms(1)] nth_mem [OF i] assms(2) by auto
  let ?row = "relax ?len rng (map (\<lambda>r. int (upto_cnt bs r)) rng) C A M ?i [0..<?i]
    (i32 (?len * int (rng ! ?i)), i32 ?len, push_bit (rng ! ?i - 1) 1)"
  obtain c a m where cam: "?row = (c, a, m)" by (metis prod_cases3)
  have "candidate rng D ?i [rng ! ?i]" by (simp add: candidate_def)
  from relax_ok [OF assms(1,2) Suc.prems(1) [unfolded rows] refl i _ this
      single_describes [OF assms(1) bnd], of "[0..<?i]"] cam
  obtain ds where ds: "candidate rng D ?i ds" "cost ds bs \<le> cost [rng ! ?i] bs"
    "\<forall>j < ?i. cost ds bs \<le> extend_cost bs (D ! j) (rng ! j) (rng ! ?i)" "describes bs ds (c, a, m)"
    by auto
  have "rows_ok bs rng (D @ [ds]) (C @ [c], A @ [a], M @ [m])"
    using rows_ok_snoc [OF Suc.prems(1) [unfolded rows] ds(1,4) _ ds(3)] ds(2)
    by (simp add: cost_single)
  from Suc.hyps(1) [OF _ this] Suc.hyps(2) show ?case
    using i cam by (simp add: rows upt_conv_Cons)
qed

text \<open>Two consecutive steps of a chain never end with neighbouring lengths: skipping the middle
  level would have been cheaper.  So a mapping has at most 17 levels, and the decode table, whose
  size doubles with every level, at most \<open>2 ^ 16\<close> entries.\<close>

lemma chain_gap:
  assumes "bitlens_ok bs" "rng = occurring bs 1" "chains_ok bs rng D" "length D \<le> length rng"
    "i < length D" "j < i" "D ! i = D ! j @ [rng ! i]" "D ! j \<noteq> [rng ! j]"
  shows "rng ! j + 2 \<le> rng ! i"
proof (rule ccontr)
  assume "\<not> ?thesis"
  moreover have i: "i < length rng" using assms(4,5) by simp
  note r = rng_step [OF assms(1,2) i]
  ultimately have ij: "rng ! i = Suc (rng ! j)" using r(1) [OF assms(6)] by simp
  obtain k where k: "k < j" "D ! j = D ! k @ [rng ! j]"
    using chain_cases [OF assms(3), of j] assms(5,6,8) by (metis less_trans)
  have jl: "j < length rng" "j < length D" "k < length D" using assms(5,6) i k(1) by auto
  have rk: "rng ! k < rng ! j" using rng_step(1) [OF assms(1,2) jl(1) k(1)] .
  note props = chain_props [OF assms(3) _ assms(4)]
  have srt: "sorted_wrt (<) rng" using occurring_props(2) [OF assms(1)] assms(2) by simp
  have Dk: "D ! k \<noteq> []" "last (D ! k) = rng ! k" "sorted_wrt (<) (D ! k)"
    and Dj: "D ! j \<noteq> []" "last (D ! j) = rng ! j" "sorted_wrt (<) (D ! j)"
    and Di: "sorted_wrt (<) (D ! i)"
    using props [OF srt jl(3)] props [OF srt jl(2)] props [OF srt assms(5)] by auto
  have cj: "cost (D ! j) bs = extend_cost bs (D ! k) (rng ! k) (rng ! j)"
    using cost_extend [of "D ! k" "rng ! j" bs] Dj(3) Dk k(2) by simp
  have ci: "cost (D ! i) bs = extend_cost bs (D ! j) (rng ! j) (rng ! i)"
    using cost_extend [of "D ! j" "rng ! i" bs] Di Dj assms(7) by simp
  have rj: "reaching bs (D ! j) = above bs (rng ! k)"
    using reaching_snoc [OF Dk(3,1), of bs "rng ! j"] Dk(2) k(2) by simp
  have "cost (D ! i) bs \<le> extend_cost bs (D ! k) (rng ! k) (rng ! i)"
    using chain_best(2) [OF assms(3,5)] assms(6) k(1) by simp
  moreover have "(Suc (rng ! j) - rng ! k) * above bs (rng ! k) =
      (rng ! j - rng ! k) * above bs (rng ! k) + above bs (rng ! k)"
    using rk by (simp add: Suc_diff_le)
  ultimately have "above bs (rng ! j) = 0"
    using cj ci rj by (simp add: extend_cost_def ij)
  moreover have "rng ! i \<in> set bs" using nth_mem [OF i] occurring_props(3) [OF assms(1)] assms(2) by simp
  ultimately show False using ij by (auto simp: above_def filter_empty_conv)
qed

lemma chain_length:
  assumes "bitlens_ok bs" "rng = occurring bs 1" "chains_ok bs rng D" "length D \<le> length rng"
    "i < length D"
  shows "2 * length (D ! i) \<le> rng ! i + 2"
  using assms(5)
proof (induction i rule: less_induct)
  case (less i)
  have i: "i < length rng" using assms(4) less.prems by simp
  have pos: "1 \<le> rng ! i" using occurring_props(4) [OF assms(1)] nth_mem [OF i] assms(2) by auto
  from assms(3) less.prems show ?case
  proof (cases rule: chain_cases)
    case 1
    then show ?thesis by simp
  next
    case (2 j)
    note r = rng_step [OF assms(1,2) i 2(1)]
    show ?thesis
    proof (cases "D ! j = [rng ! j]")
      case True
      with 2 r show ?thesis by simp
    next
      case False
      from chain_gap [OF assms(1-4) less.prems 2 this] less.IH [OF 2(1)] less.prems 2
      show ?thesis by simp
    qed
  qed
qed

text \<open>What the search returns: the mapping of a list of levels that covers every length, with
  its exact cost, never above the cost of the single longest level.\<close>

lemma search_ok:
  assumes "bitlens_ok bs"
  obtains ds where "ovlq_search_optimal_mapping bs = Some (mapping_of ds, int (cost ds bs))"
    "ds \<noteq> []" "sorted_wrt (<) ds" "set ds \<subseteq> set bs" "last ds = Max (set bs)"
    "length ds \<le> 17" "cost ds bs \<le> Max (set bs) * length bs"
proof -
  define rng where "rng = occurring bs 1"
  note op = occurring_props [OF assms, folded rng_def]
  let ?n = "length rng"
  have n: "0 < ?n" using op(1) by simp
  have mx: "rng ! (?n - 1) = Max (set bs)"
  proof (rule Max_eqI [symmetric])
    show "rng ! (?n - 1) \<in> set bs" using op(3) n nth_mem [of "?n - 1" rng] by auto
    show "b \<le> rng ! (?n - 1)" if "b \<in> set bs" for b
    proof -
      obtain k where "k < ?n" "b = rng ! k" using \<open>b \<in> set bs\<close> op(3) by (metis in_set_conv_nth)
      then show ?thesis using op(2)
        by (metis One_nat_def Suc_pred less_Suc_eq less_imp_le_nat n order_refl sorted_wrt_nth_less)
    qed
  qed simp
  have r0: "1 \<le> rng ! 0" "rng ! 0 \<le> 32" using op(4) nth_mem [OF n] by auto
  have "rows_ok bs rng [[rng ! 0]]
      ([i32 (int (length bs) * int (rng ! 0))], [i32 (int (length bs))], [push_bit (rng ! 0 - 1) 1])"
    using single_describes [OF assms r0] by (simp add: rows_ok_def chains_ok_def best_row_def candidate_def cost_single)
  from dp_rows_ok [OF assms rng_def this] n obtain D where
    D: "length D = ?n" "rows_ok bs rng D (dp_rows (int (length bs)) rng
      (map (\<lambda>r. int (upto_cnt bs r)) rng) [1..<?n]
      ([i32 (int (length bs) * int (rng ! 0))], [i32 (int (length bs))], [push_bit (rng ! 0 - 1) 1]))"
    by (auto simp: Suc_leI)
  let ?ds = "D ! (?n - 1)"
  have i: "?n - 1 < length D" and ok: "chains_ok bs rng D" using n D by (auto simp: rows_ok_def)
  note props = chain_props [OF ok op(2) _ i] and len = chain_length [OF assms rng_def ok _ i]
  have "ovlq_search_optimal_mapping bs = Some (mapping_of ?ds, int (cost ?ds bs))"
  proof (cases "?n = 1")
    case True
    then have "?ds = [rng ! 0]" using chain_cases [OF ok i] by force
    with True show ?thesis
      using search_ranges [OF assms, folded rng_def]
      by (simp add: mapping_of_def cost_single)
  next
    case False
    then show ?thesis
      using search_ranges [OF assms, folded rng_def] D i
      by (auto simp: rows_ok_def describes_def split: prod.splits)
  qed
  moreover have "rng ! (?n - 1) \<le> 32" using op(4) n nth_mem [of "?n - 1" rng] by auto
  with len D(1) have "length ?ds \<le> 17" by simp
  moreover have "cost ?ds bs \<le> Max (set bs) * length bs"
    using chain_best(1) [OF ok i] mx by simp
  ultimately show thesis using that props D(1) mx op(3) by auto
qed

section \<open>The encode table implements the level codes\<close>

lemma fill_entries_eq:
  assumes "t \<le> Suc dlen" "dlen < length table"
  shows "fill_entries t dlen e table =
    (Suc dlen, map (\<lambda>k. if t \<le> k \<and> k \<le> dlen then Some e else table ! k) [0..<length table])"
  using assms
proof (induction "Suc dlen - t" arbitrary: t table)
  case 0
  then have "t = Suc dlen" by simp
  then show ?case by (subst fill_entries.simps) (auto intro!: nth_equalityI)
next
  case (Suc n)
  then have "t \<le> dlen" by simp
  with Suc.hyps(1) [of "Suc t" "table[t := Some e]"] Suc.hyps(2) Suc.prems show ?case
    by (subst fill_entries.simps) (auto simp: nth_list_update intro!: map_cong)
qed

lemma flag_bits:
  fixes flag :: int32
  assumes "\<forall>k < 32. bit flag k \<longleftrightarrow> 1 \<le> k \<and> k < i" "1 \<le> i" "i \<le> 32"
  shows "to_bits i flag = replicate (i - 1) True @ [False]"
    and "to_bits (i - 1) (signed_drop_bit 1 flag) = replicate (i - 1) True"
proof -
  show "to_bits i flag = replicate (i - 1) True @ [False]"
    using assms by (intro nth_equalityI) (auto simp: nth_to_bits nth_append)
  show "to_bits (i - 1) (signed_drop_bit 1 flag) = replicate (i - 1) True"
    using assms by (intro nth_equalityI) (auto simp: nth_to_bits bit_simps)
qed

text \<open>The entry of a bit length spells its level code after the ones of the levels already
  passed.\<close>

definition entry_for :: "nat \<Rightarrow> nat list \<Rightarrow> nat \<Rightarrow> encode_entry option \<Rightarrow> bool" where
  "entry_for i ds b eo \<longleftrightarrow>
     (\<exists>e. eo = Some e \<and> e_dlen e = snd (level_code ds b) \<and>
          e_flen e = i + length (fst (level_code ds b)) \<and>
          to_bits (e_flen e) (e_flag e) = replicate i True @ fst (level_code ds b))"

definition finish_table ::
  "nat \<Rightarrow> nat \<times> int32 \<times> int32 \<times> encode_entry option list \<Rightarrow> encode_entry option list" where
  "finish_table level st =
     (case st of (t, flag, mapping, table) \<Rightarrow>
        snd (fill_entries t (ctz mapping + 1)
          \<lparr>e_flen = level - 1, e_flag = signed_drop_bit 1 flag, e_dlen = ctz mapping + 1\<rparr> table))"

lemma encode_levels_ok:
  assumes "bit_positions mapping = map (\<lambda>d. d - 1) ds" "ds \<noteq> []" "sorted_wrt (<) ds"
    "\<forall>d \<in> set ds. 1 \<le> d \<and> d \<le> 32" "level = i + length ds - 1" "1 \<le> i" "level \<le> 32"
    "\<forall>k < 32. bit flag k \<longleftrightarrow> 1 \<le> k \<and> k < i" "length table = 33" "t \<le> hd ds"
  shows "let T = finish_table level (encode_levels i level t flag mapping table) in
     length T = 33 \<and> (\<forall>b < t. T ! b = table ! b) \<and>
     (\<forall>b. t \<le> b \<longrightarrow> b \<le> last ds \<longrightarrow> entry_for (i - 1) ds b (T ! b))"
  using assms
proof (induction ds arbitrary: mapping i flag table t rule: induct_list012)
  case 1
  then show ?case by simp
next
  case (2 d)
  have pos: "bit_positions mapping = [d - 1]" using 2 by simp
  have lv: "level = i" using 2 by simp
  then have "encode_levels i level t flag mapping table = (t, flag, mapping, table)"
    by (subst encode_levels.simps) simp
  moreover have "ctz mapping + 1 = d" using ctz_positions [OF pos] 2 by simp
  moreover have "fill_entries t d e table =
      (Suc d, map (\<lambda>k. if t \<le> k \<and> k \<le> d then Some e else table ! k) [0..<33])" for e
    using fill_entries_eq [of t d table e] 2 by simp
  ultimately show ?case
    using 2 flag_bits(2) [OF 2(8,6)] lv
    by (simp add: finish_table_def entry_for_def nth_append del: upt_Suc)
next
  case (3 d e ds)
  let ?entry = "\<lparr>e_flen = i, e_flag = flag, e_dlen = d\<rparr>"
  let ?table = "map (\<lambda>k. if t \<le> k \<and> k \<le> d then Some ?entry else table ! k) [0..<33]"
  let ?mapping = "mapping AND NOT (push_bit (d - 1) 1)" and ?flag = "flag OR push_bit i 1"
  have pos: "bit_positions mapping = (d - 1) # map (\<lambda>d. d - 1) (e # ds)" using 3 by simp
  have d: "1 \<le> d" "d < 33" "d < e" "i < level" "i < 32" using 3 by auto
  have "ctz mapping + 1 = d" using ctz_positions [OF pos] d by simp
  moreover have "fill_entries t d ?entry table = (Suc d, ?table)"
    using fill_entries_eq [of t d table ?entry] 3 d by simp
  ultimately have step: "encode_levels i level t flag mapping table =
      encode_levels (i + 1) level (Suc d) ?flag ?mapping ?table"
    using d by (subst encode_levels.simps) (simp add: Let_def)
  have flag': "\<forall>k < 32. bit ?flag k \<longleftrightarrow> 1 \<le> k \<and> k < i + 1"
    using 3 d by (auto simp: bit_simps)
  let ?T = "finish_table level (encode_levels i level t flag mapping table)"
  have IH: "length ?T = 33" "\<forall>b < Suc d. ?T ! b = ?table ! b"
    "\<forall>b. Suc d \<le> b \<longrightarrow> b \<le> last (e # ds) \<longrightarrow> entry_for i (e # ds) b (?T ! b)"
    using "3.IH"(2) [OF clear_lowest_positions [OF pos], of "i + 1" ?flag ?table "Suc d"]
      3 d flag' step by (auto simp: Let_def)
  have "entry_for (i - 1) (d # e # ds) b (?T ! b)" if b: "t \<le> b" "b \<le> last (d # e # ds)" for b
  proof (cases "b \<le> d")
    case True
    with b d have "?T ! b = Some ?entry" using IH(2) by (simp del: upt_Suc)
    with True d show ?thesis
      using flag_bits(1) [of flag i] 3 by (simp add: entry_for_def)
  next
    case False
    with b IH(3) have "entry_for i (e # ds) b (?T ! b)" by simp
    moreover have "replicate i True = replicate (i - 1) True @ [True]"
      using 3 by (cases i) (simp_all add: replicate_append_same)
    ultimately show ?thesis
      using False 3 by (auto simp: entry_for_def split: prod.splits)
  qed
  moreover have "?T ! b = table ! b" if "b < t" for b
    using that IH(2) 3 d by (simp del: upt_Suc)
  ultimately show ?case using IH(1) by (simp add: Let_def)
qed

lemma encode_table_ok:
  assumes "1 < length ds" "sorted_wrt (<) ds" "\<forall>d \<in> set ds. 1 \<le> d \<and> d \<le> 32" "length ds \<le> 32"
  obtains T where "ovlq_build_encode_table_with_mapping (mapping_of ds) = Some (Some T)"
    "\<And>b. 1 \<le> b \<Longrightarrow> b \<le> last ds \<Longrightarrow> entry_for 0 ds b (T ! b)"
proof -
  note pos = mapping_of_positions [OF assms(2,3)]
  have lv: "popcount (mapping_of ds) = length ds" by (simp add: popcount_positions pos)
  let ?st = "encode_levels 1 (length ds) 1 0 (mapping_of ds) (replicate 33 None)"
  let ?T = "finish_table (length ds) ?st"
  have ne: "ds \<noteq> []" using assms(1) by auto
  then have "1 \<le> hd ds" using assms(3) by simp
  from encode_levels_ok [OF pos ne assms(2,3), of "length ds" 1 0 "replicate 33 None" 1] this assms(4)
  have "1 \<le> b \<Longrightarrow> b \<le> last ds \<Longrightarrow> entry_for 0 ds b (?T ! b)" for b by (auto simp: Let_def)
  moreover have "ovlq_build_encode_table_with_mapping (mapping_of ds) = Some (Some ?T)"
    using assms(1) ne
    by (simp add: ovlq_build_encode_table_with_mapping_def lv finish_table_def split_beta Let_def)
  ultimately show thesis using that by blast
qed

lemma encode_table_single:
  assumes "1 \<le> d" "d \<le> 32"
  shows "ovlq_build_encode_table_with_mapping (mapping_of [d]) = Some None"
    "ctz (mapping_of [d]) + 1 = d"
  using mapping_of_positions [of "[d]"] assms ctz_positions [of "mapping_of [d]" "d - 1" "[]"]
  by (simp_all add: ovlq_build_encode_table_with_mapping_def popcount_positions)

section \<open>The decode table inverts the level codes\<close>

fun blocks :: "nat \<Rightarrow> nat list \<Rightarrow> decode_entry list" where
  "blocks f [] = []"
| "blocks f [d] = [\<lparr>d_flen = f, d_dlen = d\<rparr>]"
| "blocks f (d # e # ds) =
     replicate (2 ^ length ds) \<lparr>d_flen = f, d_dlen = d\<rparr> @ blocks (f + 1) (e # ds)"

lemma length_blocks: "ds \<noteq> [] \<Longrightarrow> length (blocks f ds) = 2 ^ (length ds - 1)"
  by (induction f ds rule: blocks.induct) auto

lemma last_blocks: "ds \<noteq> [] \<Longrightarrow> last (blocks f ds) = \<lparr>d_flen = f + length ds - 1, d_dlen = last ds\<rparr>"
proof (induction f ds rule: blocks.induct)
  case (3 f d e ds)
  have "blocks (f + 1) (e # ds) \<noteq> []" using length_blocks [of "e # ds" "f + 1"] by fastforce
  with 3 show ?case by simp
qed auto

lemma blocks_lookup:
  assumes "ds \<noteq> []" "level_code ds b = (flag, dlen)" "length (flag @ rest) = length ds - 1"
  shows "blocks f ds ! bits_nat (flag @ rest) = \<lparr>d_flen = f + length (filter id flag), d_dlen = dlen\<rparr>"
  using assms
proof (induction ds b arbitrary: f flag dlen rule: level_code.induct)
  case (3 d e ds b)
  show ?case
  proof (cases "b \<le> d")
    case True
    with 3 have flag: "flag = [False]" "dlen = d" "length rest = length ds" by auto
    then show ?thesis
      using bits_nat_less [of rest] by (simp add: nth_append)
  next
    case False
    then obtain flag' where flag: "flag = True # flag'" "level_code (e # ds) b = (flag', dlen)"
      using 3 by (auto split: prod.splits)
    with 3 False have "length (flag' @ rest) = length ds" by simp
    with "3.IH" [OF False _ flag(2), of "f + 1"] flag(1) show ?thesis
      by (simp add: nth_append)
  qed
qed auto

lemma level_code_flag:
  "ds \<noteq> [] \<Longrightarrow> level_code ds b = (flag, dlen) \<Longrightarrow>
   (\<exists>k. flag = replicate k True @ [False] \<and> k + 1 < length ds) \<or> flag = replicate (length ds - 1) True"
proof (induction ds b arbitrary: flag dlen rule: level_code.induct)
  case (3 d e ds b)
  show ?case
  proof (cases "b \<le> d")
    case True
    with 3 show ?thesis by (auto intro: exI [of _ 0])
  next
    case False
    then obtain flag' where flag: "flag = True # flag'" "level_code (e # ds) b = (flag', dlen)"
      using 3 by (auto split: prod.splits)
    from "3.IH" [OF False _ flag(2)] show ?thesis
    proof
      assume "\<exists>k. flag' = replicate k True @ [False] \<and> k + 1 < length (e # ds)"
      then obtain k where "flag' = replicate k True @ [False]" "k + 1 < length (e # ds)" by blast
      then show ?thesis using flag(1) by (intro disjI1 exI [of _ "Suc k"]) simp
    qed (simp_all add: flag(1))
  qed
qed auto

lemma msk_and: "p < 32 \<Longrightarrow> (push_bit p 1 AND of_nat i :: u32) = 0 \<longleftrightarrow> even (i div 2 ^ p)"
proof -
  assume "p < 32"
  have "(push_bit p 1 AND of_nat i :: u32) = 0 \<longleftrightarrow> \<not> bit (of_nat i :: u32) p"
    by (simp add: and.commute and_exp_eq_0_iff_not_bit push_bit_eq_mult)
  also have "\<dots> \<longleftrightarrow> \<not> bit i p" using \<open>p < 32\<close> by (simp add: bit_of_nat_iff)
  finally show ?thesis by (simp add: bit_iff_odd)
qed

lemma decode_entries_skip:
  assumes "\<forall>j < m. msk AND of_nat (i + j) = 0"
  shows "decode_entries ctz0 (m + n) i msk entry mapping min_len =
    map_option (\<lambda>rest. replicate m entry @ rest)
      (decode_entries ctz0 n (i + m) msk entry mapping min_len)"
  using assms
proof (induction m arbitrary: i)
  case 0
  then show ?case by (simp add: option.map_ident)
next
  case (Suc m)
  have "msk AND of_nat i = 0" using Suc.prems by (metis add_0_right zero_less_Suc)
  moreover have "\<forall>j < m. msk AND of_nat (Suc i + j) = 0"
    using Suc.prems by (metis add_Suc_shift Suc_less_eq)
  ultimately show ?case
    using Suc.IH [of "Suc i"] by (simp add: map_conv_bind_option comp_def)
qed

lemma clear_level_low:
  assumes "d < 32"
  shows "\<exists>m'. clear_level m d = Some m' \<and> (ucast m' :: u32) = ucast m AND NOT (push_bit d 1)"
  using assms by (auto simp: clear_level_def intro!: bit_word_eqI simp: bit_simps)

lemma ctz32_next:
  assumes "bit_positions (ucast m :: u32) = filter (\<lambda>k. k < 32) (e # es)" "sorted_wrt (<) (e # es)"
    "e \<le> 32" "ctz0 = 32 \<or> e < 32"
  shows "ctz32 ctz0 m = e"
proof (cases "e < 32")
  case True
  then have "bit_positions (ucast m :: u32) = e # filter (\<lambda>k. k < 32) es" using assms(1) by simp
  then have "ctz (ucast m :: u32) = e" "bit (ucast m :: u32) e"
    using ctz_positions set_bit_positions by (metis, metis list.set_intros(1) mem_Collect_eq)
  then show ?thesis by (auto simp: ctz32_def Let_def)
next
  case False
  then have "bit_positions (ucast m :: u32) = []" using assms by (auto simp: filter_empty_conv)
  then have "set (bit_positions (ucast m :: u32)) = {}" by simp
  then have "(ucast m :: u32) = 0" by (simp only: set_bit_positions) (simp add: bit_eq_iff)
  then show ?thesis using False assms(3,4) by (simp add: ctz32_def)
qed

lemma decode_entries_ok:
  assumes "bit_positions (ucast mapping :: u32) = filter (\<lambda>k. k < 32) (d # ds)" "sorted_wrt (<) (d # ds)"
    "\<forall>x \<in> set (d # ds). x \<le> 32" "ctz0 = 32 \<or> (\<forall>x \<in> set (d # ds). x < 32)"
    "2 ^ length ds dvd i" "length ds \<le> 31"
    "msk = (if ds = [] then 0 else push_bit (length ds - 1) 1)"
  shows "decode_entries ctz0 (2 ^ length ds) i msk \<lparr>d_flen = f, d_dlen = d\<rparr> mapping d =
    Some (blocks f (d # ds))"
  using assms
proof (induction ds arbitrary: mapping d i msk f)
  case Nil
  then show ?case by simp
next
  case (Cons e ds)
  let ?p = "length ds" and ?entry = "\<lparr>d_flen = f, d_dlen = d\<rparr>"
  have p: "?p < 32" and msk: "msk = push_bit ?p 1" using Cons.prems by simp_all
  obtain q where q: "i = q * 2 ^ Suc ?p" using Cons.prems(5) by (metis dvdE length_Cons mult.commute)
  have "even ((i + j) div 2 ^ ?p)" if "j < 2 ^ ?p" for j
  proof -
    have "i + j = 2 * q * 2 ^ ?p + j" by (simp add: q)
    then show ?thesis using that by simp
  qed
  then have "\<forall>j < 2 ^ ?p. msk AND of_nat (i + j) = 0"
    unfolding msk msk_and [OF p] by blast
  from decode_entries_skip [OF this, of ctz0 "2 ^ ?p"] have skip:
    "decode_entries ctz0 (2 ^ length (e # ds)) i msk ?entry mapping d =
      map_option (\<lambda>rest. replicate (2 ^ ?p) ?entry @ rest)
        (decode_entries ctz0 (2 ^ ?p) (i + 2 ^ ?p) msk ?entry mapping d)"
    by (simp add: mult_2)
  have odd: "msk AND of_nat (i + 2 ^ ?p) \<noteq> 0"
    unfolding msk msk_and [OF p] by (simp add: q)
  have d: "d < 32" "d < e" using Cons.prems(2,3) by auto
  obtain m' where m': "clear_level mapping d = Some m'" "(ucast m' :: u32) = ucast mapping AND NOT (push_bit d 1)"
    using clear_level_low [OF d(1)] by blast
  have pos: "bit_positions (ucast m' :: u32) = filter (\<lambda>k. k < 32) (e # ds)"
    unfolding m'(2) by (rule clear_lowest_positions) (use Cons.prems(1) d in simp)
  have nxt: "ctz32 ctz0 m' = e"
    by (rule ctz32_next [OF pos]) (use Cons.prems in auto)
  let ?msk = "drop_bit 1 msk" and ?e = "\<lparr>d_flen = f + 1, d_dlen = e\<rparr>"
  have msk': "?msk = (if ds = [] then 0 else push_bit (?p - 1) 1)"
    using p by (auto simp: msk intro!: bit_word_eqI simp: bit_simps)
  have dvd: "2 ^ ?p dvd i + 2 ^ ?p" by (simp add: q)
  have "decode_entries ctz0 (2 ^ ?p) (i + 2 ^ ?p) ?msk ?e m' e = Some (blocks (f + 1) (e # ds))"
    by (rule Cons.IH [OF pos]) (use Cons.prems msk' dvd in auto)
  moreover have "?msk AND of_nat (i + 2 ^ ?p) = 0"
  proof (cases "ds = []")
    case False
    then obtain r where r: "?p = Suc r" by (cases ds) auto
    then have "i + 2 ^ ?p = (q * 2 + 1) * 2 * 2 ^ r" by (simp add: q algebra_simps)
    then have "even ((i + 2 ^ ?p) div 2 ^ r)" by simp
    then show ?thesis using msk' False p r msk_and [of r "i + 2 ^ ?p"] by simp
  qed (use msk' in simp)
  moreover obtain n where n: "(2 :: nat) ^ ?p = Suc n" by (metis not0_implies_Suc power_eq_0_iff zero_neq_numeral)
  ultimately have "decode_entries ctz0 (2 ^ ?p) (i + 2 ^ ?p) msk ?entry mapping d =
      Some (blocks (f + 1) (e # ds))"
    using odd m'(1) nxt by (simp add: n)
  then show ?case using skip by simp
qed


lemma levels64:
  assumes "sorted_wrt (<) ds" "\<forall>d \<in> set ds. 1 \<le> d \<and> d \<le> 32"
  shows "bit_positions (push_bit 1 (ucast (mapping_of ds)) :: u64) = ds"
    and "bit_positions (ucast (push_bit 1 (ucast (mapping_of ds)) :: u64) :: u32) = filter (\<lambda>k. k < 32) ds"
proof -
  have bit: "bit (push_bit 1 (ucast (mapping_of ds)) :: u64) k \<longleftrightarrow> k \<in> set ds" for k
  proof -
    have "bit (push_bit 1 (ucast (mapping_of ds)) :: u64) k \<longleftrightarrow>
        1 \<le> k \<and> (\<exists>d \<in> set ds. k - 1 = d - 1) \<and> k - 1 < 32"
      unfolding bit_push_bit_iff by (auto simp: bit_simps bit_mapping_of)
    also have "\<dots> \<longleftrightarrow> k \<in> set ds"
      using assms(2) by (metis Suc_le_eq Suc_pred' One_nat_def less_Suc_eq_le)
    finally show ?thesis .
  qed
  show "bit_positions (push_bit 1 (ucast (mapping_of ds)) :: u64) = ds"
    by (rule bit_positions_eqI [OF assms(1) bit])
  show "bit_positions (ucast (push_bit 1 (ucast (mapping_of ds)) :: u64) :: u32) = filter (\<lambda>k. k < 32) ds"
    by (rule bit_positions_eqI) (use assms(1) bit in \<open>auto simp: sorted_wrt_filter bit_ucast_iff\<close>)
qed

text \<open>The table as the decoder uses it: any index that starts with a level code leads to that
  level.\<close>

lemma decode_table_ok:
  assumes "1 < length ds" "length ds \<le> 31" "sorted_wrt (<) ds" "\<forall>d \<in> set ds. 1 \<le> d \<and> d \<le> 32"
    "ctz0 = 32 \<or> (\<forall>d \<in> set ds. d < 32)"
  obtains T where
    "ovlq_build_decode_table_with_mapping ctz0 (push_bit 1 (ucast (mapping_of ds))) =
       Some (T, length ds - 1)"
    "\<And>b flag dlen rest. level_code ds b = (flag, dlen) \<Longrightarrow> length (flag @ rest) = length ds - 1 \<Longrightarrow>
       T ! bits_nat (flag @ rest) = \<lparr>d_flen = length flag, d_dlen = dlen\<rparr>"
proof -
  define m :: u64 where "m = push_bit 1 (ucast (mapping_of ds))"
  let ?n = "2 ^ (length ds - 1) :: nat"
  obtain d e es where ds: "ds = d # e # es" using assms(1) by (cases ds rule: remdups_adj.cases) auto
  note pos = levels64 [OF assms(3,4), folded m_def]
  have lv: "popcount m = length ds" by (simp only: popcount_positions pos)
  have ctz: "ctz m = d" using ctz_positions pos(1) ds by metis
  have "decode_entries ctz0 (2 ^ length (e # es)) 0 (push_bit (length ds - 2) 1) \<lparr>d_flen = 1, d_dlen = d\<rparr> m d =
      Some (blocks 1 (d # e # es))"
    by (rule decode_entries_ok) (use pos(2) assms ds in auto)
  then have dec: "decode_entries ctz0 ?n 0 (push_bit (length ds - 2) 1) \<lparr>d_flen = 1, d_dlen = d\<rparr> m d =
      Some (blocks 1 ds)"
    by (simp add: ds)
  have ne: "ds \<noteq> []" by (simp add: ds)
  have len: "length (blocks 1 ds) = ?n" using length_blocks [OF ne] .
  then have "blocks 1 ds \<noteq> []" by auto
  then have lst: "blocks 1 ds ! (?n - 1) = \<lparr>d_flen = length ds, d_dlen = last ds\<rparr>"
    using last_blocks [OF ne, of 1] len by (simp add: last_conv_nth)
  let ?T = "(blocks 1 ds)[?n - 1 := \<lparr>d_flen = length ds - 1, d_dlen = last ds\<rparr>]"
  have lt: "?n - 1 < length (blocks 1 ds)" unfolding len by simp
  then have "ovlq_build_decode_table_with_mapping ctz0 m = Some (?T, length ds - 1)"
    using assms(1,2) dec lst
    by (simp add: ovlq_build_decode_table_with_mapping_def lv ctz Let_def)
  moreover have "?T ! bits_nat (flag @ rest) = \<lparr>d_flen = length flag, d_dlen = dlen\<rparr>"
    if code: "level_code ds b = (flag, dlen)" and l: "length (flag @ rest) = length ds - 1"
    for b flag dlen rest
  proof -
    note look = blocks_lookup [OF ne code l, of 1]
    have max: "bits_nat (flag @ rest) = ?n - 1 \<longleftrightarrow> (\<forall>b \<in> set (flag @ rest). b)"
      using bits_nat_max [of "flag @ rest"] by (simp only: l)
    from level_code_flag [OF ne code] show ?thesis
    proof
      assume "\<exists>k. flag = replicate k True @ [False] \<and> k + 1 < length ds"
      then obtain k where k: "flag = replicate k True @ [False]" by blast
      then have "bits_nat (flag @ rest) \<noteq> ?n - 1" using max by auto
      then show ?thesis using look k by simp
    next
      assume "flag = replicate (length ds - 1) True"
      moreover from this l have "rest = []" by simp
      ultimately have "bits_nat (flag @ rest) = ?n - 1" using max by simp
      moreover from this look lst have "dlen = last ds" by simp
      ultimately show ?thesis using lt \<open>flag = _\<close> by simp
    qed
  qed
  ultimately show thesis using that unfolding m_def by blast
qed

section \<open>Values and their lengths\<close>

lemma sign_bit: "sint (x :: int32) < 0 \<longleftrightarrow> bit x 31"
  using bit_last_iff [of x] by simp

lemma data_bitlen_bounds: "1 \<le> data_bitlen x" "data_bitlen x \<le> 32"
proof -
  have *: "d \<noteq> 0 \<Longrightarrow> clz d < 33" for d :: int32 using bit_clz(1) [of d] by simp
  have "clz d \<noteq> 0" if "d = (if sint x < 0 then NOT x else x)" "d \<noteq> 0" for d
  proof
    assume "clz d = 0"
    with bit_clz(2) [OF that(2)] have "bit d 31" by simp
    then show False using that(1) sign_bit [of x] by (auto simp: bit_simps split: if_splits)
  qed
  with * show "1 \<le> data_bitlen x" "data_bitlen x \<le> 32"
    by (auto simp: data_bitlen_def Let_def Suc_le_eq)
qed

lemma data_bitlen_sign:
  assumes "data_bitlen x \<le> n" "n - 1 \<le> k" "k < 32"
  shows "bit x k = bit x 31"
proof -
  define d where "d = (if sint x < 0 then NOT x else x)"
  have "\<not> bit d k"
  proof (cases "d = 0")
    case False
    then have "33 - clz d \<le> n" using assms(1) by (simp add: data_bitlen_def d_def Let_def)
    then have "LENGTH(32) - clz d \<le> k" using assms(2) by simp
    then show ?thesis by (rule not_bit_above_clz)
  qed simp
  then show ?thesis using assms(3) sign_bit [of x] by (auto simp: d_def bit_simps split: if_splits)
qed

lemma bit_sign_extend:
  assumes "1 \<le> n" "n \<le> 32" "k < 32"
  shows "bit (sign_extend n d) k = bit d (if k < n then k else n - 1)"
proof -
  have "32 - (32 - n) = n" "32 - n \<le> 31" "31 - (32 - n) = n - 1" using assms by simp_all
  then show ?thesis
    using assms unfolding sign_extend_def
    by (auto simp: bit_signed_drop_bit_iff bit_push_bit_iff bit_ucast_iff)
qed

lemma sign_extend_back:
  assumes "data_bitlen x \<le> n" "n \<le> 32"
  shows "sign_extend n (take_bit n (scast x)) = x"
proof (rule bit_word_eqI)
  fix k assume k: "k < LENGTH(32)"
  have n: "1 \<le> n" using data_bitlen_bounds(1) [of x] assms(1) by simp
  have "bit x k = bit x (n - 1)" if "n \<le> k"
    using data_bitlen_sign [OF assms(1), of k] data_bitlen_sign [OF assms(1), of "n - 1"]
      k n assms(2) that by simp
  then show "bit (sign_extend n (take_bit n (scast x))) k = bit x k"
    using bit_sign_extend [OF n assms(2), of k] k n assms(2) less_imp_diff_less [of n 64 1]
    by (cases "k < n") (simp_all add: bit_take_bit_iff bit_signed_iff)
qed

section \<open>Encoding and decoding\<close>

lemma words_of_bits:
  "(8 + nat (ALIGN_UP (DIV_UP (int n) 3) 2) - 8) div 4 = (n + 31) div 32"
proof -
  have up: "DIV_UP (int n) 3 = int ((n + 7) div 8)"
    by (simp add: DIV_UP_def drop_bit_eq_div zdiv_int)
  have "ALIGN_UP (int m) 2 = int ((m + 3) div 4 * 4)" for m
  proof -
    have "x AND NOT (mask 2) = push_bit 2 (drop_bit 2 x)" for x :: int
    proof (rule bit_eqI)
      show "bit (x AND NOT (mask 2)) n = bit (push_bit 2 (drop_bit 2 x)) n" for n
      proof (cases "n < 2")
        case False
        then obtain k where "n = 2 + k" using le_Suc_ex not_less by blast
        then show ?thesis by (simp add: bit_simps)
      qed (simp add: bit_simps)
    qed
    moreover have "mask 2 = (3 :: int)" by (simp add: mask_eq_exp_minus_1)
    ultimately show ?thesis
      by (simp add: ALIGN_UP_def push_bit_eq_mult drop_bit_eq_div zdiv_int)
  qed
  moreover have "((n + 7) div 8 + 3) div 4 = (n + 31) div 32"
  proof -
    have "(n + 7) div 8 + 3 = (n + 31) div 8" by simp
    then show ?thesis by (simp add: div_mult2_eq [symmetric])
  qed
  ultimately show ?thesis using up by simp
qed

text \<open>The fields of one value.\<close>

definition level_fields :: "encode_entry option list \<Rightarrow> int32 \<Rightarrow> field list" where
  "level_fields T x =
     (case T ! data_bitlen x of
        None \<Rightarrow> []
      | Some e \<Rightarrow> [(scast (e_flag e), e_flen e), (scast x, e_dlen e)])"

lemma write_plain_fields:
  "write_plain w d xs = put_fields bit_write w (map (\<lambda>x. (scast x, d)) xs)"
  by (induction xs arbitrary: w) simp_all

lemma write_levelled_fields:
  assumes "\<forall>x \<in> set xs. T ! data_bitlen x \<noteq> None"
  shows "write_levelled w T (zip xs (map data_bitlen xs)) =
    put_fields bit_write w (concat (map (level_fields T) xs))"
  using assms
proof (induction xs arbitrary: w)
  case (Cons x xs)
  then obtain e where e: "T ! data_bitlen x = Some e" by auto
  have "\<forall>x \<in> set xs. T ! data_bitlen x \<noteq> None" using Cons.prems by simp
  note IH = Cons.IH [OF this]
  show ?case by (simp add: e level_fields_def IH)
qed simp

definition levels_ok :: "nat list \<Rightarrow> int32 list \<Rightarrow> bool" where
  "levels_ok ds xs \<longleftrightarrow> ds \<noteq> [] \<and> sorted_wrt (<) ds \<and> (\<forall>d \<in> set ds. 1 \<le> d \<and> d \<le> 32) \<and>
     length ds \<le> 17 \<and> (\<forall>x \<in> set xs. data_bitlen x \<le> last ds)"

lemma level_code_bounds:
  "ds \<noteq> [] \<Longrightarrow> sorted_wrt (<) ds \<Longrightarrow> b \<le> last ds \<Longrightarrow> level_code ds b = (flag, dlen) \<Longrightarrow>
   b \<le> dlen \<and> dlen \<in> set ds \<and> length flag \<le> length ds - 1 \<and> (1 < length ds \<longrightarrow> flag \<noteq> [])"
proof (induction ds b arbitrary: flag dlen rule: level_code.induct)
  case (3 d e ds b)
  show ?case
  proof (cases "b \<le> d")
    case False
    then obtain flag' where flag: "flag = True # flag'" "level_code (e # ds) b = (flag', dlen)"
      using "3.prems"(4) by (auto split: prod.splits)
    have "e # ds \<noteq> []" "sorted_wrt (<) (e # ds)" "b \<le> last (e # ds)"
      using "3.prems"(2,3) by simp_all
    from "3.IH" [OF False this flag(2)] show ?thesis by (simp add: flag(1))
  qed (use 3 in auto)
qed auto

lemma level_fields_ok:
  assumes "levels_ok ds xs" "x \<in> set xs" "1 < length ds"
    "\<And>b. 1 \<le> b \<Longrightarrow> b \<le> last ds \<Longrightarrow> entry_for 0 ds b (T ! b)"
  shows "T ! data_bitlen x \<noteq> None" "\<forall>f \<in> set (level_fields T x). field_ok f"
    "fields_bits (level_fields T x) =
       fst (level_code ds (data_bitlen x)) @ to_bits (snd (level_code ds (data_bitlen x))) (scast x :: u64)"
proof -
  obtain flag dlen where code: "level_code ds (data_bitlen x) = (flag, dlen)" by fastforce
  from assms(1,2) have ds: "ds \<noteq> []" "sorted_wrt (<) ds" "data_bitlen x \<le> last ds" "length ds \<le> 17"
    "\<forall>d \<in> set ds. 1 \<le> d \<and> d \<le> 32"
    by (auto simp: levels_ok_def)
  note b = level_code_bounds [OF ds(1-3) code]
  have "entry_for 0 ds (data_bitlen x) (T ! data_bitlen x)"
    using assms(4) data_bitlen_bounds(1) ds(3) by blast
  then obtain e where e: "T ! data_bitlen x = Some e" "e_dlen e = dlen" "e_flen e = length flag"
    "to_bits (length flag) (e_flag e) = flag"
    by (auto simp: entry_for_def code)
  then show "T ! data_bitlen x \<noteq> None" by simp
  have len: "0 < length flag" "length flag \<le> 32" "0 < dlen" "dlen \<le> 32"
    using b ds assms(3) by (auto simp: Suc_le_eq)
  then show "\<forall>f \<in> set (level_fields T x). field_ok f" by (simp add: level_fields_def e)
  show "fields_bits (level_fields T x) = fst (level_code ds (data_bitlen x)) @
      to_bits (snd (level_code ds (data_bitlen x))) (scast x :: u64)"
    using e len by (simp add: level_fields_def code to_bits_scast64)
qed

lemma levelled_cost:
  assumes "levels_ok ds xs" "1 < length ds"
    "\<And>b. 1 \<le> b \<Longrightarrow> b \<le> last ds \<Longrightarrow> entry_for 0 ds b (T ! b)" "set ys \<subseteq> set xs"
  shows "length (fields_bits (concat (map (level_fields T) ys))) = cost ds (map data_bitlen ys)"
  using assms(4)
  by (induction ys)
     (simp_all add: cost_def code_len_def level_fields_ok(3) [OF assms(1) _ assms(2,3)])

lemma plain_cost:
  "length (fields_bits (map (\<lambda>x. (scast x, d)) xs)) = cost [d] (map data_bitlen xs)"
  by (induction xs) (simp_all add: cost_def code_len_def)

lemma read_plain_at:
  assumes "br.at r (fields_bits (map (\<lambda>x. (scast x, d)) xs))" "1 \<le> d" "d \<le> 32"
    "\<forall>x \<in> set xs. data_bitlen x \<le> d"
  shows "read_plain (length xs) r d = Some xs"
  using assms(1,4)
proof (induction xs arbitrary: r)
  case (Cons x xs)
  then have at: "br.at r (to_bits d (scast x :: u64) @ fields_bits (map (\<lambda>x. (scast x, d)) xs))" by simp
  obtain r' where r': "forward r d = Some r'" "br.at r' (fields_bits (map (\<lambda>x. (scast x, d)) xs))"
    using br.skip_field [OF at assms(3)] by blast
  have "peek r d = Some (take_bit d (scast x))" using br.look_field [OF at] assms(2,3) by simp
  with r' Cons assms(3) show ?case by (simp add: sign_extend_back)
qed simp

lemma read_levelled_at:
  assumes "levels_ok ds xs" "1 < length ds"
    "\<And>b. 1 \<le> b \<Longrightarrow> b \<le> last ds \<Longrightarrow> entry_for 0 ds b (T ! b)"
    "\<And>b flag dlen rest. level_code ds b = (flag, dlen) \<Longrightarrow> length (flag @ rest) = length ds - 1 \<Longrightarrow>
       U ! bits_nat (flag @ rest) = \<lparr>d_flen = length flag, d_dlen = dlen\<rparr>"
    "br.at r (fields_bits (concat (map (level_fields T) ys)))" "set ys \<subseteq> set xs"
  shows "read_levelled (length ys) r U (length ds - 1) = Some ys"
  using assms(5,6)
proof (induction ys arbitrary: r)
  case (Cons y ys)
  let ?rest = "fields_bits (concat (map (level_fields T) ys))"
  obtain flag dlen where code: "level_code ds (data_bitlen y) = (flag, dlen)" by fastforce
  have y: "y \<in> set xs" using Cons.prems by simp
  have ds: "ds \<noteq> []" "sorted_wrt (<) ds" "data_bitlen y \<le> last ds" "length ds \<le> 17"
    "\<forall>d \<in> set ds. 1 \<le> d \<and> d \<le> 32"
    using assms(1) y by (auto simp: levels_ok_def)
  note b = level_code_bounds [OF ds(1-3) code]
  have at: "br.at r (flag @ to_bits dlen (scast y :: u64) @ ?rest)"
    using Cons.prems(1) level_fields_ok(3) [OF assms(1) y assms(2,3)] by (simp add: code)
  obtain pad where pad: "peek r (length ds - 1) = Some (of_bits (flag @ pad))"
    "length (flag @ pad) = length ds - 1"
    using br.look_prefix [OF br.at_prefix [OF at], of "length ds - 1"] b assms(2) ds(4)
      diff_le_self [of "length ds" 1] by force
  have idx: "unat (of_bits (flag @ pad)) = bits_nat (flag @ pad)"
    by (rule unat_of_bits) (use pad(2) ds(4) in simp)
  obtain r1 where r1: "forward r (length flag) = Some r1" "br.at r1 (to_bits dlen (scast y :: u64) @ ?rest)"
    using br.skip_at [OF at refl] b ds(4) by fastforce
  have dlen: "1 \<le> dlen" "dlen \<le> 32" "data_bitlen y \<le> dlen" using b ds(5) by auto
  obtain r2 where r2: "forward r1 dlen = Some r2" "br.at r2 ?rest"
    using br.skip_field [OF r1(2) dlen(2)] by blast
  have "peek r1 dlen = Some (take_bit dlen (scast y))"
    using br.look_field [OF r1(2)] dlen by simp
  with r1(1) r2 Cons show ?case
    using pad(1) assms(4) [OF code pad(2)] sign_extend_back [OF dlen(3,2)] by (simp add: idx)
qed simp

lemma encode_split:
  assumes "xs \<noteq> []" "length xs < 2 ^ 25"
  obtains ds where
    "ovlq_search_optimal_mapping (map data_bitlen xs) =
       Some (mapping_of ds, int (cost ds (map data_bitlen xs)))"
    "levels_ok ds xs" "set ds \<subseteq> data_bitlen ` set xs" "0 < cost ds (map data_bitlen xs)"
    "cost ds (map data_bitlen xs) \<le> Max (data_bitlen ` set xs) * length xs"
proof -
  let ?bs = "map data_bitlen xs"
  have "bitlens_ok ?bs" using assms data_bitlen_bounds by (simp add: bitlens_ok_def)
  then obtain ds where ds: "ovlq_search_optimal_mapping ?bs = Some (mapping_of ds, int (cost ds ?bs))"
    "ds \<noteq> []" "sorted_wrt (<) ds" "set ds \<subseteq> set ?bs" "last ds = Max (set ?bs)"
    "length ds \<le> 17" "cost ds ?bs \<le> Max (set ?bs) * length ?bs"
    using search_ok by blast
  have bnd: "\<forall>d \<in> set ds. 1 \<le> d \<and> d \<le> 32" using ds(4) data_bitlen_bounds by auto
  have ok: "levels_ok ds xs" using ds bnd by (simp add: levels_ok_def)
  obtain x xs' where xs: "xs = x # xs'" using assms(1) by (cases xs) auto
  obtain flag dlen where code: "level_code ds (data_bitlen x) = (flag, dlen)" by fastforce
  have "data_bitlen x \<le> dlen"
    using level_code_bounds [OF ds(2,3) _ code] ok xs by (simp add: levels_ok_def)
  then have "0 < cost ds ?bs"
    using data_bitlen_bounds(1) [of x] by (simp add: xs cost_def code_len_def code)
  with that ds ok show thesis by auto
qed

lemma ovlq_frame:
  assumes "ovlq_search_optimal_mapping (map data_bitlen xs) = Some (mapping, int c)"
    "ovlq_build_encode_table_with_mapping mapping = Some table"
    "\<And>w. (case table of None \<Rightarrow> write_plain w (ctz mapping + 1) xs
           | Some table \<Rightarrow> write_levelled w table (zip xs (map data_bitlen xs))) =
          put_fields bit_write w fs"
    "fs \<noteq> []" "\<forall>f \<in> set fs. field_ok f" "length (fields_bits fs) = c"
  obtains out r where
    "ovlq_encode xs = Some (le_bytes 4 (of_nat (length xs) :: u32) @ le_bytes 4 mapping @ words_bytes out)"
    "length out = (c + 31) div 32" "initBitReader out (length out) = Some r" "br.at r (fields_bits fs)"
proof -
  let ?n = "(c + 31) div 32"
  obtain w0 w1 w2 k r where *: "initBitWriter (replicate ?n 0) ?n = Some w0"
      "put_fields bit_write w0 fs = Some w1" "flush w1 = Some (w2, k)" "k = ?n"
      "initBitReader (take k (w_output w2)) k = Some r" "br.at r (fields_bits fs)"
      "length (w_output w2) = ?n"
    by (rule fields_to_reader [OF assms(4,5), of ?n "replicate ?n 0"]) (use assms(6) in auto)
  have "take k (w_output w2) = w_output w2" using * by simp
  with * have "initBitReader (w_output w2) (length (w_output w2)) = Some r" by simp
  moreover have "ovlq_encode xs =
      Some (le_bytes 4 (of_nat (length xs) :: u32) @ le_bytes 4 mapping @ words_bytes (w_output w2))"
    using * assms(1,2) by (simp add: ovlq_encode_def assms(3) words_of_bits [simplified])
  ultimately show thesis using that * by blast
qed

lemma decode_header:
  assumes "initBitReader out (length out) = Some r" "length xs < 2 ^ 32"
  shows "ovlq_decode ctz0 (le_bytes 4 (of_nat (length xs) :: u32) @ le_bytes 4 (mapping :: u32) @
      words_bytes out) =
    (let m = push_bit 1 (ucast mapping) :: u64 in
     if popcount m = 1 then read_plain (length xs) r (ctz m)
     else do {
       (table, index_bitlen) \<leftarrow> ovlq_build_decode_table_with_mapping ctz0 m;
       read_levelled (length xs) r table index_bitlen })"
  using assms by (simp add: ovlq_decode_def unat_of_nat Let_def)

text \<open>Encoding, by the number of levels: the bytes, and the reader the decoder starts with.\<close>

lemma ovlq_roundtrip_levels:
  assumes "levels_ok ds xs" "xs \<noteq> []" "length xs < 2 ^ 32"
    "ovlq_search_optimal_mapping (map data_bitlen xs) =
       Some (mapping_of ds, int (cost ds (map data_bitlen xs)))"
    "ctz0 = 32 \<or> (\<forall>d \<in> set ds. d < 32)"
  obtains bytes where "ovlq_encode xs = Some bytes" "ovlq_decode ctz0 bytes = Some xs"
    "length bytes = 8 + 4 * ((cost ds (map data_bitlen xs) + 31) div 32)"
proof -
  let ?c = "cost ds (map data_bitlen xs)" and ?m = "push_bit 1 (ucast (mapping_of ds)) :: u64"
  have ds: "ds \<noteq> []" "sorted_wrt (<) ds" "\<forall>d \<in> set ds. 1 \<le> d \<and> d \<le> 32" "length ds \<le> 17"
    using assms(1) by (auto simp: levels_ok_def)
  have lv: "popcount ?m = length ds" by (simp only: popcount_positions levels64(1) [OF ds(2,3)])
  show thesis
  proof (cases "length ds = 1")
    case True
    then obtain d where d: "ds = [d]" by (cases ds) auto
    have bnd: "1 \<le> d" "d \<le> 32" "\<forall>x \<in> set xs. data_bitlen x \<le> d"
      using assms(1) by (auto simp: levels_ok_def d)
    let ?fs = "map (\<lambda>x. (scast x, d)) xs :: field list"
    have fs: "?fs \<noteq> []" "\<forall>f \<in> set ?fs. field_ok f" using assms(2) bnd by auto
    have w: "(case None of None \<Rightarrow> write_plain w (ctz (mapping_of ds) + 1) xs
        | Some table \<Rightarrow> write_levelled w table (zip xs (map data_bitlen xs))) =
      put_fields bit_write w ?fs" for w
      using encode_table_single(2) [OF bnd(1,2)] by (simp only: d option.case write_plain_fields)
    have t: "ovlq_build_encode_table_with_mapping (mapping_of ds) = Some None"
      using encode_table_single(1) [OF bnd(1,2)] d by simp
    have c: "length (fields_bits ?fs) = ?c" using plain_cost d by simp
    obtain out r where *: "ovlq_encode xs =
        Some (le_bytes 4 (of_nat (length xs) :: u32) @ le_bytes 4 (mapping_of ds) @ words_bytes out)"
        "length out = (?c + 31) div 32" "initBitReader out (length out) = Some r"
        "br.at r (fields_bits ?fs)"
      using ovlq_frame [OF assms(4) t w fs c] by blast
    have "ctz ?m = d" using ctz_positions levels64(1) [OF ds(2,3)] d by metis
    then show thesis
      using that [OF *(1)] decode_header [OF *(3) assms(3), of ctz0 "mapping_of ds"]
        read_plain_at [OF *(4) bnd] lv True *(2) by (simp only: Let_def) simp
  next
    case False
    then have l: "1 < length ds" "length ds \<le> 31" "length ds \<le> 32" using ds(1,4) by (auto simp: Suc_lessI)
    obtain T where T: "ovlq_build_encode_table_with_mapping (mapping_of ds) = Some (Some T)"
      "\<And>b. 1 \<le> b \<Longrightarrow> b \<le> last ds \<Longrightarrow> entry_for 0 ds b (T ! b)"
      using encode_table_ok [OF l(1) ds(2,3) l(3)] by blast
    note lf = level_fields_ok [OF assms(1) _ l(1) T(2)]
    let ?fs = "concat (map (level_fields T) xs)"
    have c: "length (fields_bits ?fs) = ?c" using levelled_cost [OF assms(1) l(1) T(2)] by simp
    obtain x xs' where xs: "xs = x # xs'" using assms(2) by (cases xs) auto
    have "level_fields T x \<noteq> []" using lf(1) [of x] xs by (auto simp: level_fields_def)
    then have fs: "?fs \<noteq> []" "\<forall>f \<in> set ?fs. field_ok f" using xs lf(2) by auto
    have w: "(case Some T of None \<Rightarrow> write_plain w (ctz (mapping_of ds) + 1) xs
        | Some table \<Rightarrow> write_levelled w table (zip xs (map data_bitlen xs))) =
      put_fields bit_write w ?fs" for w
      using write_levelled_fields [of xs T w] lf(1) by simp
    obtain out r where *: "ovlq_encode xs =
        Some (le_bytes 4 (of_nat (length xs) :: u32) @ le_bytes 4 (mapping_of ds) @ words_bytes out)"
        "length out = (?c + 31) div 32" "initBitReader out (length out) = Some r"
        "br.at r (fields_bits ?fs)"
      using ovlq_frame [OF assms(4) T(1) w fs c] by blast
    obtain U where U: "ovlq_build_decode_table_with_mapping ctz0 ?m = Some (U, length ds - 1)"
      "\<And>b flag dlen rest. level_code ds b = (flag, dlen) \<Longrightarrow> length (flag @ rest) = length ds - 1 \<Longrightarrow>
         U ! bits_nat (flag @ rest) = \<lparr>d_flen = length flag, d_dlen = dlen\<rparr>"
      using decode_table_ok [OF l(1,2) ds(2,3) assms(5)] by blast
    have "read_levelled (length xs) r U (length ds - 1) = Some xs"
      using read_levelled_at [OF assms(1) l(1) T(2) U(2) *(4)] by simp
    then show thesis
      using that [OF *(1)] decode_header [OF *(3) assms(3), of ctz0 "mapping_of ds"] U(1) lv False *(2)
      by (simp only: Let_def) simp
  qed
qed

lemma ovlq_encode_decode:
  assumes "xs \<noteq> []" "length xs < 2 ^ 25" "ctz0 = 32 \<or> (\<forall>x \<in> set xs. data_bitlen x < 32)"
  obtains bytes where "ovlq_encode xs = Some bytes" "ovlq_decode ctz0 bytes = Some xs"
    "length bytes < 2 ^ 28"
proof -
  obtain ds where ds: "ovlq_search_optimal_mapping (map data_bitlen xs) =
       Some (mapping_of ds, int (cost ds (map data_bitlen xs)))" "levels_ok ds xs"
    "set ds \<subseteq> data_bitlen ` set xs" "0 < cost ds (map data_bitlen xs)"
    "cost ds (map data_bitlen xs) \<le> Max (data_bitlen ` set xs) * length xs"
    by (rule encode_split [OF assms(1,2)])
  have "ctz0 = 32 \<or> (\<forall>d \<in> set ds. d < 32)" using assms(3) ds(3) by auto
  note ctz = this
  have "length xs < 2 ^ 32" using assms(2) by simp
  then obtain bytes where bytes: "ovlq_encode xs = Some bytes" "ovlq_decode ctz0 bytes = Some xs"
    "length bytes = 8 + 4 * ((cost ds (map data_bitlen xs) + 31) div 32)"
    by (rule ovlq_roundtrip_levels [OF ds(2) assms(1) _ ds(1) ctz])
  have "Max (data_bitlen ` set xs) \<le> 32" using assms(1) data_bitlen_bounds by simp
  then have "cost ds (map data_bitlen xs) \<le> 32 * length xs"
    by (rule order_trans [OF ds(5) mult_le_mono1])
  then have "(cost ds (map data_bitlen xs) + 31) div 32 \<le> length xs" by simp
  with bytes(3) assms(2) have "length bytes < 2 ^ 28" by simp
  with bytes(1,2) show thesis by (rule that)
qed

text \<open>C9. Variable-length quantities are lossless: every non-empty array of fewer than
  \<open>2 ^ 25\<close> 32-bit integers is encoded without overflowing the announced buffer and decoded to
  itself, provided that no value needs the full 32 bits or that \<open>__builtin_ctz(0)\<close>, which the
  decode table then asks for, returns 32.\<close>

theorem ovlq_roundtrip:
  assumes "xs \<noteq> []" "length xs < 2 ^ 25" "ctz0 = 32 \<or> (\<forall>x \<in> set xs. data_bitlen x < 32)"
  shows "\<exists>bytes. ovlq_encode xs = Some bytes \<and> ovlq_decode ctz0 bytes = Some xs"
  using ovlq_encode_decode [OF assms] by metis

text \<open>Witness of C9: a single level, and several levels with the value
  \<open>INT32_MIN\<close> under the result 32 of \<open>__builtin_ctz(0)\<close>.\<close>

theorem ovlq_roundtrip_witness:
  "\<exists>bytes. ovlq_encode [5, 0, 0x80000000] = Some bytes \<and> ovlq_decode 32 bytes = Some [5, 0, 0x80000000]"
  using ovlq_roundtrip [of "[5, 0, 0x80000000]" 32] by simp





end
