(* ===== verification/StdQueue.thy ===== *)
theory StdQueue
  imports Prelude
begin

text \<open>
  \<open>std::priority_queue\<close> and \<open>std::unordered_map\<close> as the Huffman coder uses them.  The standard
  fixes what \<open>top\<close> and \<open>pop\<close> do only up to ties, and the iteration order of a hash map not at
  all, so both are interfaces: the record of queue operations with the laws of the locale
  \<open>priority_queue\<close>, and an arbitrary rearrangement of the entries of a map.  The locale is
  interpreted on a binary heap in a vector, the container adaptor's own data structure.
\<close>

section \<open>The interface\<close>

record ('a, 'q) pq_ops =
  pq_empty :: 'q
  pq_size :: "'q \<Rightarrow> nat"
  pq_push :: "'a \<Rightarrow> 'q \<Rightarrow> 'q"
  pq_top :: "'q \<Rightarrow> 'a"
  pq_pop :: "'q \<Rightarrow> 'q"

definition pq_push_all :: "('a, 'q) pq_ops \<Rightarrow> 'a list \<Rightarrow> 'q \<Rightarrow> 'q" where
  "pq_push_all Q xs q = foldl (\<lambda>q x. pq_push Q x q) q xs"

fun pq_drain :: "('a, 'q) pq_ops \<Rightarrow> nat \<Rightarrow> 'q \<Rightarrow> 'a list" where
  "pq_drain Q 0 q = []"
| "pq_drain Q (Suc n) q = pq_top Q q # pq_drain Q n (pq_pop Q q)"

locale priority_queue =
  fixes Q :: "('a, 'q) pq_ops"
    and key :: "'a \<Rightarrow> int"
    and elems :: "'q \<Rightarrow> 'a multiset"
    and ok :: "'q \<Rightarrow> bool"
  assumes empty_ok: "ok (pq_empty Q)" "elems (pq_empty Q) = {#}"
    and size_elems: "ok q \<Longrightarrow> pq_size Q q = size (elems q)"
    and push_ok: "ok q \<Longrightarrow> ok (pq_push Q x q)"
    and push_elems: "ok q \<Longrightarrow> elems (pq_push Q x q) = add_mset x (elems q)"
    and top_elem: "ok q \<Longrightarrow> elems q \<noteq> {#} \<Longrightarrow> pq_top Q q \<in># elems q"
    and top_least: "ok q \<Longrightarrow> x \<in># elems q \<Longrightarrow> key (pq_top Q q) \<le> key x"
    and pop_ok: "ok q \<Longrightarrow> elems q \<noteq> {#} \<Longrightarrow> ok (pq_pop Q q)"
    and pop_elems: "ok q \<Longrightarrow> elems q \<noteq> {#} \<Longrightarrow> elems (pq_pop Q q) = elems q - {#pq_top Q q#}"
begin

lemma push_all:
  "ok q \<Longrightarrow> ok (pq_push_all Q xs q) \<and> elems (pq_push_all Q xs q) = elems q + mset xs"
  by (induction xs arbitrary: q) (auto simp: pq_push_all_def push_ok push_elems)

lemma elems_split:
  "ok q \<Longrightarrow> elems q \<noteq> {#} \<Longrightarrow> elems q = add_mset (pq_top Q q) (elems (pq_pop Q q))"
  by (simp add: pop_elems top_elem)

lemma drain:
  assumes "ok q" "n = size (elems q)"
  shows "mset (pq_drain Q n q) = elems q \<and> sorted_wrt (\<lambda>x y. key x \<le> key y) (pq_drain Q n q)"
  using assms
proof (induction n arbitrary: q)
  case 0
  then show ?case by simp
next
  case (Suc n)
  then have ne: "elems q \<noteq> {#}" by auto
  have size: "n = size (elems (pq_pop Q q))"
    using Suc.prems(2) elems_split [OF Suc.prems(1) ne] by (metis size_add_mset nat.inject)
  note IH = Suc.IH [OF pop_ok [OF Suc.prems(1) ne] size]
  have "key (pq_top Q q) \<le> key x" if "x \<in> set (pq_drain Q n (pq_pop Q q))" for x
  proof -
    have "x \<in># mset (pq_drain Q n (pq_pop Q q))" using that by simp
    then have "x \<in># elems q"
      using IH elems_split [OF Suc.prems(1) ne] by (metis union_iff add_mset_add_single)
    then show ?thesis by (rule top_least [OF Suc.prems(1)])
  qed
  with IH elems_split [OF Suc.prems(1) ne] show ?case by simp
qed

end

section \<open>A binary heap in a vector\<close>

definition heap_swap :: "'a list \<Rightarrow> nat \<Rightarrow> nat \<Rightarrow> 'a list" where
  "heap_swap xs i j = xs[i := xs ! j, j := xs ! i]"

function sift_up :: "('a \<Rightarrow> int) \<Rightarrow> 'a list \<Rightarrow> nat \<Rightarrow> 'a list" where
  "sift_up key xs i =
     (let p = (i - 1) div 2
      in if 0 < i \<and> key (xs ! i) < key (xs ! p) then sift_up key (heap_swap xs i p) p else xs)"
  by pat_completeness auto
termination by (relation "measure (\<lambda>(_, _, i). i)") auto

definition smaller_child :: "('a \<Rightarrow> int) \<Rightarrow> 'a list \<Rightarrow> nat \<Rightarrow> nat" where
  "smaller_child key xs i =
     (if 2 * i + 2 < length xs \<and> key (xs ! (2 * i + 2)) < key (xs ! (2 * i + 1))
      then 2 * i + 2 else 2 * i + 1)"

function sift_down :: "('a \<Rightarrow> int) \<Rightarrow> 'a list \<Rightarrow> nat \<Rightarrow> 'a list" where
  "sift_down key xs i =
     (let c = smaller_child key xs i
      in if c < length xs \<and> key (xs ! c) < key (xs ! i) then sift_down key (heap_swap xs i c) c else xs)"
  by pat_completeness auto
termination
  by (relation "measure (\<lambda>(_, xs, i). length xs - i)") (auto simp: heap_swap_def smaller_child_def)

declare sift_up.simps [simp del] sift_down.simps [simp del]

definition heap_ops :: "('a \<Rightarrow> int) \<Rightarrow> ('a, 'a list) pq_ops" where
  "heap_ops key =
     \<lparr>pq_empty = [], pq_size = length,
      pq_push = (\<lambda>x xs. sift_up key (xs @ [x]) (length xs)),
      pq_top = (\<lambda>xs. xs ! 0),
      pq_pop = (\<lambda>xs. if length xs \<le> 1 then [] else sift_down key ((butlast xs)[0 := last xs]) 0)\<rparr>"

lemma length_heap_swap [simp]: "length (heap_swap xs i j) = length xs"
  by (simp add: heap_swap_def)

lemma mset_heap_swap [simp]: "i < length xs \<Longrightarrow> j < length xs \<Longrightarrow> mset (heap_swap xs i j) = mset xs"
  by (simp add: heap_swap_def mset_swap)

lemma nth_heap_swap:
  "i < length xs \<Longrightarrow> j < length xs \<Longrightarrow>
   heap_swap xs i j ! k = (if k = j then xs ! i else if k = i then xs ! j else xs ! k)"
  by (auto simp: heap_swap_def nth_list_update)

text \<open>The heap order, with an exception at the children or at the parent edge of one index.\<close>

definition heap_edge :: "('a \<Rightarrow> int) \<Rightarrow> 'a list \<Rightarrow> nat \<Rightarrow> bool" where
  "heap_edge key xs j \<longleftrightarrow> key (xs ! ((j - 1) div 2)) \<le> key (xs ! j)"

definition is_heap :: "('a \<Rightarrow> int) \<Rightarrow> 'a list \<Rightarrow> bool" where
  "is_heap key xs \<longleftrightarrow> (\<forall>j. 0 < j \<longrightarrow> j < length xs \<longrightarrow> heap_edge key xs j)"

definition heap_above :: "('a \<Rightarrow> int) \<Rightarrow> 'a list \<Rightarrow> nat \<Rightarrow> bool" where
  "heap_above key xs i \<longleftrightarrow>
     (\<forall>j. 0 < j \<longrightarrow> j < length xs \<longrightarrow> j \<noteq> i \<longrightarrow> heap_edge key xs j) \<and>
     (\<forall>j. 0 < i \<longrightarrow> 0 < j \<longrightarrow> j < length xs \<longrightarrow> (j - 1) div 2 = i \<longrightarrow>
        key (xs ! ((i - 1) div 2)) \<le> key (xs ! j))"

definition heap_below :: "('a \<Rightarrow> int) \<Rightarrow> 'a list \<Rightarrow> nat \<Rightarrow> bool" where
  "heap_below key xs i \<longleftrightarrow>
     (\<forall>j. 0 < j \<longrightarrow> j < length xs \<longrightarrow> (j - 1) div 2 \<noteq> i \<longrightarrow> heap_edge key xs j) \<and>
     (\<forall>j. 0 < i \<longrightarrow> 0 < j \<longrightarrow> j < length xs \<longrightarrow> (j - 1) div 2 = i \<longrightarrow>
        key (xs ! ((i - 1) div 2)) \<le> key (xs ! j))"

lemma key_chain:
  "x = a \<Longrightarrow> y = (if j = i then b else c) \<Longrightarrow> key a \<le> key b \<Longrightarrow> (j \<noteq> i \<Longrightarrow> key b \<le> key c) \<Longrightarrow>
   key x \<le> (key y :: int)"
  by (cases "j = i") auto

lemma sift_up_ok:
  "i < length xs \<Longrightarrow> heap_above key xs i \<Longrightarrow>
   is_heap key (sift_up key xs i) \<and> mset (sift_up key xs i) = mset xs"
proof (induction key xs i rule: sift_up.induct)
  case (1 key xs i)
  let ?p = "(i - 1) div 2"
  show ?case
  proof (cases "0 < i \<and> key (xs ! i) < key (xs ! ?p)")
    case True
    have p: "?p < i" "?p < length xs" using True 1(2) by auto
    have "heap_above key (heap_swap xs i ?p) ?p"
      unfolding heap_above_def
    proof (intro conjI allI impI)
      fix j assume j: "0 < j" "j < length (heap_swap xs i ?p)" "j \<noteq> ?p"
      show "heap_edge key (heap_swap xs i ?p) j"
      proof (cases "j = i")
        case True
        then show ?thesis using \<open>0 < i \<and> _\<close> 1(2) p by (auto simp: heap_edge_def nth_heap_swap)
      next
        case False
        then have "heap_edge key xs j" using 1(3) j by (simp add: heap_above_def)
        moreover have "key (xs ! ?p) \<le> key (xs ! j)" if "(j - 1) div 2 = i"
          using 1(3) True that j by (simp add: heap_above_def)
        ultimately show ?thesis
          using False True 1(2) p j by (auto simp: heap_edge_def nth_heap_swap)
      qed
    next
      fix j assume j: "0 < ?p" "0 < j" "j < length (heap_swap xs i ?p)" "(j - 1) div 2 = ?p"
      have up: "key (xs ! ((?p - 1) div 2)) \<le> key (xs ! ?p)"
        using 1(3) j p by (simp add: heap_above_def heap_edge_def)
      have dn: "key (xs ! ?p) \<le> key (xs ! j)" if "j \<noteq> i"
        using 1(3) j that unfolding heap_above_def heap_edge_def by (metis length_heap_swap)
      have "(?p - 1) div 2 < ?p" "?p < j" using j by linarith+
      then have "heap_swap xs i ?p ! ((?p - 1) div 2) = xs ! ((?p - 1) div 2)"
        "heap_swap xs i ?p ! j = (if j = i then xs ! ?p else xs ! j)"
        using nth_heap_swap [OF 1(2) p(2)] p(1) by simp_all
      then show "key (heap_swap xs i ?p ! ((?p - 1) div 2)) \<le> key (heap_swap xs i ?p ! j)"
        using up dn by (rule key_chain)
    qed
    moreover have "sift_up key xs i = sift_up key (heap_swap xs i ?p) ?p"
      by (subst sift_up.simps) (simp only: Let_def True if_True simp_thms)
    ultimately show ?thesis using 1(1) [OF refl True] p 1(2) by simp
  next
    case False
    then have "heap_edge key xs i" if "0 < i" using that by (auto simp: heap_edge_def)
    then have "is_heap key xs" using 1(3) unfolding is_heap_def heap_above_def by blast
    moreover have "sift_up key xs i = xs" by (subst sift_up.simps) (simp only: Let_def False if_False)
    ultimately show ?thesis by simp
  qed
qed

lemma smaller_child_cases:
  assumes "smaller_child key xs i < length xs" "0 < j" "j < length xs" "(j - 1) div 2 = i"
  shows "key (xs ! smaller_child key xs i) \<le> key (xs ! j)"
proof -
  have "j = 2 * i + 1 \<or> j = 2 * i + 2" using assms(2,4) by arith
  then show ?thesis using assms(1,3) by (auto simp: smaller_child_def)
qed

lemma smaller_child_parent: "(smaller_child key xs i - 1) div 2 = i" "i < smaller_child key xs i"
  by (auto simp: smaller_child_def)

lemma sift_down_ok:
  "i < length xs \<Longrightarrow> heap_below key xs i \<Longrightarrow>
   is_heap key (sift_down key xs i) \<and> mset (sift_down key xs i) = mset xs"
proof (induction key xs i rule: sift_down.induct)
  case (1 key xs i)
  let ?c = "smaller_child key xs i"
  note sc = smaller_child_parent [where key = key and xs = xs and i = i]
  show ?case
  proof (cases "?c < length xs \<and> key (xs ! ?c) < key (xs ! i)")
    case True
    then have c: "?c < length xs" "key (xs ! ?c) < key (xs ! i)" by auto
    have "heap_below key (heap_swap xs i ?c) ?c"
      unfolding heap_below_def
    proof (intro conjI allI impI)
      fix j assume j: "0 < j" "j < length (heap_swap xs i ?c)" "(j - 1) div 2 \<noteq> ?c"
      show "heap_edge key (heap_swap xs i ?c) j"
      proof (cases "(j - 1) div 2 = i")
        case True
        with smaller_child_cases [OF c(1) j(1) _ True] j c sc show ?thesis
          by (auto simp: heap_edge_def nth_heap_swap 1(2))
      next
        case False
        then have "heap_edge key xs j" using 1(3) j by (simp add: heap_below_def)
        moreover have "key (xs ! ((i - 1) div 2)) \<le> key (xs ! ?c)" if "0 < i"
          using 1(3) that c(1) sc by (auto simp: heap_below_def)
        moreover have "j \<noteq> ?c" using False sc by auto
        ultimately show ?thesis
          using False j c sc 1(2) by (auto simp: heap_edge_def nth_heap_swap)
      qed
    next
      fix j assume j: "0 < ?c" "0 < j" "j < length (heap_swap xs i ?c)" "(j - 1) div 2 = ?c"
      have "heap_edge key xs j" using 1(3) j sc by (simp add: heap_below_def)
      moreover have "?c < j" using j by auto
      ultimately show "key (heap_swap xs i ?c ! ((?c - 1) div 2)) \<le> key (heap_swap xs i ?c ! j)"
        using j c sc 1(2) by (auto simp: heap_edge_def nth_heap_swap)
    qed
    moreover have "sift_down key xs i = sift_down key (heap_swap xs i ?c) ?c"
      by (subst sift_down.simps) (simp only: Let_def True if_True simp_thms)
    ultimately show ?thesis using 1(1) [OF refl True] c 1(2) by simp
  next
    case False
    have "heap_edge key xs j" if "0 < j" "j < length xs" "(j - 1) div 2 = i" for j
    proof -
      have "?c < length xs" using that by (auto simp: smaller_child_def)
      with False smaller_child_cases [OF this that] that show ?thesis by (auto simp: heap_edge_def)
    qed
    then have "is_heap key xs" using 1(3) unfolding is_heap_def heap_below_def by blast
    moreover have "sift_down key xs i = xs" by (subst sift_down.simps) (simp only: Let_def False if_False)
    ultimately show ?thesis by simp
  qed
qed

lemma heap_top_least:
  assumes "is_heap key xs" "j < length xs"
  shows "key (xs ! 0) \<le> key (xs ! j)"
  using assms(2)
proof (induction j rule: less_induct)
  case (less j)
  show ?case
  proof (cases "j = 0")
    case False
    then have "heap_edge key xs j" using assms(1) less.prems by (simp add: is_heap_def)
    moreover have "key (xs ! 0) \<le> key (xs ! ((j - 1) div 2))"
      using less.IH [of "(j - 1) div 2"] less.prems False by simp
    ultimately show ?thesis by (simp add: heap_edge_def)
  qed simp
qed

lemma heap_push:
  assumes "is_heap key xs"
  shows "is_heap key (sift_up key (xs @ [x]) (length xs)) \<and>
    mset (sift_up key (xs @ [x]) (length xs)) = add_mset x (mset xs)"
proof -
  have edge: "heap_edge key (xs @ [x]) j" if "0 < j" "j < length xs" for j
  proof -
    have "(j - 1) div 2 < length xs" using that by linarith
    then show ?thesis using assms that by (simp add: is_heap_def heap_edge_def nth_append)
  qed
  moreover have "(j - 1) div 2 \<noteq> length xs" if "0 < j" "j < length (xs @ [x])" for j
    using that by auto
  ultimately have "heap_above key (xs @ [x]) (length xs)"
    by (auto simp: heap_above_def less_Suc_eq)
  with sift_up_ok [of "length xs" "xs @ [x]" key] show ?thesis by simp
qed

lemma heap_pop:
  assumes "is_heap key xs" "1 < length xs"
  shows "is_heap key (sift_down key ((butlast xs)[0 := last xs]) 0) \<and>
    mset (sift_down key ((butlast xs)[0 := last xs]) 0) = mset xs - {#xs ! 0#}"
proof -
  obtain x ys z where xs: "xs = x # ys @ [z]"
    using assms(2) by (cases xs; cases "tl xs" rule: rev_cases) auto
  have edge: "heap_edge key (z # ys) j" if "0 < j" "j < length (z # ys)" "(j - 1) div 2 \<noteq> 0" for j
  proof -
    have "(j - 1) div 2 < j" "0 < (j - 1) div 2" using that by auto
    moreover have "heap_edge key xs j" using assms(1) that xs by (simp add: is_heap_def)
    moreover have "j - 1 < length ys" "(j - 1) div 2 - 1 < length ys" using that by auto
    ultimately show ?thesis using that by (simp add: heap_edge_def xs nth_append nth_Cons')
  qed
  then have "heap_below key (z # ys) 0" by (auto simp: heap_below_def)
  from sift_down_ok [OF _ this] show ?thesis by (simp add: xs butlast_append)
qed

interpretation heap: priority_queue "heap_ops key" key mset "is_heap key" for key :: "'a \<Rightarrow> int"
proof
  fix q :: "'a list" and x
  show "is_heap key (pq_empty (heap_ops key))" "mset (pq_empty (heap_ops key)) = {#}"
    by (simp_all add: heap_ops_def is_heap_def)
  assume ok: "is_heap key q"
  show "pq_size (heap_ops key) q = size (mset q)" by (simp add: heap_ops_def)
  show "is_heap key (pq_push (heap_ops key) x q)"
    "mset (pq_push (heap_ops key) x q) = add_mset x (mset q)"
    using heap_push [OF ok] by (simp_all add: heap_ops_def)
  show "key (pq_top (heap_ops key) q) \<le> key x" if "x \<in># mset q"
    using that heap_top_least [OF ok] by (auto simp: heap_ops_def in_set_conv_nth)
  assume ne: "mset q \<noteq> {#}"
  then show "pq_top (heap_ops key) q \<in># mset q" by (simp add: heap_ops_def)
  show "is_heap key (pq_pop (heap_ops key) q)"
    "mset (pq_pop (heap_ops key) q) = mset q - {#pq_top (heap_ops key) q#}"
    using heap_pop [OF ok] ne
    by (cases q; simp add: heap_ops_def is_heap_def)+
qed

section \<open>Hash maps\<close>

text \<open>A \<open>std::unordered_map\<close> is an association list with distinct keys.  Iterating over it visits
  the entries in some order: a function that rearranges the list.\<close>

fun map_update :: "'k \<Rightarrow> 'v \<Rightarrow> ('k \<times> 'v) list \<Rightarrow> ('k \<times> 'v) list" where
  "map_update k v [] = [(k, v)]"
| "map_update k v ((k', v') # m) = (if k = k' then (k, v) # m else (k', v') # map_update k v m)"

lemma map_of_update [simp]: "map_of (map_update k v m) = (map_of m)(k \<mapsto> v)"
  by (induction m) auto

lemma keys_update [simp]: "fst ` set (map_update k v m) = insert k (fst ` set m)"
  by (induction k v m rule: map_update.induct) (simp_all add: insert_commute)

lemma distinct_update [simp]: "distinct (map fst m) \<Longrightarrow> distinct (map fst (map_update k v m))"
  by (induction m) auto

lemma update_fresh: "k \<notin> set (map fst m) \<Longrightarrow> map_update k v m = m @ [(k, v)]"
  by (induction m) auto

definition iteration_order :: "(('k \<times> 'v) list \<Rightarrow> ('k \<times> 'v) list) \<Rightarrow> bool" where
  "iteration_order ord \<longleftrightarrow> (\<forall>m. mset (ord m) = mset m)"

lemma iteration_order_rev: "iteration_order rev"
  by (simp add: iteration_order_def)

lemma iteration_orderD:
  assumes "iteration_order ord"
  shows "mset (ord m) = mset m" "length (ord m) = length m" "set (ord m) = set m"
    "distinct (map fst (ord m)) \<longleftrightarrow> distinct (map fst m)"
proof -
  show *: "mset (ord m) = mset m" using assms by (simp add: iteration_order_def)
  then show "length (ord m) = length m" "set (ord m) = set m"
    by (metis size_mset, metis set_mset_mset)
  show "distinct (map fst (ord m)) \<longleftrightarrow> distinct (map fst m)"
    using * by (metis mset_eq_imp_distinct_iff mset_map)
qed

end
