(* ===== verification/Huffman.thy ===== *)
theory Huffman
  imports BitStream StdQueue
begin

text \<open>
  The Huffman coder of Machete, \<open>Machete/machete/huffman.cpp\<close>, with the plain codebook (values
  in the order of a depth-first walk) and the canonical one (values by increasing code length).

  The tree of \<open>HufTree\<close> nodes is a datatype; the field \<open>lvl\<close>, which the walks write before they
  read it, travels with the node on the stack.  The priority queue operations \<open>Q\<close> and the
  iteration order \<open>ord\<close> of the frequency map are arguments (theory \<open>StdQueue\<close>).  Fuel appears
  twice: in the merge loop it is the number of free slots of the array \<open>nodes\<close>, in the loop that
  empties a queue it is the size of the queue.
\<close>

section \<open>Building the tree\<close>

datatype huf_tree = HufLeaf (huf_val: int32) int | HufNode int huf_tree huf_tree

fun huf_cnt :: "huf_tree \<Rightarrow> int" where
  "huf_cnt (HufLeaf v c) = c"
| "huf_cnt (HufNode c l r) = c"

definition count_freq :: "int32 list \<Rightarrow> (int32 \<times> nat) list" where
  "count_freq xs =
     foldl (\<lambda>freq x. map_update x (case map_of freq x of None \<Rightarrow> 1 | Some n \<Rightarrow> n + 1) freq) [] xs"

fun merge_nodes :: "(huf_tree, 'q) pq_ops \<Rightarrow> nat \<Rightarrow> 'q \<Rightarrow> huf_tree option" where
  "merge_nodes Q 0 q = (if 1 < pq_size Q q then None else Some (pq_top Q q))"
| "merge_nodes Q (Suc slots) q =
     (if 1 < pq_size Q q
      then
        let n1 = pq_top Q q; q = pq_pop Q q;
            n2 = pq_top Q q; q = pq_pop Q q
        in merge_nodes Q slots (pq_push Q (HufNode (i32 (huf_cnt n1 + huf_cnt n2)) n1 n2) q)
      else Some (pq_top Q q))"

definition huffman_build_tree ::
  "(huf_tree, 'q) pq_ops \<Rightarrow> ((int32 \<times> nat) list \<Rightarrow> (int32 \<times> nat) list) \<Rightarrow> (int32 \<times> nat) list \<Rightarrow>
   huf_tree option" where
  "huffman_build_tree Q ord freq =
     (if freq = [] then None
      else
        let leaves = map (\<lambda>(v, n). HufLeaf v (i32 (int n))) (ord freq);
            q = pq_push_all Q leaves (pq_empty Q)
        in merge_nodes Q (length freq * 2 - 1 - length leaves) q)"

section \<open>Codebooks of the encoder\<close>

record codebook_entry =
  cb_code :: int
  cb_bitlen :: nat

type_synonym codebook = "(int32 \<times> codebook_entry) list"

record book_state =
  bk_code :: int
  bk_bitlen :: nat
  bk_total :: int
  bk_codebook :: codebook
  bk_vals :: "int32 list"

definition book_init :: book_state where
  "book_init = \<lparr>bk_code = 0, bk_bitlen = 0, bk_total = 0, bk_codebook = [], bk_vals = []\<rparr>"

text \<open>Shifts of a 32-bit \<open>int\<close>, undefined from 32 positions on.\<close>

definition shl32 :: "int \<Rightarrow> nat \<Rightarrow> int option" where
  "shl32 x n = (if n < 32 then Some (i32 (x * 2 ^ n)) else None)"

definition shr32 :: "int \<Rightarrow> nat \<Rightarrow> int option" where
  "shr32 x n = (if n < 32 then Some (x div 2 ^ n) else None)"

text \<open>The statements after the shift, the same in both builders.\<close>

definition book_leaf :: "int32 \<Rightarrow> int \<Rightarrow> nat \<Rightarrow> int \<Rightarrow> book_state \<Rightarrow> book_state" where
  "book_leaf v c lvl code b =
     b\<lparr>bk_bitlen := lvl,
       bk_codebook := map_update v \<lparr>cb_code = code, cb_bitlen = lvl\<rparr> (bk_codebook b),
       bk_vals := bk_vals b @ [v],
       bk_code := i32 (code + 1),
       bk_total := bk_total b + i32 (int lvl * c)\<rparr>"

definition book_plain :: "int32 \<Rightarrow> int \<Rightarrow> nat \<Rightarrow> book_state \<Rightarrow> book_state option" where
  "book_plain v c lvl b = do {
     code \<leftarrow> (if lvl < bk_bitlen b then shr32 (bk_code b) (bk_bitlen b - lvl)
              else shl32 (bk_code b) (lvl - bk_bitlen b));
     Some (book_leaf v c lvl code b) }"

fun tree_nodes :: "huf_tree \<Rightarrow> nat" where
  "tree_nodes (HufLeaf v c) = 1"
| "tree_nodes (HufNode c l r) = 1 + tree_nodes l + tree_nodes r"

function encode_walk :: "(huf_tree \<times> nat) list \<Rightarrow> book_state \<Rightarrow> book_state option" where
  "encode_walk [] b = Some b"
| "encode_walk ((HufNode c l r, lvl) # stack) b = encode_walk ((l, lvl + 1) # (r, lvl + 1) # stack) b"
| "encode_walk ((HufLeaf v c, lvl) # stack) b =
     Option.bind (book_plain v c lvl b) (encode_walk stack)"
  by pat_completeness auto
termination
  by (relation "measure (\<lambda>(stack, _). sum_list (map (\<lambda>(t, _). tree_nodes t) stack))") auto

definition huffman_build_encode_codebook :: "huf_tree \<Rightarrow> book_state option" where
  "huffman_build_encode_codebook root = encode_walk [(root, 0)] book_init"

text \<open>The canonical builder: the walk pushes the leaves into a queue ordered by level.\<close>

type_synonym leaf = "int32 \<times> int \<times> nat"

fun leaf_lvl :: "leaf \<Rightarrow> int" where
  "leaf_lvl (v, c, lvl) = int lvl"

function queue_walk ::
  "(leaf, 'q) pq_ops \<Rightarrow> (huf_tree \<times> nat) list \<Rightarrow> 'q \<Rightarrow> 'q" where
  "queue_walk Q [] q = q"
| "queue_walk Q ((HufNode c l r, lvl) # stack) q = queue_walk Q ((l, lvl + 1) # (r, lvl + 1) # stack) q"
| "queue_walk Q ((HufLeaf v c, lvl) # stack) q = queue_walk Q stack (pq_push Q (v, c, lvl) q)"
  by pat_completeness auto
termination
  by (relation "measure (\<lambda>(_, stack, _). sum_list (map (\<lambda>(t, _). tree_nodes t) stack))") auto

definition book_canonical :: "leaf \<Rightarrow> book_state \<Rightarrow> book_state option" where
  "book_canonical n b =
     (case n of (v, c, lvl) \<Rightarrow>
        if lvl < bk_bitlen b then None
        else do {
          code \<leftarrow> shl32 (bk_code b) (lvl - bk_bitlen b);
          Some (book_leaf v c lvl code b) })"

fun canonical_loop :: "(leaf, 'q) pq_ops \<Rightarrow> nat \<Rightarrow> 'q \<Rightarrow> book_state \<Rightarrow> book_state option" where
  "canonical_loop Q 0 q b = (if pq_size Q q = 0 then Some b else None)"
| "canonical_loop Q (Suc fuel) q b =
     (if pq_size Q q = 0 then Some b
      else Option.bind (book_canonical (pq_top Q q) b) (canonical_loop Q fuel (pq_pop Q q)))"

definition huffman_build_canonical_encode_codebook ::
  "(leaf, 'q) pq_ops \<Rightarrow> huf_tree \<Rightarrow> book_state option" where
  "huffman_build_canonical_encode_codebook Q root =
     (let q = queue_walk Q [(root, 0)] (pq_empty Q)
      in canonical_loop Q (pq_size Q q) q book_init)"

section \<open>Storing codebook and codes\<close>

text \<open>\<open>codebook[x]\<close>: an absent key is inserted with a zero entry.\<close>

definition cb_get :: "codebook \<Rightarrow> int32 \<Rightarrow> codebook_entry" where
  "cb_get cb x = (case map_of cb x of None \<Rightarrow> \<lparr>cb_code = 0, cb_bitlen = 0\<rparr> | Some e \<Rightarrow> e)"

definition huffman_store_codebook :: "codebook \<Rightarrow> int32 list \<Rightarrow> u8 list" where
  "huffman_store_codebook cb vals =
     array_bytes 4 vals @ array_bytes 2 (map (\<lambda>v. of_nat (cb_bitlen (cb_get cb v)) :: u16) vals)"

text \<open>The inner loop that opens counters until the length is reached.  \<open>bl\<close> starts below every
  length; a length that \<open>bl\<close> has already passed would keep the loop running beyond the array.\<close>

function open_counters :: "nat \<Rightarrow> int \<Rightarrow> u16 list \<Rightarrow> (int \<times> u16 list) option" where
  "open_counters bitlen bl cnts =
     (if bl = int bitlen then Some (bl, cnts)
      else if int bitlen < bl then None
      else open_counters bitlen (bl + 1) (cnts @ [0]))"
  by pat_completeness auto
termination by (relation "measure (\<lambda>(bitlen, bl, _). nat (int bitlen - bl))") auto

declare open_counters.simps [simp del]

fun count_lengths :: "nat list \<Rightarrow> int \<Rightarrow> u16 list \<Rightarrow> u16 list option" where
  "count_lengths [] bl cnts = Some cnts"
| "count_lengths (bitlen # ls) bl cnts = do {
     (bl, cnts) \<leftarrow> open_counters bitlen bl cnts;
     (if cnts = [] then None
      else count_lengths ls bl (cnts[length cnts - 1 := last cnts + 1])) }"

definition huffman_store_canonical_codebook :: "codebook \<Rightarrow> int32 list \<Rightarrow> u8 list option" where
  "huffman_store_canonical_codebook cb vals =
     (if vals = [] then None
      else do {
        let lens = map (\<lambda>v. cb_bitlen (cb_get cb v)) vals;
        let first = (of_nat (lens ! 0) :: u16);
        let final = (of_nat (lens ! (length vals - 1)) :: u16);
        cnts \<leftarrow> count_lengths lens (int (unat first) - 1) [];
        Some (array_bytes 4 vals @ array_bytes 2 (first # final # cnts)) })"

fun write_codes :: "bit_writer \<Rightarrow> codebook \<Rightarrow> int32 list \<Rightarrow> bit_writer option" where
  "write_codes w cb [] = Some w"
| "write_codes w cb (x # xs) = do {
     w \<leftarrow> bit_write w (of_int (cb_code (cb_get cb x))) (cb_bitlen (cb_get cb x));
     write_codes w cb xs }"

definition huffman_store_code :: "codebook \<Rightarrow> int32 list \<Rightarrow> u32 list \<Rightarrow> nat \<Rightarrow> u32 list option" where
  "huffman_store_code cb xs out osize =
     (if 1 < length cb
      then do {
        w \<leftarrow> initBitWriter out (osize div 4);
        w \<leftarrow> write_codes w cb xs;
        (w, k) \<leftarrow> flush w;
        Some (w_output w) }
      else Some out)"

definition huffman_encode ::
  "(huf_tree, 'q) pq_ops \<Rightarrow> ((int32 \<times> nat) list \<Rightarrow> (int32 \<times> nat) list) \<Rightarrow> int32 list \<Rightarrow>
   u8 list option" where
  "huffman_encode Q ord xs = do {
     let freq = count_freq xs;
     root \<leftarrow> huffman_build_tree Q ord freq;
     b \<leftarrow> huffman_build_encode_codebook root;
     let code_size = nat ((bk_total b + 31) div 32 * 4);
     codes \<leftarrow> huffman_store_code (bk_codebook b) xs (replicate (code_size div 4) 0) code_size;
     Some (le_bytes 4 (of_nat (length xs) :: u32) @ le_bytes 4 (of_nat (length freq) :: u32) @
           le_bytes 4 (of_nat code_size :: u32) @
           huffman_store_codebook (bk_codebook b) (bk_vals b) @ words_bytes codes) }"

definition huffman_encode_canonical ::
  "(huf_tree, 'q) pq_ops \<Rightarrow> (leaf, 'p) pq_ops \<Rightarrow> ((int32 \<times> nat) list \<Rightarrow> (int32 \<times> nat) list) \<Rightarrow>
   int32 list \<Rightarrow> u8 list option" where
  "huffman_encode_canonical Q P ord xs = do {
     let freq = count_freq xs;
     root \<leftarrow> huffman_build_tree Q ord freq;
     b \<leftarrow> huffman_build_canonical_encode_codebook P root;
     let code_size = nat ((bk_total b + 31) div 32 * 4);
     book \<leftarrow> huffman_store_canonical_codebook (bk_codebook b) (bk_vals b);
     codes \<leftarrow> huffman_store_code (bk_codebook b) xs (replicate (code_size div 4) 0) code_size;
     Some (le_bytes 4 (of_nat (length xs) :: u32) @ le_bytes 4 (of_nat (length freq) :: u32) @
           le_bytes 4 (of_nat code_size :: u32) @ book @ words_bytes codes) }"

section \<open>Decoding\<close>

record decode_book_entry =
  db_val :: int32
  db_bitlen :: int

text \<open>One value fills \<open>1UL << (max_bitlen - bitlen)\<close> consecutive entries; running over the end of
  the table fails.\<close>

definition fill_value ::
  "nat \<Rightarrow> int \<Rightarrow> int32 \<Rightarrow> int \<Rightarrow> decode_book_entry list \<Rightarrow> decode_book_entry list option" where
  "fill_value cap max_bitlen v bitlen table =
     (if max_bitlen < bitlen \<or> 64 \<le> max_bitlen - bitlen then None
      else
        let times = 2 ^ nat (max_bitlen - bitlen) :: nat
        in if length table + times \<le> cap
           then Some (table @ replicate times \<lparr>db_val = v, db_bitlen = bitlen\<rparr>) else None)"

fun fill_table ::
  "nat \<Rightarrow> int \<Rightarrow> (int32 \<times> int) list \<Rightarrow> decode_book_entry list \<Rightarrow> decode_book_entry list option" where
  "fill_table cap max_bitlen [] table = Some table"
| "fill_table cap max_bitlen ((v, bitlen) # es) table =
     Option.bind (fill_value cap max_bitlen v bitlen table) (fill_table cap max_bitlen es)"

text \<open>\<open>1 << max_bitlen\<close> is a positive \<open>int\<close> up to 30.\<close>

definition huffman_build_decode_codebook ::
  "int32 list \<Rightarrow> u16 list \<Rightarrow> (decode_book_entry list \<times> nat) option" where
  "huffman_build_decode_codebook vals bitlens =
     (let max_bitlen = foldl (\<lambda>m b. if sint b < m then m else sint b) 0 bitlens
      in if 30 < max_bitlen then None
         else do {
           table \<leftarrow> fill_table (2 ^ nat max_bitlen) max_bitlen (zip vals (map sint bitlens)) [];
           Some (table, nat max_bitlen) })"

text \<open>The canonical builder walks along the counters and decrements them in the input buffer;
  their final contents are returned.\<close>

function skip_zeros :: "u16 list \<Rightarrow> nat \<Rightarrow> int \<Rightarrow> (nat \<times> int) option" where
  "skip_zeros cnts i bitlen =
     (if length cnts \<le> i then None
      else if cnts ! i = 0 then skip_zeros cnts (i + 1) (bitlen + 1)
      else Some (i, bitlen))"
  by pat_completeness auto
termination by (relation "measure (\<lambda>(cnts, i, _). length cnts - i)") auto

declare skip_zeros.simps [simp del]

fun fill_canonical ::
  "nat \<Rightarrow> int \<Rightarrow> int32 list \<Rightarrow> u16 list \<Rightarrow> nat \<Rightarrow> int \<Rightarrow> decode_book_entry list \<Rightarrow>
   (decode_book_entry list \<times> u16 list) option" where
  "fill_canonical cap max_bitlen [] cnts i bitlen table = Some (table, cnts)"
| "fill_canonical cap max_bitlen (v # vs) cnts i bitlen table = do {
     (i, bitlen) \<leftarrow> skip_zeros cnts i bitlen;
     let cnts = cnts[i := cnts ! i - 1];
     table \<leftarrow> fill_value cap max_bitlen v bitlen table;
     fill_canonical cap max_bitlen vs cnts i bitlen table }"

definition huffman_build_decode_codebook_canonical ::
  "int32 list \<Rightarrow> u16 list \<Rightarrow> (decode_book_entry list \<times> nat \<times> u16 list) option" where
  "huffman_build_decode_codebook_canonical vals bitlens =
     (if length bitlens < 2 then None
      else
        let max_bitlen = sint (bitlens ! 1)
        in if max_bitlen < 0 \<or> 30 < max_bitlen then None
           else do {
             (table, cnts) \<leftarrow> fill_canonical (2 ^ nat max_bitlen) max_bitlen vals bitlens 2
               (sint (bitlens ! 0)) [];
             Some (table, nat max_bitlen, cnts) })"

fun decode_codes :: "nat \<Rightarrow> bit_reader \<Rightarrow> decode_book_entry list \<Rightarrow> nat \<Rightarrow> int32 list option" where
  "decode_codes 0 r table index_bitlen = Some []"
| "decode_codes (Suc n) r table index_bitlen = do {
     code \<leftarrow> peek r index_bitlen;
     (if unat code < length table
      then do {
        let entry = table ! unat code;
        r \<leftarrow> forward r (nat (db_bitlen entry));
        xs \<leftarrow> decode_codes n r table index_bitlen;
        Some (db_val entry # xs) }
      else None) }"

definition huffman_decode_data ::
  "u8 list \<Rightarrow> nat \<Rightarrow> decode_book_entry list \<Rightarrow> nat \<Rightarrow> nat \<Rightarrow> int32 list option" where
  "huffman_decode_data inp code_size table index_bitlen olen =
     (if index_bitlen \<noteq> 0
      then do {
        r \<leftarrow> initBitReader (bytes_words inp) (code_size div 4);
        decode_codes olen r table index_bitlen }
      else if table = [] then None
      else Some (replicate olen (db_val (table ! 0))))"

definition huffman_decode :: "u8 list \<Rightarrow> int32 list option" where
  "huffman_decode inp = do {
     (hdr, payload) \<leftarrow> read_array 4 3 inp;
     let data_len = unat (hdr ! 0 :: u32);
     let val_cnt = unat (hdr ! 1);
     let code_size = unat (hdr ! 2);
     (vals, rest) \<leftarrow> read_array 4 val_cnt payload;
     (bitlens, code) \<leftarrow> read_array 2 val_cnt rest;
     (table, index_bitlen) \<leftarrow> huffman_build_decode_codebook vals bitlens;
     huffman_decode_data code code_size table index_bitlen data_len }"

text \<open>The counters sit between the values and the codes; their number follows from the two lengths
  before them.  The second component of the result is what the call leaves in the input buffer.\<close>

definition huffman_decode_canonical :: "u8 list \<Rightarrow> (int32 list \<times> u8 list) option" where
  "huffman_decode_canonical inp = do {
     (hdr, payload) \<leftarrow> read_array 4 3 inp;
     let data_len = unat (hdr ! 0 :: u32);
     let val_cnt = unat (hdr ! 1);
     let code_size = unat (hdr ! 2);
     (vals, rest) \<leftarrow> read_array 4 val_cnt payload;
     (ends, _) \<leftarrow> read_array 2 2 rest;
     (bitlens, code) \<leftarrow> read_array 2 (nat (sint (ends ! 1 :: u16) - sint (ends ! 0) + 3)) rest;
     (table, index_bitlen, cnts) \<leftarrow> huffman_build_decode_codebook_canonical vals bitlens;
     xs \<leftarrow> huffman_decode_data code code_size table index_bitlen data_len;
     Some (xs, array_bytes 4 hdr @ array_bytes 4 vals @ array_bytes 2 cnts @ code) }"

end
