(* ===== verification/Huffman_Tree.thy ===== *)
theory Huffman_Tree
  imports Huffman
begin

text \<open>
  The trees that \<open>huffman_build_tree\<close> returns, for any queue that keeps the contract of a
  priority queue: their leaves are the entries of the frequency map, every inner node carries
  the sum of its leaves, and a node at depth \<open>d\<close> forces a total count of at least the Fibonacci
  number \<open>fib (d + 2)\<close>, which bounds the length of the codes.
\<close>

section \<open>Frequencies\<close>

lemma count_freq_snoc:
  "count_freq (xs @ [x]) =
     map_update x (case map_of (count_freq xs) x of None \<Rightarrow> 1 | Some n \<Rightarrow> n + 1) (count_freq xs)"
  by (simp add: count_freq_def)

lemma count_freq_map:
  "map_of (count_freq xs) v = (if v \<in> set xs then Some (count_list xs v) else None)"
  by (induction xs rule: rev_induct)
     (auto simp: count_freq_snoc count_list_append count_list_0_iff count_freq_def)

lemma count_freq_distinct: "distinct (map fst (count_freq xs))"
  by (induction xs rule: rev_induct) (simp_all add: count_freq_snoc, simp add: count_freq_def)

lemma count_freq_set: "set (count_freq xs) = (\<lambda>v. (v, count_list xs v)) ` set xs"
proof -
  have "(v, n) \<in> set (count_freq xs) \<longleftrightarrow> v \<in> set xs \<and> n = count_list xs v" for v n
    using map_of_eq_Some_iff [OF count_freq_distinct, of xs v n]
    by (auto simp: count_freq_map split: if_splits)
  then show ?thesis by auto
qed

lemma count_freq_keys: "fst ` set (count_freq xs) = set xs"
  by (force simp: count_freq_set)

lemma count_freq_Nil [simp]: "count_freq xs = [] \<longleftrightarrow> xs = []"
proof -
  have "set (count_freq xs) = {} \<longleftrightarrow> set xs = {}" by (simp add: count_freq_set)
  then show ?thesis by simp
qed

lemma length_count_freq: "length (count_freq xs) = card (set xs)"
  using count_freq_distinct [of xs] count_freq_keys [of xs] by (metis distinct_card length_map list.set_map)

lemma sum_update:
  "map_of m k = None \<Longrightarrow> sum_list (map snd (map_update k (Suc 0) m)) = Suc (sum_list (map snd m))"
  "map_of m k = Some n \<Longrightarrow> sum_list (map snd (map_update k (Suc n) m)) = Suc (sum_list (map snd m))"
  by (induction m) (auto split: if_splits)

lemma count_freq_sum: "sum_list (map snd (count_freq xs)) = length xs"
proof (induction xs rule: rev_induct)
  case Nil
  then show ?case by (simp add: count_freq_def)
next
  case (snoc x xs)
  then show ?case
    by (cases "map_of (count_freq xs) x") (simp_all add: count_freq_snoc sum_update)
qed

section \<open>Shape of the trees\<close>

fun tree_leaves :: "huf_tree \<Rightarrow> (int32 \<times> int) list" where
  "tree_leaves (HufLeaf v c) = [(v, c)]"
| "tree_leaves (HufNode c l r) = tree_leaves l @ tree_leaves r"

fun tree_height :: "huf_tree \<Rightarrow> nat" where
  "tree_height (HufLeaf v c) = 0"
| "tree_height (HufNode c l r) = Suc (max (tree_height l) (tree_height r))"

text \<open>No child of \<open>t\<close> weighs more than \<open>w\<close>.\<close>

fun children_le :: "huf_tree \<Rightarrow> int \<Rightarrow> bool" where
  "children_le (HufLeaf v c) w = True"
| "children_le (HufNode c l r) w \<longleftrightarrow> huf_cnt l \<le> w \<and> huf_cnt r \<le> w"

fun huf_ok :: "huf_tree \<Rightarrow> bool" where
  "huf_ok (HufLeaf v c) \<longleftrightarrow> 1 \<le> c"
| "huf_ok (HufNode c l r) \<longleftrightarrow>
     c = huf_cnt l + huf_cnt r \<and> huf_ok l \<and> huf_ok r \<and>
     children_le l (huf_cnt r) \<and> children_le r (huf_cnt l)"

fun fib :: "nat \<Rightarrow> nat" where
  "fib 0 = 0"
| "fib (Suc 0) = 1"
| "fib (Suc (Suc n)) = fib n + fib (Suc n)"

lemma fib_mono_Suc: "fib n \<le> fib (Suc n)"
  by (induction n rule: fib.induct) auto

lemma fib_mono: "m \<le> n \<Longrightarrow> fib m \<le> fib n"
  by (rule lift_Suc_mono_le [of fib, OF fib_mono_Suc])

lemma huf_ok_pos: "huf_ok t \<Longrightarrow> 1 \<le> huf_cnt t"
  by (induction t) auto

lemma sibling_fib:
  assumes "int (fib (tree_height s + 2)) \<le> huf_cnt s" "huf_ok u" "children_le s (huf_cnt u)"
    "\<And>c a b. s = HufNode c a b \<Longrightarrow>
       int (fib (tree_height a + 2)) \<le> huf_cnt a \<and> int (fib (tree_height b + 2)) \<le> huf_cnt b"
  shows "int (fib (Suc (tree_height s) + 2)) \<le> huf_cnt s + huf_cnt u"
proof -
  have "int (fib (Suc (tree_height s))) \<le> huf_cnt u"
  proof (cases s)
    case (HufLeaf v c)
    then show ?thesis using huf_ok_pos [OF assms(2)] by simp
  next
    case (HufNode c a b)
    with assms(3,4) have "int (fib (tree_height a + 2)) \<le> huf_cnt u"
      "int (fib (tree_height b + 2)) \<le> huf_cnt u"
      by fastforce+
    then show ?thesis by (simp add: HufNode max_def)
  qed
  then show ?thesis using assms(1) by simp
qed

lemma huf_ok_fib: "huf_ok t \<Longrightarrow> int (fib (tree_height t + 2)) \<le> huf_cnt t"
proof (induction t rule: measure_induct_rule [of tree_nodes])
  case (less t)
  show ?case
  proof (cases t)
    case (HufLeaf v c)
    with less.prems show ?thesis by (simp add: numeral_2_eq_2)
  next
    case (HufNode c l r)
    have kids: "int (fib (tree_height a + 2)) \<le> huf_cnt a \<and> int (fib (tree_height b + 2)) \<le> huf_cnt b"
      if "s = l \<or> s = r" "s = HufNode d a b" for s d a b
      using that less HufNode by auto
    have "int (fib (tree_height l + 2)) \<le> huf_cnt l" "int (fib (tree_height r + 2)) \<le> huf_cnt r"
      using less HufNode by auto
    moreover have "huf_ok l" "huf_ok r" "children_le l (huf_cnt r)" "children_le r (huf_cnt l)"
      using less.prems HufNode by simp_all
    ultimately have "int (fib (Suc (tree_height l) + 2)) \<le> huf_cnt l + huf_cnt r"
      "int (fib (Suc (tree_height r) + 2)) \<le> huf_cnt r + huf_cnt l"
      using kids by (blast intro!: sibling_fib)+
    then show ?thesis using less.prems by (simp add: HufNode max_def)
  qed
qed

fun fib_from :: "nat \<Rightarrow> int \<Rightarrow> int \<Rightarrow> int" where
  "fib_from 0 a b = a"
| "fib_from (Suc n) a b = fib_from n b (a + b)"

lemma fib_from_fib: "fib_from n (int (fib k)) (int (fib (Suc k))) = int (fib (n + k))"
proof (induction n arbitrary: k)
  case (Suc n)
  show ?case using Suc.IH [of "Suc k"] by simp
qed simp

lemma fib_from_numeral: "fib_from (numeral n) a b = fib_from (pred_numeral n) b (a + b)"
  by (simp add: numeral_eq_Suc)

lemma fib_32: "int (fib 32) = 2178309"
proof -
  have "int (fib 32) = fib_from 32 0 1"
    using fib_from_fib [of 32 0, symmetric]
    by (simp only: add_0_right fib.simps(1,2)) (simp only: of_nat_0 of_nat_1 of_nat_simps)
  also have "\<dots> = 2178309" by (simp add: fib_from_numeral)
  finally show ?thesis .
qed

text \<open>Fewer than \<open>2 ^ 21\<close> values give codes of at most 29 bits.\<close>

lemma huf_ok_height:
  assumes "huf_ok t" "huf_cnt t < 2 ^ 21"
  shows "tree_height t \<le> 29"
proof (rule ccontr)
  assume "\<not> tree_height t \<le> 29"
  then have "fib 32 \<le> fib (tree_height t + 2)" by (intro fib_mono) simp
  then have "int (fib 32) \<le> int (fib (tree_height t + 2))" by (simp only: of_nat_le_iff)
  then have "int (fib 32) \<le> huf_cnt t" using huf_ok_fib [OF assms(1)] by (rule order_trans)
  then show False using assms(2) unfolding fib_32 by simp
qed

section \<open>The merge loop\<close>

definition forest_ok :: "huf_tree multiset \<Rightarrow> bool" where
  "forest_ok M \<longleftrightarrow> (\<forall>t \<in># M. huf_ok t) \<and> (\<forall>t \<in># M. \<forall>u \<in># M. children_le u (huf_cnt t)) \<and>
     (\<Sum>t \<in># M. huf_cnt t) < 2 ^ 31"

definition forest_leaves :: "huf_tree multiset \<Rightarrow> (int32 \<times> int) multiset" where
  "forest_leaves M = (\<Sum>t \<in># M. mset (tree_leaves t))"

lemma forest_sum_nonneg: "\<forall>t \<in># M. huf_ok t \<Longrightarrow> 0 \<le> (\<Sum>t \<in># M. huf_cnt t)"
  by (induction M) (auto dest: huf_ok_pos)

lemma singleton_mset: "M \<noteq> {#} \<Longrightarrow> \<not> 1 < size M \<Longrightarrow> \<exists>t. M = {#t#}"
  by (cases M) auto

lemma children_le_mono: "children_le t v \<Longrightarrow> v \<le> w \<Longrightarrow> children_le t w"
  by (cases t) auto

lemma forest_merge:
  assumes ok: "forest_ok (add_mset n1 (add_mset n2 M))"
    and least: "\<And>t. t \<in># M \<Longrightarrow> huf_cnt n1 \<le> huf_cnt t \<and> huf_cnt n2 \<le> huf_cnt t"
  defines "n \<equiv> HufNode (i32 (huf_cnt n1 + huf_cnt n2)) n1 n2"
  shows "forest_ok (add_mset n M)"
    and "forest_leaves (add_mset n M) = forest_leaves (add_mset n1 (add_mset n2 M))"
    and "(\<Sum>t \<in># add_mset n M. huf_cnt t) = (\<Sum>t \<in># add_mset n1 (add_mset n2 M). huf_cnt t)"
proof -
  have pos: "1 \<le> huf_cnt n1" "1 \<le> huf_cnt n2" "0 \<le> (\<Sum>t \<in># M. huf_cnt t)"
    using ok by (auto simp: forest_ok_def intro: huf_ok_pos forest_sum_nonneg)
  then have n: "n = HufNode (huf_cnt n1 + huf_cnt n2) n1 n2"
    using ok by (simp add: n_def forest_ok_def)
  show sum: "(\<Sum>t \<in># add_mset n M. huf_cnt t) = (\<Sum>t \<in># add_mset n1 (add_mset n2 M). huf_cnt t)"
    by (simp add: n)
  show "forest_leaves (add_mset n M) = forest_leaves (add_mset n1 (add_mset n2 M))"
    by (simp add: forest_leaves_def n)
  have "huf_ok n" using ok by (auto simp: forest_ok_def n)
  moreover have "children_le u (huf_cnt n)" if "u \<in># M" for u
  proof -
    have "children_le u (huf_cnt n1)" using ok that by (auto simp: forest_ok_def)
    then show ?thesis by (rule children_le_mono) (use pos in \<open>simp add: n\<close>)
  qed
  moreover have "children_le n (huf_cnt t)" if "t \<in># M" for t using least [OF that] by (simp add: n)
  moreover have "children_le n (huf_cnt n)" using pos by (simp add: n)
  ultimately show "forest_ok (add_mset n M)"
    using ok sum by (auto simp: forest_ok_def)
qed

locale huffman_queue = priority_queue Q huf_cnt elems ok
  for Q :: "(huf_tree, 'q) pq_ops" and elems :: "'q \<Rightarrow> huf_tree multiset" and ok :: "'q \<Rightarrow> bool"
begin

lemma merge_nodes_ok:
  assumes "ok q" "forest_ok (elems q)" "elems q \<noteq> {#}" "size (elems q) \<le> Suc slots"
  shows "\<exists>t. merge_nodes Q slots q = Some t \<and> huf_ok t \<and> mset (tree_leaves t) = forest_leaves (elems q) \<and>
           huf_cnt t = (\<Sum>t \<in># elems q. huf_cnt t)"
  using assms
proof (induction slots arbitrary: q)
  case 0
  then obtain t where t: "elems q = {#t#}" using singleton_mset by (metis One_nat_def not_less)
  then have "pq_top Q q = t" using top_elem [OF 0(1)] by simp
  then show ?case using 0 t by (simp add: size_elems forest_ok_def forest_leaves_def)
next
  case (Suc slots)
  show ?case
  proof (cases "1 < size (elems q)")
    case False
    then obtain t where t: "elems q = {#t#}" using singleton_mset [OF Suc.prems(3)] by blast
    then have "pq_top Q q = t" using top_elem [OF Suc.prems(1)] by simp
    then show ?thesis using Suc.prems t by (simp add: size_elems forest_ok_def forest_leaves_def)
  next
    case True
    let ?n1 = "pq_top Q q" and ?q1 = "pq_pop Q q"
    let ?n2 = "pq_top Q ?q1" and ?q2 = "pq_pop Q ?q1"
    let ?n = "HufNode (i32 (huf_cnt ?n1 + huf_cnt ?n2)) ?n1 ?n2"
    note q1 = pop_ok [OF Suc.prems(1,3)] and e1 = elems_split [OF Suc.prems(1,3)]
    have ne1: "elems ?q1 \<noteq> {#}" using True e1 by (metis One_nat_def less_irrefl size_single)
    note q2 = pop_ok [OF q1 ne1] and e2 = elems_split [OF q1 ne1]
    have split: "elems q = add_mset ?n1 (add_mset ?n2 (elems ?q2))" using e1 e2 by simp
    have least: "huf_cnt ?n1 \<le> huf_cnt t \<and> huf_cnt ?n2 \<le> huf_cnt t" if "t \<in># elems ?q2" for t
      using that top_least [OF Suc.prems(1), of t] top_least [OF q1, of t] split e2 by auto
    note merge = forest_merge [OF Suc.prems(2) [unfolded split] least]
    have e: "elems (pq_push Q ?n ?q2) = add_mset ?n (elems ?q2)" by (rule push_elems [OF q2])
    have "size (elems (pq_push Q ?n ?q2)) \<le> Suc slots" using Suc.prems(4) split by (simp add: e)
    with Suc.IH [OF push_ok [OF q2], of ?n] merge True Suc.prems(1) show ?thesis
      by (simp add: e size_elems Let_def flip: split)
  qed
qed

lemma huffman_build_tree_ok:
  assumes "iteration_order ord" "distinct (map fst freq)" "freq \<noteq> []"
    "\<forall>(v, n) \<in> set freq. 1 \<le> n" "sum_list (map snd freq) < 2 ^ 31"
  shows "\<exists>t. huffman_build_tree Q ord freq = Some t \<and> huf_ok t \<and>
    mset (tree_leaves t) = mset (map (\<lambda>(v, n). (v, int n)) freq) \<and>
    huf_cnt t = int (sum_list (map snd freq))"
proof -
  let ?ls = "map (\<lambda>(v, n). HufLeaf v (i32 (int n))) (ord freq)"
  let ?q = "pq_push_all Q ?ls (pq_empty Q)"
  note ord = iteration_orderD [OF assms(1), of freq]
  have bound: "n < 2 ^ 31" if "(v, n) \<in> set freq" for v n
    using member_le_sum_list [of n "map snd freq"] that assms(5) by force
  have id: "i32 (int n) = int n" if "(v, n) \<in> set freq" for v n
    using bound [OF that] by simp
  have q: "ok ?q" "elems ?q = mset ?ls" using push_all [OF empty_ok(1), of ?ls] empty_ok(2) by auto
  have cnt: "(\<Sum>t \<in># mset ?ls. huf_cnt t) = int (sum_list (map snd freq))"
  proof -
    have "(\<Sum>t \<in># mset ?ls. huf_cnt t) = (\<Sum>(v, n) \<in># mset (ord freq). i32 (int n))"
      by (simp add: image_mset.compositionality comp_def case_prod_unfold)
    also have "\<dots> = (\<Sum>(v, n) \<in># mset freq. int n)"
      unfolding ord(1) by (rule arg_cong [where f = sum_mset], rule image_mset_cong) (use id in auto)
    also have "\<dots> = int (sum_list (map snd freq))"
      by (induction freq) auto
    finally show ?thesis .
  qed
  have leaves: "forest_leaves (mset ?ls) = mset (map (\<lambda>(v, n). (v, int n)) freq)"
  proof -
    have "forest_leaves (mset ?ls) = image_mset (\<lambda>(v, n). (v, i32 (int n))) (mset (ord freq))"
      by (simp add: forest_leaves_def image_mset.compositionality comp_def case_prod_unfold)
    also have "\<dots> = image_mset (\<lambda>(v, n). (v, int n)) (mset freq)"
      unfolding ord(1) by (rule image_mset_cong) (use id in auto)
    finally show ?thesis by simp
  qed
  have "forest_ok (mset ?ls)"
    using assms(4,5) cnt id ord(3) by (fastforce simp: forest_ok_def)
  moreover have "elems ?q \<noteq> {#}" using q assms(3) ord(2) by auto
  moreover have "size (elems ?q) \<le> Suc (length freq * 2 - 1 - length ?ls)" using q ord(2) by simp
  ultimately show ?thesis
    using merge_nodes_ok [OF q(1)] cnt leaves assms(3) q(2)
    by (simp add: huffman_build_tree_def Let_def)
qed

end

interpretation huf_heap: huffman_queue "heap_ops huf_cnt" mset "is_heap huf_cnt" ..

text \<open>The tree of an input: its leaves are the values that occur, with their counts.\<close>

lemma build_tree_freq:
  assumes "priority_queue Q huf_cnt elems ok" "iteration_order ord" "xs \<noteq> []" "length xs < 2 ^ 21"
    "mset freq = mset (count_freq xs)"
  obtains t where "huffman_build_tree Q ord freq = Some t" "huf_ok t" "tree_height t \<le> 29"
    "mset (tree_leaves t) = mset (map (\<lambda>(v, n). (v, int n)) (count_freq xs))"
proof -
  have hq: "huffman_queue Q elems ok" using assms(1) by (simp add: huffman_queue_def)
  have m: "mset (map f freq) = mset (map f (count_freq xs))" for f :: "int32 \<times> nat \<Rightarrow> 'z"
    using assms(5) by simp
  have pos: "\<forall>(v, n) \<in> set freq. 1 \<le> n"
    by (auto simp: mset_eq_setD [OF assms(5)] count_freq_set Suc_le_eq count_list_0_iff intro: Nat.gr0I)
  have dist: "distinct (map fst freq)"
    using mset_eq_imp_distinct_iff [OF m] count_freq_distinct by blast
  have sum: "sum_list (map snd freq) = length xs"
    using m [of snd] count_freq_sum [of xs] by (metis sum_mset_sum_list)
  have "freq \<noteq> []" using assms(3,5) by auto
  then obtain t where "huffman_build_tree Q ord freq = Some t" "huf_ok t"
    "mset (tree_leaves t) = mset (map (\<lambda>(v, n). (v, int n)) freq)" "huf_cnt t = int (length xs)"
    using huffman_queue.huffman_build_tree_ok [OF hq assms(2) dist _ pos] assms(4) sum by auto
  then show thesis using that huf_ok_height [of t] assms(4) m [of "\<lambda>(v, n). (v, int n)"] by simp
qed

lemmas build_tree_input = build_tree_freq [OF _ _ _ _ refl]

end
