(* ===== verification/Huffman_Codes.thy ===== *)
theory Huffman_Codes
  imports Huffman_Tree
begin

text \<open>
  The codes of both codebooks and the decode tables.  A list of leaves with levels is laid out
  on \<open>2 ^ M\<close> slots, a leaf of level \<open>l\<close> taking \<open>2 ^ (M - l)\<close> of them; when every leaf starts at
  a multiple of its own size, its code is its start divided by its size, and the decode table is
  the list of slots.  Depth-first order and increasing level both give such layouts.
\<close>

section \<open>Leaves with their levels\<close>

fun level_leaves :: "huf_tree \<Rightarrow> nat \<Rightarrow> leaf list" where
  "level_leaves (HufLeaf v c) l = [(v, c, l)]"
| "level_leaves (HufNode c t u) l = level_leaves t (l + 1) @ level_leaves u (l + 1)"

definition stack_leaves :: "(huf_tree \<times> nat) list \<Rightarrow> leaf list" where
  "stack_leaves stack = concat (map (\<lambda>(t, l). level_leaves t l) stack)"

fun book_list :: "leaf list \<Rightarrow> book_state \<Rightarrow> book_state option" where
  "book_list [] b = Some b"
| "book_list ((v, c, l) # ls) b = Option.bind (book_plain v c l b) (book_list ls)"

lemma encode_walk_leaves: "encode_walk stack b = book_list (stack_leaves stack) b"
  by (induction stack b rule: encode_walk.induct)
     (auto simp: stack_leaves_def split: Option.bind_split)

lemma queue_walk_leaves: "queue_walk Q stack q = pq_push_all Q (stack_leaves stack) q"
  by (induction Q stack q rule: queue_walk.induct)
     (simp_all add: stack_leaves_def pq_push_all_def)

lemma level_leaves_map: "map (\<lambda>(v, c, l). (v, c)) (level_leaves t l) = tree_leaves t"
  by (induction t l rule: level_leaves.induct) simp_all

lemma level_leaves_bounds:
  "(v, c, k) \<in> set (level_leaves t l) \<Longrightarrow> l \<le> k \<and> k \<le> l + tree_height t"
  by (induction t l rule: level_leaves.induct) fastforce+

lemma level_leaves_deepest: "\<exists>v c. (v, c, l + tree_height t) \<in> set (level_leaves t l)"
proof (induction t arbitrary: l)
  case (HufNode c t u)
  then show ?case
    using HufNode.IH(1) [of "Suc l"] HufNode.IH(2) [of "Suc l"] by (auto simp: max_def)
qed simp

section \<open>Aligned layouts\<close>

fun slots :: "nat \<Rightarrow> leaf list \<Rightarrow> nat" where
  "slots M [] = 0"
| "slots M ((v, c, l) # ls) = 2 ^ (M - l) + slots M ls"

fun aligned :: "nat \<Rightarrow> nat \<Rightarrow> leaf list \<Rightarrow> bool" where
  "aligned M off [] \<longleftrightarrow> True"
| "aligned M off ((v, c, l) # ls) \<longleftrightarrow>
     l \<le> M \<and> 2 ^ (M - l) dvd off \<and> aligned M (off + 2 ^ (M - l)) ls"

fun laid_out :: "nat \<Rightarrow> nat \<Rightarrow> leaf list \<Rightarrow> codebook" where
  "laid_out M off [] = []"
| "laid_out M off ((v, c, l) # ls) =
     (v, \<lparr>cb_code = int (off div 2 ^ (M - l)), cb_bitlen = l\<rparr>) # laid_out M (off + 2 ^ (M - l)) ls"

lemma slots_append [simp]: "slots M (xs @ ys) = slots M xs + slots M ys"
  by (induction M xs rule: slots.induct) simp_all

lemma aligned_append:
  "aligned M off (xs @ ys) \<longleftrightarrow> aligned M off xs \<and> aligned M (off + slots M xs) ys"
  by (induction M off xs rule: aligned.induct) (auto simp: add.assoc)

lemma level_leaves_layout:
  assumes "l + tree_height t \<le> M" "2 ^ (M - l) dvd off"
  shows "aligned M off (level_leaves t l) \<and> slots M (level_leaves t l) = 2 ^ (M - l)"
  using assms
proof (induction t arbitrary: l off)
  case (HufNode c t u)
  let ?h = "2 ^ (M - Suc l) :: nat"
  have half: "2 ^ (M - l) = 2 * ?h"
    using HufNode.prems(1) by (simp add: Suc_diff_Suc flip: power_Suc)
  then have off: "?h dvd off" "?h dvd off + ?h" using HufNode.prems(2) by (auto intro: dvd_trans)
  have "Suc l + tree_height t \<le> M" "Suc l + tree_height u \<le> M" using HufNode.prems(1) by simp_all
  from HufNode.IH(1) [OF this(1) off(1)] HufNode.IH(2) [OF this(2) off(2)] half show ?case
    by (simp add: aligned_append)
qed simp

lemma sorted_layout:
  assumes "sorted_wrt (\<lambda>x y. leaf_lvl x \<le> leaf_lvl y) ls" "\<forall>(v, c, l) \<in> set ls. l \<le> M \<and> 2 ^ (M - l) dvd off"
  shows "aligned M off ls"
  using assms
proof (induction M off ls rule: aligned.induct)
  case (2 M off v c l ls)
  have "2 ^ (M - k) dvd off + 2 ^ (M - l)" if "(w, d, k) \<in> set ls" for w d k
  proof -
    have "l \<le> k" "2 ^ (M - k) dvd off" using 2(2,3) that by fastforce+
    then show ?thesis by (simp add: le_imp_power_dvd diff_le_mono2)
  qed
  with 2 show ?case by fastforce
qed simp

section \<open>Both builders assign the laid out codes\<close>

lemma plain_code:
  assumes "bk_code b * 2 ^ (M - bk_bitlen b) = int off" "bk_bitlen b \<le> M" "l \<le> M" "M \<le> 30"
    "2 ^ (M - l) dvd off" "off < 2 ^ M"
  shows "(if l < bk_bitlen b then shr32 (bk_code b) (bk_bitlen b - l)
          else shl32 (bk_code b) (l - bk_bitlen b)) = Some (int (off div 2 ^ (M - l)))"
proof -
  obtain q where q: "off = 2 ^ (M - l) * q" using assms(5) by blast
  then have div: "off div 2 ^ (M - l) = q" by simp
  show ?thesis
  proof (cases "l < bk_bitlen b")
    case True
    have "M - l = (bk_bitlen b - l) + (M - bk_bitlen b)" using True assms(2) by simp
    then have "bk_code b * 2 ^ (M - bk_bitlen b) = int q * 2 ^ (bk_bitlen b - l) * 2 ^ (M - bk_bitlen b)"
      using assms(1) q by (simp add: power_add)
    then have "bk_code b = int q * 2 ^ (bk_bitlen b - l)" by simp
    with True assms show ?thesis by (simp add: shr32_def div)
  next
    case False
    have "M - bk_bitlen b = (l - bk_bitlen b) + (M - l)" using False assms(3) by simp
    then have "bk_code b * 2 ^ (l - bk_bitlen b) * 2 ^ (M - l) = int q * 2 ^ (M - l)"
      using assms(1) q by (simp add: power_add mult.assoc)
    then have code: "bk_code b * 2 ^ (l - bk_bitlen b) = int q" by simp
    have "q \<le> off" using q by simp
    also have "off < 2 ^ 31"
      using assms(4,6) power_increasing [of M 31 "2 :: nat"] by simp
    finally have "i32 (int q) = int q" by (intro i32_id) simp_all
    with False code assms show ?thesis by (simp add: shl32_def div)
  qed
qed

definition book_total :: "leaf list \<Rightarrow> int" where
  "book_total ls = (\<Sum>(v, c, l) \<leftarrow> ls. int l * c)"

lemma book_list_ok:
  assumes "aligned M off ls" "M \<le> 30" "off + slots M ls \<le> 2 ^ M"
    "bk_code b * 2 ^ (M - bk_bitlen b) = int off" "bk_bitlen b \<le> M"
    "distinct (map fst (bk_codebook b) @ map fst ls)"
    "\<forall>(v, c, l) \<in> set ls. 0 \<le> c \<and> int l * c < 2 ^ 31"
  shows "\<exists>b'. book_list ls b = Some b' \<and> bk_codebook b' = bk_codebook b @ laid_out M off ls \<and>
    bk_vals b' = bk_vals b @ map fst ls \<and> bk_total b' = bk_total b + book_total ls"
  using assms
proof (induction ls arbitrary: off b)
  case Nil
  then show ?case by (simp add: book_total_def)
next
  case (Cons leaf ls)
  obtain v c l where leaf: "leaf = (v, c, l)" by (cases leaf)
  let ?q = "off div 2 ^ (M - l)" and ?s = "2 ^ (M - l) :: nat"
  have al: "l \<le> M" "?s dvd off" "aligned M (off + ?s) ls" using Cons.prems(1) leaf by simp_all
  have sum: "off + ?s + slots M ls \<le> 2 ^ M" using Cons.prems(3) leaf by simp
  then have "off + ?s \<le> 2 ^ M" by simp
  then have lt: "off < 2 ^ M" by (rule less_le_trans [rotated]) simp
  have shift: "(if l < bk_bitlen b then shr32 (bk_code b) (bk_bitlen b - l)
          else shl32 (bk_code b) (l - bk_bitlen b)) = Some (int ?q)"
    by (rule plain_code [OF Cons.prems(4,5) al(1) Cons.prems(2) al(2) lt])
  let ?b = "book_leaf v c l (int ?q) b"
  have step: "book_plain v c l b = Some ?b" by (simp add: book_plain_def shift)
  have "?q \<le> off" by simp
  also have "off < 2 ^ 30" using lt Cons.prems(2) power_increasing [of M 30 "2 :: nat"] by simp
  finally have wrap: "i32 (int ?q + 1) = int ?q + 1" by (intro i32_id) simp_all
  have "(?q + 1) * ?s = off + ?s" using al(2) by (simp add: algebra_simps)
  then have "(int ?q + 1) * 2 ^ (M - l) = int (off + ?s)" by (metis of_nat_Suc Suc_eq_plus1 add.commute of_nat_mult of_nat_numeral of_nat_power)
  then have inv: "bk_code ?b * 2 ^ (M - bk_bitlen ?b) = int (off + ?s)"
    by (simp add: book_leaf_def wrap)
  have fresh: "v \<notin> set (map fst (bk_codebook b))" using Cons.prems(6) leaf by auto
  have book: "bk_codebook ?b = bk_codebook b @ [(v, \<lparr>cb_code = int ?q, cb_bitlen = l\<rparr>)]"
    using update_fresh [OF fresh] by (simp add: book_leaf_def)
  have dist: "distinct (map fst (bk_codebook ?b) @ map fst ls)" using Cons.prems(6) leaf by (simp add: book)
  have bitlen: "bk_bitlen ?b \<le> M" using al(1) by (simp add: book_leaf_def)
  have cnt: "i32 (int l * c) = int l * c"
  proof (rule i32_id)
    show "int l * c < 2 ^ 31" using Cons.prems(7) leaf by auto
    have "0 \<le> int l * c" using Cons.prems(7) leaf by auto
    then show "- (2 ^ 31) \<le> int l * c" by simp
  qed
  have rest: "\<forall>(v, c, l) \<in> set ls. 0 \<le> c \<and> int l * c < 2 ^ 31" using Cons.prems(7) by auto
  from Cons.IH [OF al(3) Cons.prems(2) sum inv bitlen dist rest] obtain b' where
    "book_list ls ?b = Some b'" "bk_codebook b' = bk_codebook ?b @ laid_out M (off + ?s) ls"
    "bk_vals b' = bk_vals ?b @ map fst ls" "bk_total b' = bk_total ?b + book_total ls"
    by blast
  moreover have "bk_vals ?b = bk_vals b @ [v]" "bk_total ?b = bk_total b + int l * c"
    by (simp_all add: book_leaf_def cnt)
  ultimately show ?case
    by (intro exI [of _ b']) (simp add: leaf step book book_total_def)
qed

text \<open>The loop over a queue: leaves leave it by increasing level, so the left shifts suffice.\<close>

lemma book_canonical_plain:
  "bk_bitlen b \<le> l \<Longrightarrow> book_canonical (v, c, l) b = book_plain v c l b"
  by (simp add: book_canonical_def book_plain_def)

lemma bk_bitlen_plain: "book_plain v c l b = Some b' \<Longrightarrow> bk_bitlen b' = l"
  by (auto simp: book_plain_def book_leaf_def split: Option.bind_splits if_splits)

locale level_queue = priority_queue Q leaf_lvl elems ok
  for Q :: "(leaf, 'q) pq_ops" and elems :: "'q \<Rightarrow> leaf multiset" and ok :: "'q \<Rightarrow> bool"
begin

lemma canonical_loop_drain:
  assumes "ok q" "n = size (elems q)" "\<forall>x \<in># elems q. int (bk_bitlen b) \<le> leaf_lvl x"
  shows "canonical_loop Q n q b = book_list (pq_drain Q n q) b"
  using assms
proof (induction n arbitrary: q b)
  case 0
  then show ?case by (simp add: size_elems)
next
  case (Suc n)
  then have ne: "elems q \<noteq> {#}" by auto
  obtain v c l where top: "pq_top Q q = (v, c, l)" by (cases "pq_top Q q")
  have "bk_bitlen b \<le> l" using Suc.prems(3) top_elem [OF Suc.prems(1) ne] top by fastforce
  note plain = book_canonical_plain [OF this]
  have size: "n = size (elems (pq_pop Q q))"
    using Suc.prems(2) elems_split [OF Suc.prems(1) ne] by (metis size_add_mset nat.inject)
  have "canonical_loop Q n (pq_pop Q q) b' = book_list (pq_drain Q n (pq_pop Q q)) b'"
    if "book_plain v c l b = Some b'" for b'
  proof (rule Suc.IH [OF pop_ok [OF Suc.prems(1) ne] size], intro ballI)
    fix x assume "x \<in># elems (pq_pop Q q)"
    then have "x \<in># elems q" by (subst elems_split [OF Suc.prems(1) ne]) simp
    from top_least [OF Suc.prems(1) this] top bk_bitlen_plain [OF that]
    show "int (bk_bitlen b') \<le> leaf_lvl x" by simp
  qed
  moreover have "pq_size Q q \<noteq> 0" using ne by (simp add: size_elems [OF Suc.prems(1)])
  ultimately show ?case by (cases "book_plain v c l b") (simp_all add: top plain)
qed

lemma canonical_build:
  "\<exists>ls. huffman_build_canonical_encode_codebook Q t = book_list ls book_init \<and>
     mset ls = mset (level_leaves t 0) \<and> sorted_wrt (\<lambda>x y. leaf_lvl x \<le> leaf_lvl y) ls"
proof -
  let ?q = "queue_walk Q [(t, 0)] (pq_empty Q)"
  have q: "ok ?q" "elems ?q = mset (level_leaves t 0)"
    using push_all [OF empty_ok(1), of "level_leaves t 0"]
    by (simp_all add: queue_walk_leaves stack_leaves_def empty_ok(2))
  have "\<forall>x \<in># elems ?q. int (bk_bitlen book_init) \<le> leaf_lvl x" by (auto simp: book_init_def)
  from canonical_loop_drain [OF q(1) refl this] drain [OF q(1) refl] q
  show ?thesis
    by (intro exI [of _ "pq_drain Q (size (elems ?q)) ?q"])
       (simp add: huffman_build_canonical_encode_codebook_def Let_def size_elems)
qed

end

interpretation lvl_heap: level_queue "heap_ops leaf_lvl" mset "is_heap leaf_lvl" ..

end
