(* ===== verification/Huffman_Roundtrip.thy ===== *)
theory Huffman_Roundtrip
  imports Huffman_Codes
begin

text \<open>
  Decoding inverts encoding, for the plain and for the canonical coder.  The decode table is the
  list of slots of the layout; the canonical codebook is stored as counters of lengths, which
  expand to the sorted list of lengths.
\<close>

section \<open>The decode table\<close>

fun slot_table :: "nat \<Rightarrow> leaf list \<Rightarrow> decode_book_entry list" where
  "slot_table M [] = []"
| "slot_table M ((v, c, l) # ls) =
     replicate (2 ^ (M - l)) \<lparr>db_val = v, db_bitlen = int l\<rparr> @ slot_table M ls"

lemma length_slot_table [simp]: "length (slot_table M ls) = slots M ls"
  by (induction M ls rule: slot_table.induct) simp_all

lemma fill_table_slots:
  assumes "\<forall>(v, c, l) \<in> set ls. l \<le> M" "M \<le> 30" "length table + slots M ls \<le> cap"
  shows "fill_table cap (int M) (map (\<lambda>(v, c, l). (v, int l)) ls) table = Some (table @ slot_table M ls)"
  using assms
proof (induction ls arbitrary: table)
  case (Cons leaf ls)
  obtain v c l where leaf: "leaf = (v, c, l)" by (cases leaf)
  have l: "l \<le> M" using Cons.prems(1) leaf by simp
  then have "nat (int M - int l) = M - l" by simp
  with Cons leaf l show ?case by (simp add: fill_value_def Let_def)
qed simp

definition table_inverts :: "nat \<Rightarrow> decode_book_entry list \<Rightarrow> int32 \<Rightarrow> codebook_entry \<Rightarrow> bool" where
  "table_inverts M T v e \<longleftrightarrow>
     cb_bitlen e \<le> M \<and> 0 \<le> cb_code e \<and> cb_code e < 2 ^ cb_bitlen e \<and>
     (\<forall>r < 2 ^ (M - cb_bitlen e).
        nat (cb_code e) * 2 ^ (M - cb_bitlen e) + r < length T \<and>
        T ! (nat (cb_code e) * 2 ^ (M - cb_bitlen e) + r) = \<lparr>db_val = v, db_bitlen = int (cb_bitlen e)\<rparr>)"

lemma laid_out_inverts:
  assumes "aligned M off ls" "length pre = off" "off + slots M ls = 2 ^ M" "(v, e) \<in> set (laid_out M off ls)"
  shows "table_inverts M (pre @ slot_table M ls) v e"
  using assms
proof (induction ls arbitrary: off pre)
  case (Cons leaf ls)
  obtain w c l where leaf: "leaf = (w, c, l)" by (cases leaf)
  let ?s = "2 ^ (M - l) :: nat"
  have al: "l \<le> M" "?s dvd off" "aligned M (off + ?s) ls" using Cons.prems(1) leaf by simp_all
  have sum: "off + ?s + slots M ls = 2 ^ M" using Cons.prems(3) leaf by simp
  show ?case
  proof (cases "(v, e) = (w, \<lparr>cb_code = int (off div ?s), cb_bitlen = l\<rparr>)")
    case True
    have div: "off div ?s * ?s = off" using al(2) by simp
    have "off < 2 ^ M" using sum zero_less_power [of "2 :: nat" "M - l"] by linarith
    moreover have "(2 :: nat) ^ M = 2 ^ l * ?s" using al(1) by (simp flip: power_add)
    ultimately have "off div ?s * ?s < 2 ^ l * ?s" using div by simp
    then have "off div ?s < 2 ^ l" by simp
    then have "int (off div ?s) < int (2 ^ l)" by (simp only: of_nat_less_iff)
    then show ?thesis
      using True al(1) div Cons.prems(2) leaf
      by (simp add: table_inverts_def nth_append)
  next
    case False
    then have "(v, e) \<in> set (laid_out M (off + ?s) ls)" using Cons.prems(4) leaf by auto
    from Cons.IH [OF al(3) _ sum this, of "pre @ replicate ?s \<lparr>db_val = w, db_bitlen = int l\<rparr>"]
    show ?thesis using Cons.prems(2) leaf by simp
  qed
qed simp

lemma bits_nat_to_bits: "n \<le> 64 \<Longrightarrow> bits_nat (to_bits n (w :: u64)) = unat (take_bit n w)"
  using unat_of_bits [of "to_bits n w"] by simp

lemma bits_nat_code:
  assumes "0 \<le> code" "code < 2 ^ n" "n \<le> 32"
  shows "bits_nat (to_bits n (of_int code :: u64)) = nat code"
proof -
  have "code < 2 ^ 32" using assms(2,3) power_increasing [of n 32 "2 :: int"] by simp
  then have u: "uint (of_int code :: u64) = code" using assms(1) by (simp add: unsigned_of_int take_bit_int_eq_self)
  have "uint (take_bit n (of_int code :: u64)) = code"
    using u assms by (simp add: unsigned_take_bit_eq take_bit_int_eq_self)
  then show ?thesis using assms(3) by (simp add: bits_nat_to_bits unat_eq_nat_uint)
qed

definition code_field :: "codebook \<Rightarrow> int32 \<Rightarrow> field" where
  "code_field cb x = (of_int (cb_code (cb_get cb x)), cb_bitlen (cb_get cb x))"

lemma write_codes_fields: "write_codes w cb xs = put_fields bit_write w (map (code_field cb) xs)"
  by (induction xs arbitrary: w) (simp_all add: code_field_def)

lemma decode_codes_at:
  assumes "br.at r (fields_bits (map (code_field cb) xs))" "0 < M" "M \<le> 30"
    "\<forall>x \<in> set xs. table_inverts M T x (cb_get cb x)"
  shows "decode_codes (length xs) r T M = Some xs"
  using assms(1,4)
proof (induction xs arbitrary: r)
  case (Cons x xs)
  let ?e = "cb_get cb x" and ?rest = "fields_bits (map (code_field cb) xs)"
  let ?l = "cb_bitlen ?e" and ?bits = "to_bits (cb_bitlen ?e) (of_int (cb_code ?e) :: u64)"
  have inv: "table_inverts M T x ?e" using Cons.prems(2) by simp
  then have l: "?l \<le> M" "0 \<le> cb_code ?e" "cb_code ?e < 2 ^ ?l" by (auto simp: table_inverts_def)
  have at: "br.at r (?bits @ ?rest)" using Cons.prems(1) by simp (simp add: code_field_def)
  obtain pad where pad: "peek r M = Some (of_bits (?bits @ pad))" "length (?bits @ pad) = M"
    using br.look_prefix [OF br.at_prefix [OF at], of M] l(1) assms(2,3) by auto
  have idx: "unat (of_bits (?bits @ pad)) = nat (cb_code ?e) * 2 ^ (M - ?l) + bits_nat pad"
  proof -
    have "unat (of_bits (?bits @ pad)) = bits_nat (?bits @ pad)"
      by (rule unat_of_bits) (use pad(2) assms(3) in simp)
    moreover have "length pad = M - ?l" using pad(2) by simp
    ultimately show ?thesis
      using bits_nat_code [OF l(2,3)] l(1) assms(3) by (simp add: bits_nat_append)
  qed
  have "length pad = M - ?l" using pad(2) by simp
  then have "bits_nat pad < 2 ^ (M - ?l)" using bits_nat_less [of pad] by simp
  with inv have look: "unat (of_bits (?bits @ pad)) < length T"
    "T ! unat (of_bits (?bits @ pad)) = \<lparr>db_val = x, db_bitlen = int ?l\<rparr>"
    by (auto simp: table_inverts_def idx)
  obtain r' where r': "forward r ?l = Some r'" "br.at r' ?rest"
    using br.skip_field [OF at] l(1) assms(3) by auto
  show ?case
    using Cons.IH [OF r'(2)] Cons.prems(2) r'(1) pad(1) look by simp
qed simp

section \<open>Books of an input\<close>

definition input_leaves :: "int32 list \<Rightarrow> leaf list \<Rightarrow> bool" where
  "input_leaves xs ls \<longleftrightarrow>
     mset (map (\<lambda>(v, c, l). (v, c)) ls) = mset (map (\<lambda>(v, n). (v, int n)) (count_freq xs))"

lemma input_leaves_props:
  assumes "input_leaves xs ls"
  shows "distinct (map fst ls)" "fst ` set ls = set xs" "length ls = length (count_freq xs)"
    "(v, c, l) \<in> set ls \<Longrightarrow> c = int (count_list xs v)"
proof -
  note eq = assms [unfolded input_leaves_def]
  have "image_mset fst (mset (map (\<lambda>(v, c, l). (v, c)) ls)) =
      image_mset fst (mset (map (\<lambda>(v, n). (v, int n)) (count_freq xs)))"
    by (simp only: eq)
  then have m: "mset (map fst ls) = mset (map fst (count_freq xs))"
    by (simp add: image_mset.compositionality comp_def case_prod_unfold)
  then show "distinct (map fst ls)" "fst ` set ls = set xs"
    using mset_eq_imp_distinct_iff [OF m] count_freq_distinct mset_eq_setD [OF m] count_freq_keys
    by auto
  show "length ls = length (count_freq xs)" using mset_eq_length [OF m] by simp
  have set: "set (map (\<lambda>(v, c, l). (v, c)) ls) = set (map (\<lambda>(v, n). (v, int n)) (count_freq xs))"
    by (rule mset_eq_setD [OF eq])
  assume "(v, c, l) \<in> set ls"
  then have "(v, c) \<in> set (map (\<lambda>(v, c, l). (v, c)) ls)" by force
  then show "c = int (count_list xs v)" unfolding set by (auto simp: count_freq_set)
qed

definition leaf_level :: "leaf list \<Rightarrow> int32 \<Rightarrow> nat" where
  "leaf_level ls v = (case map_of (map (\<lambda>(v, c, l). (v, l)) ls) v of None \<Rightarrow> 0 | Some l \<Rightarrow> l)"

lemma leaf_level_eq:
  assumes "distinct (map fst ls)" "(v, c, l) \<in> set ls"
  shows "leaf_level ls v = l"
proof -
  have "map fst (map (\<lambda>(v, c, l). (v, l)) ls) = map fst ls" by (auto simp: comp_def case_prod_unfold)
  moreover have "(v, l) \<in> set (map (\<lambda>(v, c, l). (v, l)) ls)" using assms(2) by force
  ultimately have "map_of (map (\<lambda>(v, c, l). (v, l)) ls) v = Some l"
    using assms(1) by (metis map_of_is_SomeI)
  then show ?thesis by (simp add: leaf_level_def)
qed

lemma book_total_input:
  assumes "input_leaves xs ls"
  shows "book_total ls = int (\<Sum>x \<leftarrow> xs. leaf_level ls x)"
proof -
  note p = input_leaves_props [OF assms]
  have "book_total ls = (\<Sum>(v, c, l) \<leftarrow> ls. int (count_list xs v * leaf_level ls v))"
    unfolding book_total_def
    by (rule arg_cong [where f = sum_list], rule map_cong) (auto simp: p(4) leaf_level_eq [OF p(1)])
  also have "\<dots> = (\<Sum>v \<leftarrow> map fst ls. int (count_list xs v * leaf_level ls v))"
    by (simp add: comp_def case_prod_unfold)
  also have "\<dots> = (\<Sum>v \<in> set xs. int (count_list xs v * leaf_level ls v))"
    using sum_list_distinct_conv_sum_set [OF p(1), of "\<lambda>v. int (count_list xs v * leaf_level ls v)"] p(2)
    by simp
  also have "\<dots> = int (\<Sum>x \<leftarrow> xs. leaf_level ls x)"
    by (simp add: sum_list_map_eq_sum_count)
  finally show ?thesis .
qed

lemma laid_out_keys: "map fst (laid_out M off ls) = map fst ls" "length (laid_out M off ls) = length ls"
  by (induction M off ls rule: laid_out.induct) auto

lemma laid_out_bitlen: "(v, e) \<in> set (laid_out M off ls) \<Longrightarrow> \<exists>c. (v, c, cb_bitlen e) \<in> set ls"
  by (induction M off ls rule: laid_out.induct) auto

lemma cb_get_laid_out:
  assumes "distinct (map fst ls)" "v \<in> fst ` set ls"
  shows "(v, cb_get (laid_out M off ls) v) \<in> set (laid_out M off ls)"
    "cb_bitlen (cb_get (laid_out M off ls) v) = leaf_level ls v"
proof -
  have "v \<in> fst ` set (laid_out M off ls)" using assms(2) laid_out_keys by (metis list.set_map)
  then obtain e where e: "(v, e) \<in> set (laid_out M off ls)" by force
  moreover have "distinct (map fst (laid_out M off ls))" using assms(1) by (simp add: laid_out_keys)
  ultimately have "cb_get (laid_out M off ls) v = e" by (simp add: cb_get_def)
  then show "(v, cb_get (laid_out M off ls) v) \<in> set (laid_out M off ls)"
    "cb_bitlen (cb_get (laid_out M off ls) v) = leaf_level ls v"
    using e laid_out_bitlen [OF e] leaf_level_eq [OF assms(1)] by auto
qed

text \<open>What both coders rely on: a layout of the values of the input on \<open>2 ^ M\<close> slots.\<close>

definition layout_ok :: "int32 list \<Rightarrow> nat \<Rightarrow> leaf list \<Rightarrow> bool" where
  "layout_ok xs M ls \<longleftrightarrow>
     input_leaves xs ls \<and> aligned M 0 ls \<and> slots M ls = 2 ^ M \<and> (\<exists>v c. (v, c, M) \<in> set ls) \<and>
     M \<le> 29 \<and> xs \<noteq> [] \<and> length xs < 2 ^ 21"

lemma layout_levels:
  assumes "layout_ok xs M ls" "(v, c, l) \<in> set ls"
  shows "l \<le> M"
proof -
  have "aligned M off ls \<Longrightarrow> l \<le> M" for off
    using assms(2) by (induction M off ls rule: aligned.induct) auto
  then show ?thesis using assms(1) by (auto simp: layout_ok_def)
qed

lemma layout_book:
  assumes "layout_ok xs M ls"
  obtains b where "book_list ls book_init = Some b" "bk_codebook b = laid_out M 0 ls"
    "bk_vals b = map fst ls" "bk_total b = int (\<Sum>x \<leftarrow> xs. leaf_level ls x)"
proof -
  have lo: "input_leaves xs ls" "aligned M 0 ls" "slots M ls = 2 ^ M" "M \<le> 30"
    using assms by (auto simp: layout_ok_def)
  note p = input_leaves_props [OF lo(1)]
  have "\<forall>(v, c, l) \<in> set ls. 0 \<le> c \<and> int l * c < 2 ^ 31"
  proof (clarify, intro conjI)
    fix v c l assume m: "(v, c, l) \<in> set ls"
    then show "0 \<le> c" using p(4) by fastforce
    have "l * count_list xs v \<le> 29 * length xs"
      using layout_levels [OF assms m] assms count_le_length [of xs v]
      by (intro mult_le_mono) (auto simp: layout_ok_def)
    also have "\<dots> < 2 ^ 31" using assms by (simp add: layout_ok_def)
    finally have "int (l * count_list xs v) < int (2 ^ 31)" by (simp only: of_nat_less_iff)
    then show "int l * c < 2 ^ 31" using p(4) [OF m] by simp
  qed
  then show thesis
    using book_list_ok [OF lo(2,4), of book_init] lo p(1) that book_total_input [OF lo(1)]
    by (auto simp: book_init_def)
qed

lemma single_leaf:
  assumes "slots M ls = 2 ^ M" "(v, c, 0) \<in> set ls"
  shows "ls = [(v, c, 0)]"
proof -
  obtain as bs where ls: "ls = as @ (v, c, 0) # bs" using assms(2) by (meson split_list)
  then have "slots M as = 0" "slots M bs = 0" using assms(1) by auto
  moreover have "slots M zs = 0 \<Longrightarrow> zs = []" for zs by (induction M zs rule: slots.induct) auto
  ultimately have "as = []" "bs = []" by blast+
  then show ?thesis using ls by simp
qed

text \<open>The stored codes fill the announced words and decode back.\<close>

lemma store_code_decode:
  assumes "layout_ok xs M ls" "bk_codebook b = laid_out M 0 ls" "bk_total b = int (\<Sum>x \<leftarrow> xs. leaf_level ls x)"
  defines "code_size \<equiv> nat ((bk_total b + 31) div 32 * 4)"
  obtains out where "huffman_store_code (bk_codebook b) xs (replicate (code_size div 4) 0) code_size = Some out"
    "length out = code_size div 4" "code_size < 2 ^ 31"
    "huffman_decode_data (words_bytes out) code_size (slot_table M ls) M (length xs) = Some xs"
proof -
  let ?cb = "laid_out M 0 ls" and ?n = "\<Sum>x \<leftarrow> xs. leaf_level ls x"
  have lo: "input_leaves xs ls" "aligned M 0 ls" "slots M ls = 2 ^ M" "M \<le> 30" "xs \<noteq> []"
    using assms(1) by (auto simp: layout_ok_def)
  note p = input_leaves_props [OF lo(1)]
  have get: "(x, cb_get ?cb x) \<in> set ?cb" "cb_bitlen (cb_get ?cb x) = leaf_level ls x" if "x \<in> set xs" for x
    using cb_get_laid_out [OF p(1)] that p(2) by auto
  have "(bk_total b + 31) div 32 * 4 = int ((?n + 31) div 32 * 4)"
    by (simp add: assms(3) zdiv_int)
  then have cs: "code_size = (?n + 31) div 32 * 4" by (simp add: code_size_def)
  then have words: "code_size div 4 = (?n + 31) div 32" by simp
  have lev: "leaf_level ls x \<le> M" if "x \<in> set xs" for x
    using layout_levels [OF assms(1)] that p(2) leaf_level_eq [OF p(1)] by fastforce
  have "?n \<le> 29 * length xs"
    using sum_list_mono [of xs "leaf_level ls" "\<lambda>_. 29"] lev assms(1)
    by (fastforce simp: layout_ok_def sum_list_triv intro: order_trans)
  moreover have "29 * length xs < 2 ^ 27" using assms(1) by (simp add: layout_ok_def)
  moreover have "code_size \<le> ?n + 31" by (simp add: cs)
  ultimately have small: "code_size < 2 ^ 31" by simp
  have tab: "\<forall>x \<in> set xs. table_inverts M (slot_table M ls) x (cb_get ?cb x)"
    using laid_out_inverts [OF lo(2), of "[]"] lo(3) get(1) by auto
  show thesis
  proof (cases "1 < length ls")
    case False
    moreover have "length ls \<noteq> 0" using p(3) lo(5) by simp
    ultimately have "length ls = 1" by linarith
    then obtain v c where ls: "ls = [(v, c, M)]"
      using assms(1) by (auto simp: layout_ok_def length_Suc_conv)
    have M0: "M = 0" using lo(3) ls by (cases M) auto
    have "\<forall>x \<in> set xs. x = v" using p(2) ls by auto
    then have xs: "xs = replicate (length xs) v" by (metis replicate_length_same)
    have "leaf_level ls v = 0" using ls M0 by (simp add: leaf_level_def)
    then have "?n = 0" by (subst xs) (simp add: sum_list_replicate)
    then have "code_size = 0" using cs by simp
    moreover have "length ?cb = 1" using ls by simp
    ultimately show thesis
      using that [of "[]"] xs assms(2)
      by (simp add: huffman_store_code_def huffman_decode_data_def M0 ls words_bytes_def)
  next
    case True
    let ?fs = "map (code_field ?cb) xs"
    have pos: "0 < leaf_level ls x" if "x \<in> set xs" for x
    proof (rule ccontr)
      assume "\<not> 0 < leaf_level ls x"
      moreover obtain c l where "(x, c, l) \<in> set ls" using \<open>x \<in> set xs\<close> p(2) by force
      ultimately have "(x, c, 0) \<in> set ls" using leaf_level_eq [OF p(1)] by auto
      from single_leaf [OF lo(3) this] True show False by simp
    qed
    have M0: "0 < M" using pos lev lo(5) by (metis hd_in_set le_0_eq neq0_conv)
    have fs: "?fs \<noteq> []" "\<forall>f \<in> set ?fs. field_ok f"
      using lo(4,5) pos lev get(2) by (fastforce simp: code_field_def)+
    have bits: "length (fields_bits ?fs) = ?n"
    proof -
      have "length (fields_bits (map (code_field ?cb) ys)) = (\<Sum>x \<leftarrow> ys. leaf_level ls x)"
        if "set ys \<subseteq> set xs" for ys
        using that by (induction ys) (simp_all add: code_field_def get(2))
      then show ?thesis by simp
    qed
    obtain w0 w1 w2 k r where *: "initBitWriter (replicate ((?n + 31) div 32) 0) ((?n + 31) div 32) = Some w0"
      "put_fields bit_write w0 ?fs = Some w1" "flush w1 = Some (w2, k)" "k = (?n + 31) div 32"
      "initBitReader (take k (w_output w2)) k = Some r" "br.at r (fields_bits ?fs)"
      "length (w_output w2) = (?n + 31) div 32"
      by (rule fields_to_reader [OF fs, of "(?n + 31) div 32" "replicate ((?n + 31) div 32) 0"])
         (use bits in auto)
    have "huffman_store_code (bk_codebook b) xs (replicate (code_size div 4) 0) code_size = Some (w_output w2)"
      using * True unfolding assms(2) words
      by (simp add: huffman_store_code_def laid_out_keys write_codes_fields words)
    moreover have "huffman_decode_data (words_bytes (w_output w2)) code_size (slot_table M ls) M (length xs) = Some xs"
      using * M0 decode_codes_at [OF *(6) M0 lo(4) tab] by (simp add: huffman_decode_data_def words)
    ultimately show thesis using that * words small by simp
  qed
qed

section \<open>The plain coder\<close>

lemma sint_u16: "l < 2 ^ 15 \<Longrightarrow> sint (of_nat l :: u16) = int l"
  by (simp add: signed_of_nat signed_take_bit_int_eq_self)

lemma foldl_max_bitlen:
  "\<forall>l \<in> set ls. l < 2 ^ 15 \<Longrightarrow>
   foldl (\<lambda>m b. if sint b < m then m else sint b) (int m) (map (\<lambda>l. of_nat l :: u16) ls) =
   int (Max (insert m (set ls)))"
proof (induction ls arbitrary: m)
  case (Cons l ls)
  have "(if sint (of_nat l :: u16) < int m then int m else sint (of_nat l :: u16)) = int (max l m)"
    using Cons.prems by (simp add: sint_u16 max_def)
  moreover have "Max (insert (max l m) (set ls)) = Max (insert m (insert l (set ls)))"
    by (cases "set ls = {}") (simp_all add: max.assoc max.commute max.left_commute)
  ultimately show ?case using Cons by simp
qed simp

lemma tree_layout:
  assumes "huf_ok t" "tree_height t \<le> 29" "xs \<noteq> []" "length xs < 2 ^ 21"
    "mset (tree_leaves t) = mset (map (\<lambda>(v, n). (v, int n)) (count_freq xs))"
    "mset ls = mset (level_leaves t 0)" "aligned (tree_height t) 0 ls"
  shows "layout_ok xs (tree_height t) ls"
proof -
  have "input_leaves xs ls"
  proof -
    have "mset (map (\<lambda>(v, c, l). (v, c)) ls) = mset (map (\<lambda>(v, c, l). (v, c)) (level_leaves t 0))"
      using assms(6) by simp
    then show ?thesis by (simp only: input_leaves_def level_leaves_map assms(5))
  qed
  moreover have "slots M ls = slots M (level_leaves t 0)" for M
  proof -
    have "slots M as = sum_list (map (\<lambda>(v, c, l). 2 ^ (M - l)) as)" for as
      by (induction M as rule: slots.induct) simp_all
    moreover have "mset (map f ls) = mset (map f (level_leaves t 0))" for f :: "leaf \<Rightarrow> nat"
      using assms(6) by simp
    ultimately show ?thesis by (metis sum_mset_sum_list)
  qed
  moreover have "\<exists>v c. (v, c, tree_height t) \<in> set ls"
    using level_leaves_deepest [of 0 t] mset_eq_setD [OF assms(6)] by simp
  ultimately show ?thesis
    using assms level_leaves_layout [of 0 t "tree_height t" 0] by (simp add: layout_ok_def)
qed

lemma plain_table:
  assumes "layout_ok xs M ls"
  shows "huffman_build_decode_codebook (map fst ls) (map (\<lambda>(v, c, l). of_nat l) ls) = Some (slot_table M ls, M)"
proof -
  have lev: "\<forall>(v, c, l) \<in> set ls. l \<le> M" using layout_levels [OF assms] by blast
  have M: "M \<le> 29" using assms by (simp add: layout_ok_def)
  let ?lens = "map (\<lambda>(v, c, l). l) ls"
  have small: "\<forall>l \<in> set ?lens. l < 2 ^ 15" using lev M by fastforce
  have "M \<in> set ?lens" using assms by (force simp: layout_ok_def)
  then have "Max (insert 0 (set ?lens)) = M" using lev by (intro Max_eqI) auto
  moreover have u16: "map (\<lambda>(v, c, l). of_nat l :: u16) ls = map of_nat ?lens"
    by (simp add: comp_def case_prod_unfold)
  ultimately have mx: "foldl (\<lambda>m b. if sint b < m then m else sint b) 0
      (map (\<lambda>(v, c, l). of_nat l :: u16) ls) = int M"
    using foldl_max_bitlen [OF small, of 0] by (simp only: of_nat_0 u16 semiring_1_class.of_nat_0)
  have "zip (map fst ls) (map sint (map (\<lambda>(v, c, l). of_nat l :: u16) ls)) = map (\<lambda>(v, c, l). (v, int l)) ls"
    using small by (auto simp: zip_map_map zip_same_conv_map sint_u16)
  moreover have "fill_table (2 ^ M) (int M) (map (\<lambda>(v, c, l). (v, int l)) ls) [] = Some (slot_table M ls)"
    using fill_table_slots [OF lev, of "[]" "2 ^ M"] assms M by (simp add: layout_ok_def)
  ultimately show ?thesis using M by (simp add: huffman_build_decode_codebook_def mx)
qed

lemma huffman_encode_decode:
  assumes "priority_queue Q huf_cnt elems ok" "iteration_order ord" "xs \<noteq> []" "length xs < 2 ^ 21"
  shows "\<exists>bytes. huffman_encode Q ord xs = Some bytes \<and> huffman_decode bytes = Some xs"
proof -
  obtain t where t: "huffman_build_tree Q ord (count_freq xs) = Some t" "huf_ok t" "tree_height t \<le> 29"
    "mset (tree_leaves t) = mset (map (\<lambda>(v, n). (v, int n)) (count_freq xs))"
    by (rule build_tree_input [OF assms])
  let ?M = "tree_height t" and ?ls = "level_leaves t 0"
  have lo: "layout_ok xs ?M ?ls"
    using tree_layout [OF t(2,3) assms(3,4) t(4) refl] level_leaves_layout [of 0 t ?M 0] by simp
  obtain b where b: "book_list ?ls book_init = Some b" "bk_codebook b = laid_out ?M 0 ?ls"
    "bk_vals b = map fst ?ls" "bk_total b = int (\<Sum>x \<leftarrow> xs. leaf_level ?ls x)"
    by (rule layout_book [OF lo])
  let ?cs = "nat ((bk_total b + 31) div 32 * 4)"
  obtain out where out: "huffman_store_code (bk_codebook b) xs (replicate (?cs div 4) 0) ?cs = Some out"
    "length out = ?cs div 4" "?cs < 2 ^ 31"
    "huffman_decode_data (words_bytes out) ?cs (slot_table ?M ?ls) ?M (length xs) = Some xs"
    by (rule store_code_decode [OF lo b(2,4)])
  have p: "distinct (map fst ?ls)" "length ?ls = length (count_freq xs)"
    using lo input_leaves_props by (auto simp: layout_ok_def)
  have lens: "map (\<lambda>v. of_nat (cb_bitlen (cb_get (bk_codebook b) v)) :: u16) (map fst ?ls) =
      map (\<lambda>(v, c, l). of_nat l) ?ls"
    using cb_get_laid_out(2) [OF p(1)] leaf_level_eq [OF p(1)] by (auto simp: b(2) intro!: map_cong)
  have few: "length (count_freq xs) < 2 ^ 32"
  proof -
    have "length (count_freq xs) = card (set xs)"
      using count_freq_distinct [of xs] count_freq_keys [of xs] by (metis distinct_card length_map list.set_map)
    then show ?thesis using card_length [of xs] assms(4) by simp
  qed
  let ?hdr = "[of_nat (length xs), of_nat (length (count_freq xs)), of_nat ?cs] :: u32 list"
  let ?bytes = "array_bytes 4 ?hdr @ array_bytes 4 (map fst ?ls) @
      array_bytes 2 (map (\<lambda>(v, c, l). of_nat l :: u16) ?ls) @ words_bytes out"
  have "huffman_store_codebook (bk_codebook b) (bk_vals b) =
      array_bytes 4 (map fst ?ls) @ array_bytes 2 (map (\<lambda>(v, c, l). of_nat l :: u16) ?ls)"
    by (simp only: huffman_store_codebook_def b(3) lens)
  then have "huffman_encode Q ord xs = Some ?bytes"
    using t(1) b(1) out(1)
    by (simp add: huffman_encode_def huffman_build_encode_codebook_def encode_walk_leaves
        stack_leaves_def Let_def)
  moreover have "huffman_decode ?bytes = Some xs"
  proof -
    have "read_array 4 3 ?bytes = Some (?hdr, array_bytes 4 (map fst ?ls) @
        array_bytes 2 (map (\<lambda>(v, c, l). of_nat l :: u16) ?ls) @ words_bytes out)"
      by (rule read_array_bytes) simp_all
    then show ?thesis
      using out(3,4) few assms(4) p(2) plain_table [OF lo]
      by (simp add: huffman_decode_def unat_of_nat Let_def)
  qed
  ultimately show ?thesis by blast
qed

text \<open>C13. The plain Huffman coder is lossless: for any queue that keeps the contract of
  \<open>std::priority_queue\<close> on counts, any iteration order of the frequency map and every non-empty
  array of fewer than \<open>2 ^ 21\<close> values, \<open>huffman_encode\<close> succeeds and \<open>huffman_decode\<close> of its
  output yields the array.\<close>

theorem huffman_roundtrip:
  assumes "priority_queue Q huf_cnt elems ok" "iteration_order ord" "xs \<noteq> []" "length xs < 2 ^ 21"
  shows "\<exists>bytes. huffman_encode Q ord xs = Some bytes \<and> huffman_decode bytes = Some xs"
  by (rule huffman_encode_decode [OF assms])

text \<open>Witness of C13: the binary heap, entries visited in reverse order.\<close>

theorem huffman_roundtrip_witness:
  "\<exists>bytes. huffman_encode (heap_ops huf_cnt) rev [7, 7, 9, 4294967295] = Some bytes \<and>
     huffman_decode bytes = Some [7, 7, 9, 4294967295]"
  by (rule huffman_roundtrip [OF heap.priority_queue_axioms iteration_order_rev]) simp_all

section \<open>The canonical codebook\<close>

fun expand :: "nat \<Rightarrow> nat list \<Rightarrow> nat list" where
  "expand m [] = []"
| "expand m (c # cs) = replicate c m @ expand (Suc m) cs"

lemma expand_append: "expand m (cs @ ds) = expand m cs @ expand (m + length cs) ds"
  by (induction cs arbitrary: m) simp_all

lemma expand_zeros [simp]: "expand m (replicate n 0) = []"
  by (induction n arbitrary: m) simp_all

lemma length_expand [simp]: "length (expand m cs) = sum_list cs"
  by (induction cs arbitrary: m) simp_all

lemma open_counters_eq:
  assumes "bl \<le> int l"
  shows "open_counters l bl cnts = Some (int l, cnts @ replicate (nat (int l - bl)) 0)"
  using assms
proof (induction "nat (int l - bl)" arbitrary: bl cnts)
  case 0
  then have "bl = int l" by simp
  then show ?case by (subst open_counters.simps) simp
next
  case (Suc n)
  then have "nat (int l - bl) = Suc (nat (int l - (bl + 1)))" by simp
  with Suc.hyps(1) [of "bl + 1" "cnts @ [0]"] Suc.hyps(2) Suc.prems show ?case
    by (subst open_counters.simps) simp
qed

lemma count_lengths_ok:
  assumes "sorted (rest :: nat list)" "\<forall>l \<in> set rest. int m + int (length cs) - 1 \<le> int l" "cs \<noteq> [] \<or> (\<forall>l \<in> set rest. m \<le> l)"
  shows "\<exists>cs'. count_lengths rest (int m + int (length cs) - 1) (map of_nat cs) = Some (map of_nat cs') \<and>
    expand m cs @ rest = expand m cs' \<and>
    length cs' = (if rest = [] then length cs else last rest - m + 1)"
  using assms
proof (induction rest arbitrary: cs)
  case Nil
  then show ?case by auto
next
  case (Cons l rest)
  let ?bl = "int m + int (length cs) - 1" and ?z = "nat (int l - (int m + int (length cs) - 1))"
  have le: "?bl \<le> int l" using Cons.prems(2) by simp
  define ds where "ds = cs @ replicate ?z 0"
  have len: "length ds = l - m + 1" "ds \<noteq> []" "m \<le> l"
    using Cons.prems(2,3) by (cases cs; auto simp: ds_def)+
  define es where "es = ds[length ds - 1 := last ds + 1]"
  have ds: "ds = butlast ds @ [last ds]" "length (butlast ds) = l - m" using len by simp_all
  have es: "es = butlast ds @ [last ds + 1]" unfolding es_def using len(2) by (metis list_update_length ds append_butlast_last_id length_butlast)
  have "expand m ds = expand m cs" by (simp add: ds_def expand_append)
  moreover have "expand m es = expand m (butlast ds) @ replicate (last ds + 1) l"
    unfolding es using ds(2) len(3) by (simp add: expand_append)
  moreover have "expand m ds = expand m (butlast ds) @ replicate (last ds) l"
    by (subst ds(1)) (use ds(2) len(3) in \<open>simp add: expand_append\<close>)
  moreover have "replicate (last ds + 1) l = replicate (last ds) l @ [l]"
    by (simp add: replicate_append_same)
  ultimately have exp: "expand m es = expand m cs @ [l]" by (metis append_assoc)
  have bl: "int l = int m + int (length es) - 1" using len by (simp add: es_def)
  have "open_counters l ?bl (map of_nat cs) = Some (int l, map of_nat ds :: u16 list)"
    using open_counters_eq [OF le] by (simp add: ds_def)
  moreover have "(map of_nat ds)[length ds - 1 := last (map of_nat ds) + 1] = (map of_nat es :: u16 list)"
    using len(2) by (simp add: es_def map_update last_map add.commute)
  ultimately have step: "count_lengths (l # rest) ?bl (map of_nat cs) =
      count_lengths rest (int m + int (length es) - 1) (map of_nat es)"
    using len(2) bl by simp
  have "\<forall>k \<in> set rest. int m + int (length es) - 1 \<le> int k" using Cons.prems(1) bl by auto
  moreover have "es \<noteq> []" using len(2) by (simp add: es_def)
  ultimately obtain cs' where cs': "count_lengths rest (int m + int (length es) - 1) (map of_nat es) = Some (map of_nat cs')"
    "expand m es @ rest = expand m cs'" "length cs' = (if rest = [] then length es else last rest - m + 1)"
    using Cons.IH [of es] Cons.prems(1) by auto
  then show ?case using step exp len by (intro exI [of _ cs']) (auto simp: es_def)
qed

lemma skip_zeros_step:
  "i < length cnts \<Longrightarrow> cnts ! i = 0 \<Longrightarrow> skip_zeros cnts i b = skip_zeros cnts (Suc i) (b + 1)"
  "i < length cnts \<Longrightarrow> cnts ! i \<noteq> 0 \<Longrightarrow> skip_zeros cnts i b = Some (i, b)"
  by (subst skip_zeros.simps; simp)+

lemma skip_zeros_end: "\<forall>j. i \<le> j \<longrightarrow> j < length cnts \<longrightarrow> cnts ! j = 0 \<Longrightarrow> skip_zeros cnts i b = None"
proof (induction cnts i b rule: skip_zeros.induct)
  case (1 cnts i b)
  then show ?case by (subst skip_zeros.simps) auto
qed

text \<open>Walking along the counters visits the lengths they expand to and leaves zeros behind.\<close>

lemma fill_canonical_ok:
  assumes "length vs = sum_list ds" "\<forall>d \<in> set ds. d < 2 ^ 16"
  shows "fill_canonical cap M vs (pre @ map of_nat ds) (length pre) (int bl) table =
    map_option (\<lambda>T. (T, pre @ replicate (length ds) 0))
      (fill_table cap M (zip vs (map int (expand bl ds))) table)"
  using assms
proof (induction "length ds + sum_list ds" arbitrary: ds vs pre bl table rule: less_induct)
  case less
  show ?case
  proof (cases vs)
    case Nil
    then have "\<forall>d \<in> set ds. d = 0" using less.prems(1) by (auto simp: sum_list_eq_0_iff)
    then have "map of_nat ds = (replicate (length ds) 0 :: u16 list)"
      by (induction ds) auto
    then show ?thesis using Nil by simp
  next
    case (Cons v vs')
    then obtain d ds' where ds: "ds = d # ds'" using less.prems(1) by (cases ds) auto
    show ?thesis
    proof (cases d)
      case 0
      have "fill_canonical cap M vs (pre @ map of_nat ds) (length pre) (int bl) table =
          fill_canonical cap M vs ((pre @ [0]) @ map of_nat ds') (length (pre @ [0])) (int (Suc bl)) table"
        using Cons ds 0 skip_zeros_step(1) [of "length pre" "pre @ 0 # map of_nat ds'" "int bl"]
        by (simp add: nth_append add.commute)
      then show ?thesis
        using less.hyps [of ds' vs "pre @ [0]" "Suc bl" table] less.prems ds 0 by simp
    next
      case (Suc c)
      have nz: "(of_nat d :: u16) \<noteq> 0"
      proof
        assume "(of_nat d :: u16) = 0"
        then have "unat (of_nat d :: u16) = 0" by simp
        moreover have "d < 2 ^ 16" using less.prems(2) ds by simp
        then have "unat (of_nat d :: u16) = d" by (simp only: unat_of_nat) simp
        ultimately show False using Suc by simp
      qed
      have step: "skip_zeros (pre @ map of_nat ds) (length pre) (int bl) = Some (length pre, int bl)"
        using nz ds by (intro skip_zeros_step(2)) simp_all
      have upd: "(pre @ map of_nat ds)[length pre := (pre @ map of_nat ds) ! length pre - 1] =
          pre @ map of_nat (c # ds')"
        using ds Suc by (simp add: list_update_append)
      have "fill_canonical cap M vs' (pre @ map of_nat (c # ds')) (length pre) (int bl) T =
          map_option (\<lambda>T. (T, pre @ replicate (length ds) 0))
            (fill_table cap M (zip vs' (map int (expand bl (c # ds')))) T)" for T
        using less.hyps [of "c # ds'" vs' pre bl T] less.prems ds Suc Cons by simp
      moreover have "fill_canonical cap M (v # vs') (pre @ map of_nat ds) (length pre) (int bl) table =
          Option.bind (fill_value cap M v (int bl) table)
            (fill_canonical cap M vs' (pre @ map of_nat (c # ds')) (length pre) (int bl))"
        by (simp add: step upd Let_def)
      moreover have "zip (v # vs') (map int (expand bl ds)) =
          (v, int bl) # zip vs' (map int (expand bl (c # ds')))"
        by (simp add: ds Suc)
      ultimately show ?thesis
        unfolding Cons by (cases "fill_value cap M v (int bl) table") simp_all
    qed
  qed
qed

lemma sorted_levels:
  assumes "sorted_wrt (\<lambda>x y. leaf_lvl x \<le> leaf_lvl y) ls"
  shows "sorted (map (\<lambda>(v, c, l). l) ls)"
  using assms by (induction ls) auto

text \<open>The stored counters of a sorted layout and the table built from them.\<close>

lemma canonical_book:
  assumes lo: "layout_ok xs M ls" and sorted: "sorted_wrt (\<lambda>x y. leaf_lvl x \<le> leaf_lvl y) ls"
    and few: "length ls < 2 ^ 16"
  defines "lens \<equiv> map (\<lambda>(v, c, l). l) ls"
  defines "first \<equiv> of_nat (lens ! 0) :: u16" and "final \<equiv> of_nat M :: u16"
  obtains cs where
    "lens \<noteq> []" "lens ! (length ls - 1) = M"
    "count_lengths lens (int (unat first) - 1) [] = Some (map of_nat cs)"
    "length cs = M - lens ! 0 + 1" "lens ! 0 \<le> M"
    "huffman_build_decode_codebook_canonical (map fst ls) (first # final # map of_nat cs) =
       Some (slot_table M ls, M, first # final # replicate (length cs) 0)"
proof -
  have M: "M \<le> 29" and lev: "\<forall>(v, c, l) \<in> set ls. l \<le> M" and "M \<in> set lens"
    using lo layout_levels [OF lo] by (force simp: layout_ok_def lens_def)+
  then have ne: "lens \<noteq> []" by auto
  have srt: "sorted lens" unfolding lens_def by (rule sorted_levels [OF sorted])
  have le: "l \<le> M" if "l \<in> set lens" for l using that lev by (auto simp: lens_def)
  have len: "length lens = length ls" by (simp add: lens_def)
  have last: "last lens = M"
  proof (rule antisym)
    show "last lens \<le> M" using le ne by simp
    obtain i where "i < length lens" "lens ! i = M" using \<open>M \<in> set lens\<close> by (meson in_set_conv_nth)
    then show "M \<le> last lens" using srt ne
      by (metis Suc_pred last_conv_nth length_greater_0_conv less_Suc_eq_le less_imp_diff_less One_nat_def sorted_nth_mono diff_Suc_less)
  qed
  have hd: "lens ! 0 \<le> l" if "l \<in> set lens" for l
    using srt that by (metis in_set_conv_nth le0 sorted_nth_mono)
  have f: "unat first = lens ! 0" "sint first = int (lens ! 0)" "sint final = int M"
    using le [of "lens ! 0"] ne M by (simp_all add: first_def final_def unat_of_nat sint_u16)
  obtain cs where cs: "count_lengths lens (int (lens ! 0) - 1) [] = Some (map of_nat cs)"
    "lens = expand (lens ! 0) cs" "length cs = M - lens ! 0 + 1"
    using count_lengths_ok [OF srt, of "lens ! 0" "[]"] hd ne last by fastforce
  have sum: "sum_list cs = length ls" using cs(2) len by (metis length_expand)
  then have small: "\<forall>c \<in> set cs. c < 2 ^ 16"
    using few member_le_sum_list [of _ cs] by fastforce
  have "map fst ls = map fst ls" "zip (map fst ls) (map int lens) = map (\<lambda>(v, c, l). (v, int l)) ls"
    by (auto simp: lens_def zip_map_map zip_same_conv_map)
  moreover have "fill_table (2 ^ M) (int M) (map (\<lambda>(v, c, l). (v, int l)) ls) [] = Some (slot_table M ls)"
    using fill_table_slots [OF lev, of "[]" "2 ^ M"] lo M by (simp add: layout_ok_def)
  ultimately have "fill_canonical (2 ^ M) (int M) (map fst ls) ([first, final] @ map of_nat cs) (length [first, final])
      (int (lens ! 0)) [] = Some (slot_table M ls, [first, final] @ replicate (length cs) 0)"
    using fill_canonical_ok [of "map fst ls" cs "2 ^ M" "int M" "[first, final]" "lens ! 0" "[]"]
      sum small cs(2) by simp
  then have "huffman_build_decode_codebook_canonical (map fst ls) (first # final # map of_nat cs) =
       Some (slot_table M ls, M, first # final # replicate (length cs) 0)"
    using f M by (simp add: huffman_build_decode_codebook_canonical_def numeral_2_eq_2)
  moreover have "lens ! (length ls - 1) = M" using last ne len by (simp add: last_conv_nth)
  ultimately show thesis
    using that ne cs(1,3) f(1) hd \<open>M \<in> set lens\<close> by simp
qed

lemma canonical_decode_frame:
  fixes hdr :: "u32 list" and cnts :: "u16 list"
  assumes "length hdr = 3" "unat (hdr ! 1) = length vals"
    "nat (sint final - sint first + 3) = length cnts + 2"
    "huffman_build_decode_codebook_canonical vals (first # final # cnts) = Some (T, M, cnts')"
    "huffman_decode_data code (unat (hdr ! 2)) T M (unat (hdr ! 0)) = Some xs"
  shows "huffman_decode_canonical (array_bytes 4 hdr @ array_bytes 4 vals @
      array_bytes 2 (first # final # cnts) @ code) =
    Some (xs, array_bytes 4 hdr @ array_bytes 4 vals @ array_bytes 2 cnts' @ code)"
proof -
  let ?mid = "array_bytes 2 (first # final # cnts)"
  have r1: "read_array 4 3 (array_bytes 4 hdr @ bs) = Some (hdr, bs)" for bs
    by (rule read_array_bytes) (use assms(1) in simp_all)
  have r2: "read_array 2 2 (?mid @ bs) = Some ([first, final], array_bytes 2 cnts @ bs)" for bs
    using read_array_bytes [of 2 "[first, final]" 2 "array_bytes 2 cnts @ bs"] by simp
  have r3: "read_array 2 (nat (sint final - sint first + 3)) (?mid @ bs) = Some (first # final # cnts, bs)" for bs
    by (rule read_array_bytes) (use assms(3) in simp_all)
  have r4: "read_array 4 (unat (hdr ! 1)) (array_bytes 4 vals @ bs) = Some (vals, bs)" for bs
    by (rule read_array_bytes) (use assms(2) in simp_all)
  show ?thesis
    unfolding huffman_decode_canonical_def
    by (simp add: r1 r2 r3 r4 [simplified] assms(4,5) Let_def del: array_bytes_simps)
qed

text \<open>Everything an encoder needs from the canonical code of an input, whatever the order in which
  the frequency map lists its entries.\<close>

definition book_lengths :: "book_state \<Rightarrow> nat list" where
  "book_lengths b = map (\<lambda>v. cb_bitlen (cb_get (bk_codebook b) v)) (bk_vals b)"

lemma canonical_core:
  assumes "priority_queue Q huf_cnt elems ok" "priority_queue P leaf_lvl elems' ok'" "iteration_order ord"
    "xs \<noteq> []" "length xs < 2 ^ 21" "card (set xs) < 2 ^ 16" "mset freq = mset (count_freq xs)"
  obtains t b first final cs T M out where
    "huffman_build_tree Q ord freq = Some t" "huffman_build_canonical_encode_codebook P t = Some b"
    "bk_vals b \<noteq> []" "length (bk_codebook b) = length (bk_vals b)" "length (bk_vals b) = card (set xs)"
    "set (bk_vals b) = set xs"
    "of_nat (book_lengths b ! 0) = (first :: u16)"
    "of_nat (book_lengths b ! (length (bk_vals b) - 1)) = (final :: u16)"
    "count_lengths (book_lengths b) (int (unat first) - 1) [] = Some (map of_nat cs)"
    "nat (sint final - sint first + 3) = length cs + 2" "0 \<le> sint final" "sint final \<le> 30"
    "sint first = int (unat first)"
    "huffman_build_decode_codebook_canonical (bk_vals b) (first # final # map of_nat cs) =
       Some (T, M, first # final # replicate (length cs) 0)"
    "huffman_store_code (bk_codebook b) xs (replicate (nat ((bk_total b + 31) div 32 * 4) div 4) 0)
       (nat ((bk_total b + 31) div 32 * 4)) = Some out"
    "nat ((bk_total b + 31) div 32 * 4) < 2 ^ 31"
    "length out = nat ((bk_total b + 31) div 32 * 4) div 4"
    "huffman_decode_data (words_bytes out) (nat ((bk_total b + 31) div 32 * 4)) T M (length xs) = Some xs"
proof -
  obtain t where t: "huffman_build_tree Q ord freq = Some t" "huf_ok t" "tree_height t \<le> 29"
    "mset (tree_leaves t) = mset (map (\<lambda>(v, n). (v, int n)) (count_freq xs))"
    by (rule build_tree_freq [OF assms(1,3-5,7)])
  let ?M = "tree_height t"
  have lq: "level_queue P elems' ok'" using assms(2) by (simp add: level_queue_def)
  obtain ls where ls: "huffman_build_canonical_encode_codebook P t = book_list ls book_init"
    "mset ls = mset (level_leaves t 0)" "sorted_wrt (\<lambda>x y. leaf_lvl x \<le> leaf_lvl y) ls"
    using level_queue.canonical_build [OF lq] by blast
  have "\<forall>(v, c, l) \<in> set ls. l \<le> ?M \<and> 2 ^ (?M - l) dvd (0 :: nat)"
    using level_leaves_bounds [of _ _ _ t 0] mset_eq_setD [OF ls(2)] by auto
  then have lo: "layout_ok xs ?M ls"
    by (intro tree_layout [OF t(2,3) assms(4,5) t(4) ls(2)] sorted_layout [OF ls(3)])
  obtain b where b: "book_list ls book_init = Some b" "bk_codebook b = laid_out ?M 0 ls"
    "bk_vals b = map fst ls" "bk_total b = int (\<Sum>x \<leftarrow> xs. leaf_level ls x)"
    by (rule layout_book [OF lo])
  let ?cs = "nat ((bk_total b + 31) div 32 * 4)"
  obtain out where out: "huffman_store_code (bk_codebook b) xs (replicate (?cs div 4) 0) ?cs = Some out"
    "length out = ?cs div 4" "?cs < 2 ^ 31"
    "huffman_decode_data (words_bytes out) ?cs (slot_table ?M ls) ?M (length xs) = Some xs"
    by (rule store_code_decode [OF lo b(2,4)])
  have p: "distinct (map fst ls)" "length ls = length (count_freq xs)" "set (map fst ls) = set xs"
    using lo input_leaves_props by (auto simp: layout_ok_def)
  note n = length_count_freq [of xs]
  let ?lens = "map (\<lambda>(v, c, l). l) ls"
  let ?first = "of_nat (?lens ! 0) :: u16" and ?final = "of_nat ?M :: u16"
  obtain cs where cs: "?lens \<noteq> []" "?lens ! (length ls - 1) = ?M"
    "count_lengths ?lens (int (unat ?first) - 1) [] = Some (map of_nat cs)"
    "length cs = ?M - ?lens ! 0 + 1" "?lens ! 0 \<le> ?M"
    "huffman_build_decode_codebook_canonical (map fst ls) (?first # ?final # map of_nat cs) =
       Some (slot_table ?M ls, ?M, ?first # ?final # replicate (length cs) 0)"
    using canonical_book [OF lo ls(3)] p(2) n assms(6) by metis
  have "map (\<lambda>v. cb_bitlen (cb_get (bk_codebook b) v)) (map fst ls) = ?lens"
    using cb_get_laid_out(2) [OF p(1)] leaf_level_eq [OF p(1)] by (auto simp: b(2) intro!: map_cong)
  then have lens: "book_lengths b = ?lens" by (simp only: book_lengths_def b(3))
  have ends: "nat (sint ?final - sint ?first + 3) = length cs + 2" "0 \<le> sint ?final" "sint ?final \<le> 30"
    "sint ?first = int (unat ?first)"
    using cs(4,5) t(3) by (simp_all add: sint_u16 unat_of_nat)
  have vals: "bk_vals b \<noteq> []" "length (bk_codebook b) = length (bk_vals b)"
    "length (bk_vals b) = card (set xs)" "set (bk_vals b) = set xs"
    using cs(1) p n by (auto simp only: b laid_out_keys length_map map_is_Nil_conv)
  have lasts: "of_nat (book_lengths b ! 0) = ?first"
    "of_nat (book_lengths b ! (length (bk_vals b) - 1)) = ?final"
    using cs(2) by (simp_all only: lens b(3) length_map)
  show thesis
    by (rule that [OF t(1) _ vals lasts _ ends _ out(1,3,2,4)])
       (simp_all only: ls(1) b(1,3) lens cs(3,6))
qed

lemma canonical_bytes:
  assumes "priority_queue Q huf_cnt elems ok" "priority_queue P leaf_lvl elems' ok'" "iteration_order ord"
    "xs \<noteq> []" "length xs < 2 ^ 21" "card (set xs) < 2 ^ 16"
  obtains hdr vals first final cs code where
    "huffman_encode_canonical Q P ord xs =
       Some (array_bytes 4 (hdr :: u32 list) @ array_bytes 4 (vals :: int32 list) @
             array_bytes 2 (first # final # map of_nat cs :: u16 list) @ code)"
    "length hdr = 3" "unat (hdr ! 1) = length vals" "vals \<noteq> []"
    "nat (sint final - sint first + 3) = length cs + 2" "0 \<le> sint final" "sint final \<le> 30"
    "huffman_decode_canonical (array_bytes 4 hdr @ array_bytes 4 vals @
        array_bytes 2 (first # final # map of_nat cs) @ code) =
       Some (xs, array_bytes 4 hdr @ array_bytes 4 vals @
        array_bytes 2 (first # final # replicate (length cs) 0) @ code)"
proof -
  obtain t b and first final :: u16 and cs T M out where c:
    "huffman_build_tree Q ord (count_freq xs) = Some t" "huffman_build_canonical_encode_codebook P t = Some b"
    "bk_vals b \<noteq> []" "length (bk_codebook b) = length (bk_vals b)" "length (bk_vals b) = card (set xs)"
    "set (bk_vals b) = set xs"
    "of_nat (book_lengths b ! 0) = first"
    "of_nat (book_lengths b ! (length (bk_vals b) - 1)) = final"
    "count_lengths (book_lengths b) (int (unat first) - 1) [] = Some (map of_nat cs)"
    "nat (sint final - sint first + 3) = length cs + 2" "0 \<le> sint final" "sint final \<le> 30"
    "sint first = int (unat first)"
    "huffman_build_decode_codebook_canonical (bk_vals b) (first # final # map of_nat cs) =
       Some (T, M, first # final # replicate (length cs) 0)"
    "huffman_store_code (bk_codebook b) xs (replicate (nat ((bk_total b + 31) div 32 * 4) div 4) 0)
       (nat ((bk_total b + 31) div 32 * 4)) = Some out"
    "nat ((bk_total b + 31) div 32 * 4) < 2 ^ 31"
    "length out = nat ((bk_total b + 31) div 32 * 4) div 4"
    "huffman_decode_data (words_bytes out) (nat ((bk_total b + 31) div 32 * 4)) T M (length xs) = Some xs"
    by (rule canonical_core [OF assms refl])
  let ?cs = "nat ((bk_total b + 31) div 32 * 4)"
  let ?hdr = "[of_nat (length xs), of_nat (length (count_freq xs)), of_nat ?cs] :: u32 list"
  let ?mid = "array_bytes 2 (first # final # map of_nat cs :: u16 list)"
  have "huffman_store_canonical_codebook (bk_codebook b) (bk_vals b) = Some (array_bytes 4 (bk_vals b) @ ?mid)"
    unfolding huffman_store_canonical_codebook_def book_lengths_def [symmetric]
    using c(3,7-9) by (simp add: Let_def)
  then have enc: "huffman_encode_canonical Q P ord xs =
      Some (array_bytes 4 ?hdr @ array_bytes 4 (bk_vals b) @ ?mid @ words_bytes out)"
    using c(1,2,15) by (simp add: huffman_encode_canonical_def Let_def)
  have val: "unat (?hdr ! 1) = length (bk_vals b)"
    using assms(6) by (simp add: unat_of_nat c(5) length_count_freq)
  have "huffman_decode_canonical (array_bytes 4 ?hdr @ array_bytes 4 (bk_vals b) @ ?mid @ words_bytes out) =
      Some (xs, array_bytes 4 ?hdr @ array_bytes 4 (bk_vals b) @
        array_bytes 2 (first # final # replicate (length cs) 0) @ words_bytes out)"
    by (rule canonical_decode_frame [OF _ val _ c(14)])
       (use assms(5) c(10,16,18) in \<open>simp_all add: unat_of_nat\<close>)
  with that [OF enc _ val c(3,10-12)] show thesis by simp
qed

text \<open>C14. The canonical Huffman coder is lossless: for any queues that keep the contract of
  \<open>std::priority_queue\<close> on counts and on levels, any iteration order, and every non-empty array
  of fewer than \<open>2 ^ 21\<close> values of which fewer than \<open>2 ^ 16\<close> are distinct (the counters of the
  codebook are 16 bits wide), \<open>huffman_decode_canonical\<close> returns what was encoded.\<close>

theorem huffman_canonical_roundtrip:
  assumes "priority_queue Q huf_cnt elems ok" "priority_queue P leaf_lvl elems' ok'" "iteration_order ord"
    "xs \<noteq> []" "length xs < 2 ^ 21" "card (set xs) < 2 ^ 16"
  shows "\<exists>bytes after. huffman_encode_canonical Q P ord xs = Some bytes \<and>
    huffman_decode_canonical bytes = Some (xs, after)"
  using canonical_bytes [OF assms] by metis

text \<open>Witness of C14.\<close>

theorem huffman_canonical_roundtrip_witness:
  "\<exists>bytes after. huffman_encode_canonical (heap_ops huf_cnt) (heap_ops leaf_lvl) rev [7, 7, 9, 4294967295] =
     Some bytes \<and> huffman_decode_canonical bytes = Some ([7, 7, 9, 4294967295], after)"
  by (rule huffman_canonical_roundtrip
      [OF heap.priority_queue_axioms heap.priority_queue_axioms iteration_order_rev]) simp_all

text \<open>C16. Decoding the canonical format destroys its input: \<open>bitlens[bitlen_cnt]--\<close> counts down in
  the caller's buffer, and a second decoding of what the first one left there runs past the
  counters.\<close>

theorem huffman_canonical_consumes:
  assumes "priority_queue Q huf_cnt elems ok" "priority_queue P leaf_lvl elems' ok'" "iteration_order ord"
    "xs \<noteq> []" "length xs < 2 ^ 21" "card (set xs) < 2 ^ 16"
    "huffman_encode_canonical Q P ord xs = Some bytes" "huffman_decode_canonical bytes = Some (ys, after)"
  shows "huffman_decode_canonical after = None"
proof -
  obtain hdr vals first final cs code where *:
    "huffman_encode_canonical Q P ord xs =
       Some (array_bytes 4 (hdr :: u32 list) @ array_bytes 4 (vals :: int32 list) @
             array_bytes 2 (first # final # map of_nat cs :: u16 list) @ code)"
    "length hdr = 3" "unat (hdr ! 1) = length vals" "vals \<noteq> []"
    "nat (sint final - sint first + 3) = length cs + 2" "0 \<le> sint final" "sint final \<le> 30"
    "huffman_decode_canonical (array_bytes 4 hdr @ array_bytes 4 vals @
        array_bytes 2 (first # final # map of_nat cs) @ code) =
       Some (xs, array_bytes 4 hdr @ array_bytes 4 vals @
        array_bytes 2 (first # final # replicate (length cs) 0) @ code)"
    by (rule canonical_bytes [OF assms(1-6)])
  let ?z = "first # final # replicate (length cs) 0 :: u16 list"
  have after: "after = array_bytes 4 hdr @ array_bytes 4 vals @ array_bytes 2 ?z @ code"
    using *(1,8) assms(7,8) by simp
  obtain v vs where vals: "vals = v # vs" using *(4) by (cases vals) auto
  have "skip_zeros ?z 2 b = None" for b
    by (rule skip_zeros_end) (auto simp: nth_Cons')
  then have none: "huffman_build_decode_codebook_canonical vals ?z = None"
    using *(6,7) by (simp add: huffman_build_decode_codebook_canonical_def vals)
  have r1: "read_array 4 3 (array_bytes 4 hdr @ bs) = Some (hdr, bs)" for bs
    by (rule read_array_bytes) (use *(2) in simp_all)
  have r2: "read_array 2 2 (array_bytes 2 ?z @ bs) =
      Some ([first, final], array_bytes 2 (replicate (length cs) 0 :: u16 list) @ bs)" for bs
    using read_array_bytes [of 2 "[first, final]" 2 "array_bytes 2 (replicate (length cs) 0 :: u16 list) @ bs"] by simp
  have r3: "read_array 2 (nat (sint final - sint first + 3)) (array_bytes 2 ?z @ bs) = Some (?z, bs)" for bs
    by (rule read_array_bytes) (use *(5) in simp_all)
  have r4: "read_array 4 (unat (hdr ! 1)) (array_bytes 4 vals @ bs) = Some (vals, bs)" for bs
    by (rule read_array_bytes) (use *(3) in simp_all)
  show ?thesis
    unfolding after huffman_decode_canonical_def
    by (simp add: r1 r2 r3 r4 [simplified] none Let_def del: array_bytes_simps)
qed

text \<open>Witness of C16: the array \<open>{7, 7, 9}\<close>.\<close>

theorem huffman_canonical_consumes_witness:
  "\<exists>bytes after. huffman_encode_canonical (heap_ops huf_cnt) (heap_ops leaf_lvl) rev [7, 7, 9] = Some bytes \<and>
     huffman_decode_canonical bytes = Some ([7, 7, 9], after) \<and> huffman_decode_canonical after = None"
proof -
  note qs = heap.priority_queue_axioms [of huf_cnt] heap.priority_queue_axioms [of leaf_lvl] iteration_order_rev
  have small: "[7, 7, 9 :: int32] \<noteq> []" "length [7, 7, 9 :: int32] < 2 ^ 21" "card (set [7, 7, 9 :: int32]) < 2 ^ 16"
    by simp_all
  obtain bytes after where "huffman_encode_canonical (heap_ops huf_cnt) (heap_ops leaf_lvl) rev [7, 7, 9] = Some bytes"
    "huffman_decode_canonical bytes = Some ([7, 7, 9], after)"
    using canonical_bytes [OF qs small] by metis
  with huffman_canonical_consumes [OF qs small] show ?thesis by blast
qed

text \<open>C15. Code lengths are bounded: below \<open>2 ^ 21\<close> values no code of the plain codebook is longer
  than 29 bits, so the 32-bit code words, the shifts of the builder and the table size
  \<open>1 << max_bitlen\<close> stay in range.\<close>

theorem huffman_code_length:
  assumes "priority_queue Q huf_cnt elems ok" "iteration_order ord" "xs \<noteq> []" "length xs < 2 ^ 21"
  shows "\<exists>t b. huffman_build_tree Q ord (count_freq xs) = Some t \<and>
    huffman_build_encode_codebook t = Some b \<and> fst ` set (bk_codebook b) = set xs \<and>
    (\<forall>(v, e) \<in> set (bk_codebook b). cb_bitlen e \<le> 29 \<and> 0 \<le> cb_code e \<and> cb_code e < 2 ^ cb_bitlen e)"
proof -
  obtain t where t: "huffman_build_tree Q ord (count_freq xs) = Some t" "huf_ok t" "tree_height t \<le> 29"
    "mset (tree_leaves t) = mset (map (\<lambda>(v, n). (v, int n)) (count_freq xs))"
    by (rule build_tree_input [OF assms])
  let ?M = "tree_height t" and ?ls = "level_leaves t 0"
  have lo: "layout_ok xs ?M ?ls"
    using tree_layout [OF t(2,3) assms(3,4) t(4) refl] level_leaves_layout [of 0 t ?M 0] by simp
  obtain b where b: "book_list ?ls book_init = Some b" "bk_codebook b = laid_out ?M 0 ?ls"
    by (rule layout_book [OF lo])
  have "\<forall>(v, e) \<in> set (bk_codebook b). cb_bitlen e \<le> 29 \<and> 0 \<le> cb_code e \<and> cb_code e < 2 ^ cb_bitlen e"
    using laid_out_inverts [of ?M 0 ?ls "[]"] lo b(2) t(3)
    by (fastforce simp: layout_ok_def table_inverts_def)
  moreover have "fst ` set (bk_codebook b) = set xs"
    using lo input_leaves_props(2) laid_out_keys(1) b(2) by (metis layout_ok_def list.set_map)
  moreover have "huffman_build_encode_codebook t = Some b"
    using b(1) by (simp add: huffman_build_encode_codebook_def encode_walk_leaves stack_leaves_def)
  ultimately show ?thesis using t(1) by blast
qed

text \<open>Witness of C15.\<close>

theorem huffman_code_length_witness:
  "\<exists>t b. huffman_build_tree (heap_ops huf_cnt) rev (count_freq [7, 7, 9]) = Some t \<and>
    huffman_build_encode_codebook t = Some b \<and> fst ` set (bk_codebook b) = set [7, 7, 9] \<and>
    (\<forall>(v, e) \<in> set (bk_codebook b). cb_bitlen e \<le> 29 \<and> 0 \<le> cb_code e \<and> cb_code e < 2 ^ cb_bitlen e)"
  by (rule huffman_code_length [OF heap.priority_queue_axioms iteration_order_rev]) simp_all

end
