(* ===== verification/Hybrid.thy ===== *)
theory Hybrid
  imports Ovlq Huffman_Roundtrip
begin

text \<open>
  The hybrid encoder of Machete, \<open>Machete/machete/hybrid.cpp\<close>: values that occur once are
  replaced by one of them (\<open>rare_sym\<close>) and stored apart; the rest is Huffman coded canonically, and
  the table of values followed by the rare ones is written as variable-length quantities.

  \<open>rare_sym\<close> is uninitialised when no value occurs once; its initial contents are the argument
  \<open>junk\<close>.  A negative length read from a header fails.
\<close>

section \<open>Partition\<close>

text \<open>\<open>freq[x]\<close>: an absent key is inserted with zero.\<close>

definition freq_at :: "(int32 \<times> nat) list \<Rightarrow> int32 \<Rightarrow> nat \<times> (int32 \<times> nat) list" where
  "freq_at freq x = (case map_of freq x of None \<Rightarrow> (0, map_update x 0 freq) | Some n \<Rightarrow> (n, freq))"

definition map_erase :: "'k \<Rightarrow> ('k \<times> 'v) list \<Rightarrow> ('k \<times> 'v) list" where
  "map_erase x m = filter (\<lambda>(k, v). k \<noteq> x) m"

definition count_rares :: "(int32 \<times> nat) list \<Rightarrow> int32 \<Rightarrow> nat \<times> int32" where
  "count_rares entries junk =
     foldl (\<lambda>(rare_cnt, rare_sym) (v, n).
       if n = 1 then (rare_cnt + 1, if rare_cnt = 0 then v else rare_sym) else (rare_cnt, rare_sym))
       (0, junk) entries"

fun extract_rares ::
  "int32 \<Rightarrow> (int32 \<times> nat) list \<Rightarrow> int32 list \<Rightarrow> (int32 \<times> nat) list \<times> int32 list \<times> int32 list" where
  "extract_rares rare_sym freq [] = (freq, [], [])"
| "extract_rares rare_sym freq (x # xs) =
     (let (n, freq) = freq_at freq x
      in if n = 1
         then let (freq, rares, ys) = extract_rares rare_sym (map_erase x freq) xs
              in (freq, x # rares, rare_sym # ys)
         else let (freq, rares, ys) = extract_rares rare_sym freq xs in (freq, rares, x # ys))"

record partition =
  pt_input :: "int32 list"
  pt_low :: "int32 list"
  pt_rare_cnt :: nat
  pt_rare_sym :: int32
  pt_book :: book_state

text \<open>The codebook builder stores the values at the front of \<open>low_redundancy_data\<close>, which has been
  resized for them.\<close>

definition hybrid_data_partition ::
  "(huf_tree, 'q) pq_ops \<Rightarrow> (leaf, 'p) pq_ops \<Rightarrow> ((int32 \<times> nat) list \<Rightarrow> (int32 \<times> nat) list) \<Rightarrow> int32 \<Rightarrow>
   int32 list \<Rightarrow> partition option" where
  "hybrid_data_partition Q P ord junk xs =
     (let freq = count_freq xs;
          (rare_cnt, rare_sym) = count_rares (ord freq) junk;
          (freq, low, xs, rare_cnt) =
            (if rare_cnt \<le> 1 then (freq, replicate (length freq) 0, xs, 0)
             else let (freq', rares, ys) = extract_rares rare_sym freq xs
                  in (map_update rare_sym rare_cnt freq',
                      replicate (length freq + 1 - rare_cnt) 0 @ rares, ys, rare_cnt))
      in do {
        root \<leftarrow> huffman_build_tree Q ord freq;
        b \<leftarrow> huffman_build_canonical_encode_codebook P root;
        (if length (bk_vals b) \<le> length low
         then Some \<lparr>pt_input = xs, pt_low = bk_vals b @ drop (length (bk_vals b)) low,
                    pt_rare_cnt = rare_cnt, pt_rare_sym = rare_sym, pt_book = b\<rparr>
         else None) })"

section \<open>Encoder\<close>

definition hybrid_encode ::
  "(huf_tree, 'q) pq_ops \<Rightarrow> (leaf, 'p) pq_ops \<Rightarrow> ((int32 \<times> nat) list \<Rightarrow> (int32 \<times> nat) list) \<Rightarrow> int32 \<Rightarrow>
   int32 list \<Rightarrow> u8 list option" where
  "hybrid_encode Q P ord junk xs = do {
     p \<leftarrow> hybrid_data_partition Q P ord junk xs;
     let cb = bk_codebook (pt_book p);
     let low = pt_low p;
     let code_size = nat ((bk_total (pt_book p) + 31) div 32 * 4);
     (if cb = [] \<or> length low < length cb then None
      else do {
        let lens = map (\<lambda>v. cb_bitlen (cb_get cb v)) (take (length cb) low);
        let min_bitlen = (of_nat (lens ! 0) :: u16);
        let max_bitlen = (of_nat (lens ! (length cb - 1)) :: u16);
        ovlq_out \<leftarrow> ovlq_encode low;
        cnts \<leftarrow> count_lengths lens (sint min_bitlen - 1) [];
        codes \<leftarrow> huffman_store_code cb (pt_input p) (replicate (code_size div 4) 0) code_size;
        Some (array_bytes 4 [of_nat (length xs), of_nat (pt_rare_cnt p), pt_rare_sym p,
                of_nat (length cb), of_nat code_size, of_nat (length ovlq_out) :: int32] @
              array_bytes 2 (min_bitlen # max_bitlen # cnts) @ ovlq_out @ words_bytes codes) }) }"

section \<open>Decoder\<close>

definition nat_of_i32 :: "int32 \<Rightarrow> nat option" where
  "nat_of_i32 w = (if sint w < 0 then None else Some (nat (sint w)))"

fun restore_rares :: "int32 \<Rightarrow> int32 list \<Rightarrow> int32 list \<Rightarrow> int32 list option" where
  "restore_rares rare_sym rares [] = Some []"
| "restore_rares rare_sym rares (y # ys) =
     (if y = rare_sym
      then case rares of
             [] \<Rightarrow> None
           | r # rares \<Rightarrow> map_option ((#) r) (restore_rares rare_sym rares ys)
      else map_option ((#) y) (restore_rares rare_sym rares ys))"

text \<open>As in the canonical Huffman decoder the counters are counted down in the input, and the second
  component of the result is the buffer afterwards.\<close>

definition hybrid_decode :: "nat \<Rightarrow> u8 list \<Rightarrow> (int32 list \<times> u8 list) option" where
  "hybrid_decode ctz0 inp = do {
     (hdr, payload) \<leftarrow> read_array 4 6 inp;
     len \<leftarrow> nat_of_i32 (hdr ! 0);
     rare_cnt \<leftarrow> nat_of_i32 (hdr ! 1);
     let rare_sym = hdr ! 2;
     val_cnt \<leftarrow> nat_of_i32 (hdr ! 3);
     code_size \<leftarrow> nat_of_i32 (hdr ! 4);
     ovlq_size \<leftarrow> nat_of_i32 (hdr ! 5);
     (ends, _) \<leftarrow> read_array 2 2 payload;
     (tree_st, rest) \<leftarrow> read_array 2 (nat (sint (ends ! 1 :: u16) - sint (ends ! 0) + 3)) payload;
     (ovlq_out, huffman_out) \<leftarrow> split_at ovlq_size rest;
     low \<leftarrow> ovlq_decode ctz0 ovlq_out;
     (if length low \<noteq> val_cnt + rare_cnt then None
      else do {
        (table, index_bitlen, cnts) \<leftarrow> huffman_build_decode_codebook_canonical (take val_cnt low) tree_st;
        ys \<leftarrow> huffman_decode_data huffman_out code_size table index_bitlen len;
        xs \<leftarrow> (if rare_cnt \<noteq> 0 then restore_rares rare_sym (drop val_cnt low) ys else Some ys);
        Some (xs, array_bytes 4 hdr @ array_bytes 2 cnts @ ovlq_out @ huffman_out) }) }"

section \<open>What the partition computes\<close>

definition rares :: "int32 list \<Rightarrow> int32 list" where
  "rares xs = filter (\<lambda>x. count_list xs x = 1) xs"

definition mask_rares :: "int32 \<Rightarrow> int32 list \<Rightarrow> int32 list" where
  "mask_rares s xs = map (\<lambda>x. if count_list xs x = 1 then s else x) xs"

lemma count_rares_filter:
  "count_rares entries junk =
     (let es = filter (\<lambda>(v, n). n = 1) entries in (length es, if es = [] then junk else fst (hd es)))"
proof -
  let ?f = "\<lambda>(rare_cnt, rare_sym) (v, n). if n = (1 :: nat)
      then (rare_cnt + 1, if rare_cnt = 0 then v else rare_sym) else (rare_cnt, rare_sym)"
  have "foldl ?f (k, s) entries =
      (let es = filter (\<lambda>(v, n). n = 1) entries
       in (k + length es, if es = [] \<or> k \<noteq> 0 then s else fst (hd es)))" for k :: nat and s :: int32
    by (induction entries arbitrary: k s) (auto simp: Let_def)
  from this [of 0] show ?thesis by (simp add: count_rares_def Let_def)
qed

lemma distinct_rares: "distinct (rares xs)"
proof -
  have "\<forall>x. count_list xs x \<le> count_list zs x \<Longrightarrow> distinct (filter (\<lambda>x. count_list zs x = 1) xs)" for zs
  proof (induction xs)
    case (Cons x xs)
    have le: "count_list (x # xs) y \<le> count_list zs y" for y using Cons.prems by blast
    have "count_list xs y \<le> count_list zs y" for y using le [of y] by (auto split: if_splits)
    moreover have "x \<notin> set xs" if "count_list zs x = 1"
      using le [of x] that by (simp flip: count_list_0_iff)
    ultimately show ?case using Cons.IH by simp
  qed simp
  then show ?thesis by (simp add: rares_def)
qed

lemma rare_entries: "length (filter (\<lambda>(v, n). n = 1) (count_freq xs)) = length (rares xs)"
proof -
  let ?es = "filter (\<lambda>(v, n). n = 1) (count_freq xs)"
  have "distinct (map fst ?es)" using count_freq_distinct by (rule distinct_map_filter)
  moreover have "set (map fst ?es) = set (rares xs)"
    by (force simp: count_freq_set rares_def)
  ultimately have "length (map fst ?es) = length (rares xs)"
    using distinct_rares distinct_card by metis
  then show ?thesis by simp
qed

lemma extract_rares_eq:
  assumes "zs = pre @ xs"
    "freq = filter (\<lambda>(v, n). \<not> (n = 1 \<and> v \<in> set pre)) (count_freq zs)"
  shows "extract_rares s freq xs =
    (filter (\<lambda>(v, n). n \<noteq> 1) (count_freq zs), filter (\<lambda>x. count_list zs x = 1) xs,
     map (\<lambda>x. if count_list zs x = 1 then s else x) xs)"
  using assms
proof (induction xs arbitrary: pre freq)
  case Nil
  then show ?case by (auto intro!: filter_cong simp: count_freq_set)
next
  case (Cons x xs)
  have new: "x \<notin> set pre" if "count_list zs x = 1"
    using that Cons.prems(1) by (simp add: count_list_0_iff)
  have dist: "distinct (map fst freq)"
    unfolding Cons.prems(2) using count_freq_distinct by (rule distinct_map_filter)
  have "(x, count_list zs x) \<in> set freq"
    using Cons.prems new by (auto simp: count_freq_set)
  then have at: "freq_at freq x = (count_list zs x, freq)"
    using dist by (simp add: freq_at_def)
  have zs: "zs = (pre @ [x]) @ xs" using Cons.prems(1) by simp
  show ?case
  proof (cases "count_list zs x = 1")
    case True
    have "map_erase x freq = filter (\<lambda>(v, n). \<not> (n = 1 \<and> v \<in> set (pre @ [x]))) (count_freq zs)"
      unfolding map_erase_def Cons.prems(2) filter_filter
      using True by (intro filter_cong) (auto simp: count_freq_set)
    from Cons.IH [OF zs this] True show ?thesis by (simp add: at)
  next
    case False
    have "freq = filter (\<lambda>(v, n). \<not> (n = 1 \<and> v \<in> set (pre @ [x]))) (count_freq zs)"
      unfolding Cons.prems(2) using False by (intro filter_cong) (auto simp: count_freq_set)
    from Cons.IH [OF zs this] False show ?thesis by (simp add: at)
  qed
qed

lemma extract_rares_input:
  "extract_rares s (count_freq xs) xs =
     (filter (\<lambda>(v, n). n \<noteq> 1) (count_freq xs), rares xs, mask_rares s xs)"
  using extract_rares_eq [of xs "[]" xs "count_freq xs" s] by (simp add: rares_def mask_rares_def case_prod_unfold)

text \<open>The decoder puts the rare values back.\<close>

lemma restore_mask:
  assumes "count_list zs s = 1"
  shows "restore_rares s (filter (\<lambda>x. count_list zs x = 1) xs)
     (map (\<lambda>x. if count_list zs x = 1 then s else x) xs) = Some xs"
  using assms by (induction xs) auto

lemma count_mask:
  assumes "count_list xs s = 1"
  shows "count_list (mask_rares s xs) v =
    (if v = s then length (rares xs) else if count_list xs v = 1 then 0 else count_list xs v)"
proof -
  have "count_list (map (\<lambda>x. if count_list zs x = 1 then s else x) xs) v =
    (if v = s then length (filter (\<lambda>x. count_list zs x = 1) xs)
     else if count_list zs v = 1 then 0 else count_list xs v)" if "count_list zs s = 1" for zs
    using that by (induction xs) auto
  from this [OF assms] show ?thesis by (simp add: mask_rares_def rares_def)
qed

lemma set_mask:
  assumes "count_list xs s = 1"
  shows "set (mask_rares s xs) = insert s {v \<in> set xs. count_list xs v \<noteq> 1}"
proof -
  have "s \<in> set xs" using assms by (metis count_list_0_iff zero_neq_one)
  then show ?thesis using assms by (auto simp: mask_rares_def)
qed

lemma masked_freq:
  assumes "count_list xs s = 1"
  shows "mset (map_update s (length (rares xs)) (filter (\<lambda>(v, n). n \<noteq> 1) (count_freq xs))) =
    mset (count_freq (mask_rares s xs))"
proof -
  let ?F = "filter (\<lambda>(v, n). n \<noteq> 1) (count_freq xs)"
  have fresh: "s \<notin> set (map fst ?F)" using assms by (auto simp: count_freq_set)
  have "distinct (map fst ?F)" using count_freq_distinct by (rule distinct_map_filter)
  then have "distinct (map fst (?F @ [(s, length (rares xs))]))" using fresh by simp
  then have "distinct (?F @ [(s, length (rares xs))])" by (simp only: distinct_map)
  moreover have "distinct (count_freq (mask_rares s xs))"
    using count_freq_distinct distinct_map by blast
  moreover have "set (?F @ [(s, length (rares xs))]) = set (count_freq (mask_rares s xs))"
    using assms by (auto simp: count_freq_set set_mask [OF assms] count_mask [OF assms] split: if_splits)
  ultimately show ?thesis
    by (simp only: update_fresh [OF fresh] set_eq_iff_mset_eq_distinct)
qed

section \<open>Round trip\<close>

lemma card_mask:
  assumes "count_list xs s = 1"
  shows "card (set (mask_rares s xs)) = Suc (card {v \<in> set xs. count_list xs v \<noteq> 1})"
  using assms by (simp add: set_mask)

lemma card_repeated: "card (set xs) = card {v \<in> set xs. count_list xs v \<noteq> 1} + length (rares xs)"
proof -
  have "set xs = {v \<in> set xs. count_list xs v \<noteq> 1} \<union> set (rares xs)" by (auto simp: rares_def)
  moreover have "{v \<in> set xs. count_list xs v \<noteq> 1} \<inter> set (rares xs) = {}" by (auto simp: rares_def)
  ultimately have "card (set xs) = card {v \<in> set xs. count_list xs v \<noteq> 1} + card (set (rares xs))"
    by (metis (lifting) List.finite_set card_Un_disjoint finite_Un)
  then show ?thesis using distinct_card [OF distinct_rares] by simp
qed

text \<open>Both branches of the partition in one shape: Huffman coding is applied to \<open>ys\<close>, and \<open>tail\<close>
  is what has been taken out of it.\<close>

definition extracted :: "int32 list \<Rightarrow> int32 \<Rightarrow> int32 list \<Rightarrow> int32 list \<Rightarrow> bool" where
  "extracted xs s ys tail \<longleftrightarrow>
     length ys = length xs \<and> set ys \<subseteq> set xs \<and> set tail \<subseteq> set xs \<and> length tail \<le> length xs \<and>
     card (set ys) \<le> Suc (card {v \<in> set xs. count_list xs v \<noteq> 1}) \<and>
     (if tail = [] then ys = xs else restore_rares s tail ys = Some xs)"

lemma extracted_plain: "length (rares xs) \<le> 1 \<Longrightarrow> extracted xs s xs []"
  by (simp add: extracted_def card_repeated)

lemma extracted_masked:
  assumes "rares xs \<noteq> []" "count_list xs s = 1"
  shows "extracted xs s (mask_rares s xs) (rares xs)"
proof -
  have "s \<in> set xs" using assms(2) by (metis count_list_0_iff zero_neq_one)
  moreover have "restore_rares s (rares xs) (mask_rares s xs) = Some xs"
    using restore_mask [OF assms(2)] by (simp add: rares_def mask_rares_def)
  ultimately show ?thesis
    using assms card_mask [OF assms(2)] set_mask [OF assms(2)]
    by (auto simp: extracted_def rares_def) (simp_all add: mask_rares_def)
qed

lemma partition_split:
  assumes "iteration_order ord"
  obtains s ys tail freq where "extracted xs s ys tail" "mset freq = mset (count_freq ys)"
    "\<forall>root b. huffman_build_tree Q ord freq = Some root \<longrightarrow>
       huffman_build_canonical_encode_codebook P root = Some b \<longrightarrow>
       length (bk_vals b) = card (set ys) \<longrightarrow>
       hybrid_data_partition Q P ord junk xs =
         Some \<lparr>pt_input = ys, pt_low = bk_vals b @ tail, pt_rare_cnt = length tail,
               pt_rare_sym = s, pt_book = b\<rparr>"
proof -
  let ?es = "filter (\<lambda>(v, n). n = 1) (ord (count_freq xs))"
  define s where "s = (if ?es = [] then junk else fst (hd ?es))"
  have m: "mset ?es = mset (filter (\<lambda>(v, n). n = 1) (count_freq xs))"
    using iteration_orderD(1) [OF assms, of "count_freq xs"] by (simp only: mset_filter)
  have len: "length ?es = length (rares xs)" using mset_eq_length [OF m] rare_entries by simp
  have cr: "count_rares (ord (count_freq xs)) junk = (length (rares xs), s)"
    unfolding count_rares_filter Let_def len s_def by (rule refl)
  show thesis
  proof (cases "length (rares xs) \<le> 1")
    case True
    show thesis
      by (rule that [OF extracted_plain [OF True, of s] refl])
         (use True in \<open>simp add: hybrid_data_partition_def cr length_count_freq\<close>)
  next
    case False
    then have ne: "?es \<noteq> []" "rares xs \<noteq> []" using len by auto
    have "hd ?es \<in> set ?es" using ne(1) by (rule hd_in_set)
    then have one: "count_list xs s = 1"
      using iteration_orderD(3) [OF assms, of "count_freq xs"] ne(1) by (auto simp: s_def count_freq_set)
    have size: "length (count_freq xs) + 1 - length (rares xs) = card (set (mask_rares s xs))"
      using card_repeated [of xs] by (simp add: length_count_freq card_mask [OF one])
    show thesis
      by (rule that [OF extracted_masked [OF ne(2) one] masked_freq [OF one]])
         (use False in \<open>simp add: hybrid_data_partition_def cr extract_rares_input size [simplified]\<close>)
  qed
qed

lemma nat_of_i32_of_nat: "n < 2 ^ 31 \<Longrightarrow> nat_of_i32 (of_nat n) = Some n"
  by (simp add: nat_of_i32_def signed_of_nat signed_take_bit_int_eq_self)

lemma hybrid_decode_frame:
  fixes cnts :: "u16 list"
  assumes "n < 2 ^ 31" "length vals < 2 ^ 31" "length tail < 2 ^ 31" "code_size < 2 ^ 31" "length ov < 2 ^ 31"
    "nat (sint final - sint first + 3) = length cnts + 2"
    "ovlq_decode ctz0 ov = Some (vals @ tail)"
    "huffman_build_decode_codebook_canonical vals (first # final # cnts) = Some (T, M, cnts')"
    "huffman_decode_data code code_size T M n = Some ys"
    "if tail = [] then ys = xs else restore_rares s tail ys = Some xs"
  shows "hybrid_decode ctz0 (array_bytes 4 [of_nat n, of_nat (length tail), s, of_nat (length vals),
      of_nat code_size, of_nat (length ov) :: int32] @ array_bytes 2 (first # final # cnts) @ ov @ code) =
    Some (xs, array_bytes 4 [of_nat n, of_nat (length tail), s, of_nat (length vals),
      of_nat code_size, of_nat (length ov) :: int32] @ array_bytes 2 cnts' @ ov @ code)"
proof -
  let ?mid = "array_bytes 2 (first # final # cnts)"
  let ?hdr = "[of_nat n, of_nat (length tail), s, of_nat (length vals), of_nat code_size,
      of_nat (length ov) :: int32]"
  have r1: "read_array 4 6 (array_bytes 4 ?hdr @ bs) = Some (?hdr, bs)" for bs
    by (rule read_array_bytes) simp_all
  have r2: "read_array 2 2 (?mid @ bs) = Some ([first, final], array_bytes 2 cnts @ bs)" for bs
    using read_array_bytes [of 2 "[first, final]" 2 "array_bytes 2 cnts @ bs"] by simp
  have r3: "read_array 2 (nat (sint final - sint first + 3)) (?mid @ bs) = Some (first # final # cnts, bs)" for bs
    by (rule read_array_bytes) (use assms(6) in simp_all)
  note n = assms(1-5) [THEN nat_of_i32_of_nat]
  show ?thesis
    unfolding hybrid_decode_def
    using assms(10) by (simp add: r1 r2 r3 n assms(7-9) Let_def split: if_splits del: array_bytes_simps)
qed

lemma hybrid_encode_decode:
  assumes "priority_queue Q huf_cnt elems ok" "priority_queue P leaf_lvl elems' ok'" "iteration_order ord"
    "xs \<noteq> []" "length xs < 2 ^ 21" "card {v \<in> set xs. count_list xs v \<noteq> 1} < 2 ^ 16 - 1"
    "ctz0 = 32 \<or> (\<forall>x \<in> set xs. data_bitlen x < 32)"
  shows "\<exists>bytes after. hybrid_encode Q P ord junk xs = Some bytes \<and>
    hybrid_decode ctz0 bytes = Some (xs, after)"
proof -
  obtain s ys tail freq where sp: "extracted xs s ys tail" "mset freq = mset (count_freq ys)"
    "\<forall>root b. huffman_build_tree Q ord freq = Some root \<longrightarrow>
       huffman_build_canonical_encode_codebook P root = Some b \<longrightarrow>
       length (bk_vals b) = card (set ys) \<longrightarrow>
       hybrid_data_partition Q P ord junk xs =
         Some \<lparr>pt_input = ys, pt_low = bk_vals b @ tail, pt_rare_cnt = length tail,
               pt_rare_sym = s, pt_book = b\<rparr>"
    by (rule partition_split [OF assms(3), of xs Q P junk])
  have ex: "length ys = length xs" "set ys \<subseteq> set xs" "set tail \<subseteq> set xs" "length tail \<le> length xs"
    "if tail = [] then ys = xs else restore_rares s tail ys = Some xs"
    using sp(1) by (auto simp: extracted_def)
  have ys: "ys \<noteq> []" "length ys < 2 ^ 21" "card (set ys) < 2 ^ 16" "card (set ys) \<le> length xs"
    using assms(4-6) sp(1) card_length [of ys] by (auto simp: extracted_def)
  obtain t b and first final :: u16 and cs T M out where c:
    "huffman_build_tree Q ord freq = Some t" "huffman_build_canonical_encode_codebook P t = Some b"
    "bk_vals b \<noteq> []" "length (bk_codebook b) = length (bk_vals b)" "length (bk_vals b) = card (set ys)"
    "set (bk_vals b) = set ys"
    "of_nat (book_lengths b ! 0) = first"
    "of_nat (book_lengths b ! (length (bk_vals b) - 1)) = final"
    "count_lengths (book_lengths b) (int (unat first) - 1) [] = Some (map of_nat cs)"
    "nat (sint final - sint first + 3) = length cs + 2" "0 \<le> sint final" "sint final \<le> 30"
    "sint first = int (unat first)"
    "huffman_build_decode_codebook_canonical (bk_vals b) (first # final # map of_nat cs) =
       Some (T, M, first # final # replicate (length cs) 0)"
    "huffman_store_code (bk_codebook b) ys (replicate (nat ((bk_total b + 31) div 32 * 4) div 4) 0)
       (nat ((bk_total b + 31) div 32 * 4)) = Some out"
    "nat ((bk_total b + 31) div 32 * 4) < 2 ^ 31"
    "length out = nat ((bk_total b + 31) div 32 * 4) div 4"
    "huffman_decode_data (words_bytes out) (nat ((bk_total b + 31) div 32 * 4)) T M (length ys) = Some ys"
    by (rule canonical_core [OF assms(1-3) ys(1-3) sp(2)])
  have low: "bk_vals b @ tail \<noteq> []" "length (bk_vals b @ tail) < 2 ^ 25"
    "ctz0 = 32 \<or> (\<forall>x \<in> set (bk_vals b @ tail). data_bitlen x < 32)"
    using c(3,5,6) ys(4) ex assms(5,7) by auto
  obtain ov where ov: "ovlq_encode (bk_vals b @ tail) = Some ov"
    "ovlq_decode ctz0 ov = Some (bk_vals b @ tail)" "length ov < 2 ^ 28"
    by (rule ovlq_encode_decode [OF low])
  have fin: "bk_codebook b \<noteq> []" using c(3,4) by auto
  let ?bytes = "array_bytes 4 [of_nat (length ys), of_nat (length tail), s, of_nat (length (bk_vals b)),
      of_nat (nat ((bk_total b + 31) div 32 * 4)), of_nat (length ov) :: int32] @
      array_bytes 2 (first # final # map of_nat cs) @ ov @ words_bytes out"
  have "hybrid_encode Q P ord junk xs = Some ?bytes"
    using fin c(7-9)
    by (simp add: hybrid_encode_def sp(3) [rule_format, OF c(1,2,5)] c(4,13,15) ov(1) ex(1) Let_def
        flip: book_lengths_def del: array_bytes_simps)
  moreover have "length (bk_vals b) < 2 ^ 31" "length ys < 2 ^ 31" "length tail < 2 ^ 31" "length ov < 2 ^ 31"
    using c(5) ys ex(4) assms(5) ov(3) by simp_all
  then have "hybrid_decode ctz0 ?bytes = Some (xs, array_bytes 4 [of_nat (length ys), of_nat (length tail), s,
      of_nat (length (bk_vals b)), of_nat (nat ((bk_total b + 31) div 32 * 4)), of_nat (length ov) :: int32] @
      array_bytes 2 (first # final # replicate (length cs) 0) @ ov @ words_bytes out)"
    by (intro hybrid_decode_frame [OF _ _ _ c(16) _ _ ov(2) c(14,18) ex(5)]) (simp_all add: c(10))
  ultimately show ?thesis by blast
qed



end
