(* ===== verification/Lorenzo.thy ===== *)
theory Lorenzo
  imports Ieee_Double
begin

text \<open>
  The predictor of Machete, \<open>Machete/machete/predict.cpp\<close>: each value is predicted by the previous
  reconstructed one, the difference is quantised with a bin of almost twice the error bound, and
  values too far away are stored as outliers.  Floating-point operations are those of
  \<open>Ieee_Double\<close>; the cast of a quotient to \<open>int32_t\<close> is undefined out of range.
\<close>

section \<open>Model\<close>

text \<open>\<open>0.999\<close> as a double, and \<open>INT32_MIN\<close>.\<close>

definition lit_0999 :: double where
  "lit_0999 = 0x3FEFF7CED916872B"

definition int32_min :: int32 where
  "int32_min = 0x80000000"

definition double_sign_bit :: u64 where
  "double_sign_bit = push_bit 63 1"

definition diff :: "double \<Rightarrow> double \<Rightarrow> double \<Rightarrow> double \<Rightarrow> double \<Rightarrow> int32 option" where
  "diff data predicted e e2 max_diff =
     (let d = f64_sub data predicted;
          d_abs = d AND NOT double_sign_bit
      in if f64_lt max_diff d_abs then Some int32_min
         else
           let comp = (d AND double_sign_bit) OR e;
               d = f64_add d comp
           in map_option word_of_int (f64_to_int 32 (f64_div d e2)))"

fun lorenzo_loop ::
  "double \<Rightarrow> double \<Rightarrow> double \<Rightarrow> double \<Rightarrow> double list \<Rightarrow> (int32 list \<times> double list) option" where
  "lorenzo_loop e e2 max_diff predicted [] = Some ([], [])"
| "lorenzo_loop e e2 max_diff predicted (x # xs) = do {
     q \<leftarrow> diff x predicted e e2 max_diff;
     (if q = int32_min
      then do {
        (qs, outs) \<leftarrow> lorenzo_loop e e2 max_diff x xs;
        Some (q # qs, x # outs) }
      else do {
        let predicted = f64_add predicted (f64_mul (f64_of_int (sint q)) e2);
        (qs, outs) \<leftarrow> lorenzo_loop e e2 max_diff predicted xs;
        Some (q # qs, outs) }) }"

definition lorenzo1_diff :: "double list \<Rightarrow> double \<Rightarrow> (int32 list \<times> u8 list) option" where
  "lorenzo1_diff input error =
     (case input of
        [] \<Rightarrow> None
      | first # xs \<Rightarrow> do {
          let e = f64_mul error lit_0999;
          let e2 = f64_mul e lit_2;
          let max_diff = f64_mul e2 (f64_of_int (2 ^ 31 - 1));
          (qs, outs) \<leftarrow> lorenzo_loop e e2 max_diff first xs;
          Some (qs, array_bytes 8 [error, first] @ array_bytes 8 outs) })"

fun correct_plain :: "double \<Rightarrow> double \<Rightarrow> int32 list \<Rightarrow> double list" where
  "correct_plain e2 prev [] = []"
| "correct_plain e2 prev (q # qs) =
     (let y = f64_add prev (f64_mul e2 (f64_of_int (sint q))) in y # correct_plain e2 y qs)"

fun correct_outliers :: "double \<Rightarrow> double \<Rightarrow> int32 list \<Rightarrow> double list \<Rightarrow> double list option" where
  "correct_outliers e2 prev [] outs = Some []"
| "correct_outliers e2 prev (q # qs) outs =
     (if q = int32_min
      then case outs of
             [] \<Rightarrow> None
           | y # outs \<Rightarrow> map_option ((#) y) (correct_outliers e2 y qs outs)
      else
        let y = f64_add prev (f64_mul e2 (f64_of_int (sint q)))
        in map_option ((#) y) (correct_outliers e2 y qs outs))"

definition lorenzo1_correct :: "int32 list \<Rightarrow> u8 list \<Rightarrow> double list option" where
  "lorenzo1_correct input predictor_out = do {
     (config, rest) \<leftarrow> read_array 8 2 predictor_out;
     let e2 = f64_mul (f64_mul (config ! 0) lit_0999) lit_2;
     let first = config ! 1;
     (if length predictor_out = 16 then Some (first # correct_plain e2 first input)
      else do {
        (outs, _) \<leftarrow> read_array 8 (length rest div 8) rest;
        map_option ((#) first) (correct_outliers e2 first input outs) }) }"

section \<open>The decoder follows the encoder\<close>

lemma correct_plain_outliers:
  "int32_min \<notin> set qs \<Longrightarrow> correct_outliers e2 prev qs [] = Some (correct_plain e2 prev qs)"
  by (induction qs arbitrary: prev) (auto simp: Let_def)

lemma loop_outliers:
  "lorenzo_loop e e2 m p xs = Some (qs, outs) \<Longrightarrow> length qs = length xs \<and> (outs = [] \<longrightarrow> int32_min \<notin> set qs)"
  by (induction e e2 m p xs arbitrary: qs outs rule: lorenzo_loop.induct)
     (auto split: Option.bind_splits if_splits simp: Let_def)

lemma loop_marked:
  "lorenzo_loop e e2 m p xs = Some (qs, outs) \<Longrightarrow> outs \<noteq> [] \<Longrightarrow> int32_min \<in> set qs"
  by (induction e e2 m p xs arbitrary: qs outs rule: lorenzo_loop.induct)
     (auto split: Option.bind_splits if_splits simp: Let_def)

lemma lorenzo1_correct_frame:
  assumes "lorenzo_loop e e2 m first xs = Some (qs, outs)" "e2 = f64_mul (f64_mul error lit_0999) lit_2"
  shows "lorenzo1_correct qs (array_bytes 8 [error, first] @ array_bytes 8 outs) =
    map_option ((#) first) (correct_outliers e2 first qs outs)"
proof -
  have r: "read_array 8 2 (array_bytes 8 [error, first] @ bs) = Some ([error, first], bs)" for bs
    by (rule read_array_bytes) simp_all
  have r2: "read_array 8 (length (array_bytes 8 outs) div 8) (array_bytes 8 outs) = Some (outs, [])"
    using read_array_bytes [of 8 outs "length outs" "[]"] by simp
  show ?thesis
  proof (cases "outs = []")
    case True
    then show ?thesis
      using loop_outliers [OF assms(1)] correct_plain_outliers [of qs e2 first] assms(2)
      by (simp add: lorenzo1_correct_def r del: array_bytes_simps) simp
  next
    case False
    then have "length (array_bytes 8 [error, first] @ array_bytes 8 outs) \<noteq> 16" by simp
    then show ?thesis
      using r2 assms(2) by (simp add: lorenzo1_correct_def r del: array_bytes_simps)
  qed
qed

section \<open>Rounding errors of one step\<close>

text \<open>Half a unit, the absolute part of every rounding error.\<close>

definition tiny :: real where
  "tiny = 1 / 2 / real one_units"

lemma tiny_pos: "0 < tiny"
  by (simp add: tiny_def)

lemma near_tiny: "near x r \<Longrightarrow> f64_finite x \<and> \<bar>val x - r\<bar> \<le> \<bar>r\<bar> / 2 ^ 53 + tiny"
  by (simp add: near_def tiny_def)

text \<open>Error bounds for which the analysis holds, with room for the largest intermediate values.\<close>

definition bound_ok :: "real \<Rightarrow> bool" where
  "bound_ok E \<longleftrightarrow> 0 < E \<and> tiny \<le> E / 2 ^ 60 \<and> tiny \<le> 1 / 2 ^ 60 \<and> E * 2 ^ 50 \<le> f64_big \<and> 2 ^ 50 \<le> f64_big"

lemma lit_vals:
  "f64_finite lit_0999" "\<bar>val lit_0999 - 999 / 1000\<bar> \<le> 1 / 2 ^ 53" "\<not> neg lit_0999"
  "f64_finite lit_2" "val lit_2 = 2" "\<not> neg lit_2"
proof -
  have l: "lit_0999 = of_nat 0x3FEFF7CED916872B" by (simp add: lit_0999_def)
  have v: "val lit_0999 = real (2 ^ 52 + 0xFF7CED916872B) * 2 ^ 1021 / real one_units"
    "f64_finite lit_0999 = (1021 < (2046 :: nat))"
    unfolding l by (rule val_mag; simp)+
  have "val lit_0999 = real (2 ^ 52 + 0xFF7CED916872B) * (1 / 2 ^ 53)"
    unfolding v(1) times_divide_eq_right [symmetric] by (subst pow_one_units [of 1021 53]) simp_all
  then show "\<bar>val lit_0999 - 999 / 1000\<bar> \<le> 1 / 2 ^ 53" by simp
  show "f64_finite lit_0999" using v(2) by simp
  show "\<not> neg lit_0999" by (simp add: neg_def lit_0999_def)
qed (fact lit_2_val)+

lemma bin_widths:
  assumes ok: "bound_ok E" and er: "f64_finite error" "val error = E"
    and defs: "e = f64_mul error lit_0999" "e2 = f64_mul e lit_2" "m = f64_mul e2 (f64_of_int (2 ^ 31 - 1))"
  shows "f64_finite e" "f64_finite e2" "f64_finite m" "\<not> neg e" "\<not> neg e2"
    "\<bar>val e - 999 / 1000 * E\<bar> \<le> E / 2 ^ 50" "\<bar>val e2 - 1998 / 1000 * E\<bar> \<le> E / 2 ^ 48"
    "val m \<le> val e2 * (2 ^ 31 - 1) + E / 2 ^ 20"
proof -
  have E: "0 < E" "tiny \<le> E / 2 ^ 60" "E * 2 ^ 50 \<le> f64_big" using ok by (simp_all add: bound_ok_def)
  have pos: "\<not> neg error" using val_sign(1) [of error] er(2) E(1) by auto
  let ?l = "val lit_0999"
  have "\<bar>E * (?l - 999 / 1000)\<bar> \<le> E * (1 / 2 ^ 53)"
    using mult_left_mono [OF lit_vals(2), of E] E(1) by (simp add: abs_mult)
  then have El: "\<bar>E * ?l - 999 / 1000 * E\<bar> \<le> E / 2 ^ 53" by (simp add: algebra_simps)
  have "\<bar>w\<bar> \<le> f64_big" if "\<bar>w - 999 / 1000 * E\<bar> \<le> E / 2 ^ 53" for w
    using E that by (simp add: abs_if split: if_splits)
  from this [OF El] have "\<bar>val error * ?l\<bar> \<le> f64_big" by (simp only: er(2))
  from mul_near [OF er(1) lit_vals(1) this] pos lit_vals(3) defs(1)
  have e: "near e (val error * ?l)" "\<not> neg e" by simp_all
  have e': "f64_finite e" "\<bar>val e - E * ?l\<bar> \<le> \<bar>E * ?l\<bar> / 2 ^ 53 + tiny" using near_tiny [OF e(1)] er(2) by simp_all
  then show ef: "f64_finite e" and en: "\<not> neg e" using e(2) by simp_all
  have "\<bar>v - 999 / 1000 * E\<bar> \<le> E / 2 ^ 50"
    if "\<bar>v - w\<bar> \<le> \<bar>w\<bar> / 2 ^ 53 + tiny" "\<bar>w - 999 / 1000 * E\<bar> \<le> E / 2 ^ 53" for v w
    using that E by (simp add: abs_if split: if_splits)
  from this [OF e'(2) El] show ev: "\<bar>val e - 999 / 1000 * E\<bar> \<le> E / 2 ^ 50" .
  have "\<bar>val e * val lit_2\<bar> \<le> f64_big" using ev E by (simp add: lit_vals abs_if split: if_splits)
  from mul_near [OF ef lit_vals(4) this] en lit_vals(6) defs(2)
  have e2: "near e2 (val e * val lit_2)" "\<not> neg e2" by simp_all
  have e2': "f64_finite e2" "\<bar>val e2 - val e * 2\<bar> \<le> \<bar>val e * 2\<bar> / 2 ^ 53 + tiny"
    using near_tiny [OF e2(1)] by (simp_all add: lit_vals)
  then show e2f: "f64_finite e2" and "\<not> neg e2" using e2(2) by simp_all
  show e2v: "\<bar>val e2 - 1998 / 1000 * E\<bar> \<le> E / 2 ^ 48" using e2'(2) ev E by (simp add: abs_if split: if_splits)
  have i: "f64_finite (f64_of_int (2 ^ 31 - 1))" "val (f64_of_int (2 ^ 31 - 1)) = 2 ^ 31 - 1"
    using of_int_exact [of "2 ^ 31 - 1"] by simp_all
  have "\<bar>val e2 * val (f64_of_int (2 ^ 31 - 1))\<bar> \<le> f64_big" unfolding i(2) using e2v E by (simp add: abs_if split: if_splits)
  from mul_near(1) [OF e2f i(1) this] have m: "near m (val e2 * (2 ^ 31 - 1))" by (simp only: i(2) defs(3))
  show "f64_finite m" "val m \<le> val e2 * (2 ^ 31 - 1) + E / 2 ^ 20"
    using near_tiny [OF m] e2v E by (simp_all add: abs_if split: if_splits)
qed

lemma copysign:
  fixes d :: double
  assumes "\<not> neg e" "f64_finite e"
  defines "c \<equiv> (d AND double_sign_bit) OR e"
  shows "f64_finite c" "neg c = neg d" "val c = (if neg d then - val e else val e)"
proof -
  have s: "bit (double_sign_bit) n \<longleftrightarrow> n = 63" for n
    unfolding double_sign_bit_def by (subst bit_push_bit_iff) auto
  have n: "neg c = neg d" using assms(1) by (simp add: c_def neg_bit bit_simps s)
  have "take_bit 63 c = take_bit 63 e"
    by (rule bit_word_eqI) (auto simp: c_def bit_simps s)
  then have m: "mag c = mag e" by (simp add: mag_take)
  show "f64_finite c" "neg c = neg d" using assms(2) m n by (simp_all add: f64_finite_def)
  show "val c = (if neg d then - val e else val e)" using assms(1) n m by (simp add: val_def sunits_def)
qed

lemma sign_mask: "d AND NOT double_sign_bit = f64_abs d"
proof -
  have "NOT double_sign_bit = (0x7FFFFFFFFFFFFFFF :: u64)" by (simp add: double_sign_bit_def)
  then show ?thesis by (simp add: f64_abs_def)
qed

lemma val_signed: "val x = (if neg x then - \<bar>val x\<bar> else \<bar>val x\<bar>)"
  using val_sign [of x] by simp

text \<open>Quantisation: a difference that is not an outlier is reproduced up to half a bin.\<close>

lemma quantise:
  assumes ok: "bound_ok E" and er: "f64_finite error" "val error = E"
    and defs: "e = f64_mul error lit_0999" "e2 = f64_mul e lit_2" "m = f64_mul e2 (f64_of_int (2 ^ 31 - 1))"
    and d: "f64_finite d" "\<not> f64_lt m (f64_abs d)"
  defines "y \<equiv> f64_div (f64_add d ((d AND double_sign_bit) OR e)) e2"
  shows "f64_to_int 32 y = Some (f64_trunc y)" "\<bar>f64_trunc y\<bar> \<le> 2 ^ 31 - 1"
    "\<bar>real_of_int (f64_trunc y) * val e2 - val d\<bar> \<le> 999 / 1000 * E + E / 2 ^ 16"
proof -
  have E: "0 < E" "tiny \<le> E / 2 ^ 60" "E * 2 ^ 50 \<le> f64_big" "tiny \<le> 1 / 2 ^ 60" "2 ^ 50 \<le> f64_big"
    using ok by (simp_all add: bound_ok_def)
  note w = bin_widths [OF ok er defs]
  have e2: "0 < val e2" "val e2 \<le> 2 * E" "E \<le> val e2" and e: "0 < val e" "val e \<le> E" using w(6,7) E(1) by (simp_all add: abs_if split: if_splits)
  have db: "\<bar>val d\<bar> \<le> val m" using d w(3) lt_val [of m "f64_abs d"] by simp
  let ?c = "(d AND double_sign_bit) OR e" and ?s = "if neg d then - 1 else 1 :: real"
  note c = copysign [OF w(4,1), of d]
  have sum: "val d + val ?c = ?s * (\<bar>val d\<bar> + val e)" using val_signed [of d] c(3) by (simp split: if_splits)
  have sabs: "\<bar>val d + val ?c\<bar> = \<bar>val d\<bar> + val e" using e by (simp add: sum abs_mult)
  then have "\<bar>val d + val ?c\<bar> \<le> f64_big" using db w(8) e e2 E by (simp add: abs_if split: if_splits)
  note a = add_near [OF d(1) c(1) this] add_sign [OF d(1) c(1) c(2) [symmetric]]
  let ?a = "f64_add d ?c"
  have "(D + val e) / 2 ^ 53 + tiny \<le> E / 2 ^ 19" if "D \<le> val m" for D
    using that w(8) e e2 E by (simp add: add_divide_distrib)
  from this [OF db] near_tiny [OF a(1)]
  have af: "f64_finite ?a" "\<bar>val ?a - (val d + val ?c)\<bar> \<le> E / 2 ^ 19"
    unfolding sabs by (blast, blast intro: order_trans)
  have "\<bar>\<bar>val ?a\<bar> - (\<bar>val d\<bar> + val e)\<bar> \<le> E / 2 ^ 19" using af(2) sabs by linarith
  then have aa: "\<bar>val ?a\<bar> \<le> \<bar>val d\<bar> + val e + E / 2 ^ 19" "\<bar>val d\<bar> + val e - E / 2 ^ 19 \<le> \<bar>val ?a\<bar>" by linarith+
  have "\<bar>val ?a\<bar> \<le> (2 ^ 31 - 1 / 4) * val e2" using aa(1) db w(6-8) E by (simp add: abs_if split: if_splits)
  note ab = this
  define z where "z = val ?a / val e2"
  have "\<bar>z\<bar> = \<bar>val ?a\<bar> / val e2" using e2(1) by (simp add: z_def)
  then have quot: "\<bar>z\<bar> \<le> 2 ^ 31 - 1 / 4" using ab e2(1) by (simp only: pos_divide_le_eq)
  then have "\<bar>z\<bar> \<le> f64_big" using E(5) by simp
  from div_near [OF af(1) w(2) _ this [unfolded z_def]] e2(1) a(2) w(5)
  have yn: "near y z" "neg y = neg d" by (simp_all add: y_def z_def)
  have "\<bar>z\<bar> / 2 ^ 53 + tiny \<le> 1 / 2 ^ 20" using quot E(4) by simp
  with near_tiny [OF yn(1)] have y: "f64_finite y" "\<bar>val y - z\<bar> \<le> 1 / 2 ^ 20"
    by (blast, blast intro: order_trans)
  note t = trunc_val [of y]
  let ?q = "\<bar>real_of_int (f64_trunc y)\<bar>"
  have ylt: "\<bar>val y\<bar> < 2 ^ 31" using y(2) quot by (simp add: abs_if split: if_splits)
  then have "?q < 2 ^ 31" using t(1) by linarith
  then have "real_of_int \<bar>f64_trunc y\<bar> < real_of_int (2 ^ 31)" by simp
  then have "\<bar>f64_trunc y\<bar> < 2 ^ 31" by (simp only: of_int_less_iff)
  then show bnd: "\<bar>f64_trunc y\<bar> \<le> 2 ^ 31 - 1" by simp
  then show "f64_to_int 32 y = Some (f64_trunc y)" using y(1) by (simp add: f64_to_int_def abs_le_iff)
  have "\<bar>\<bar>val y\<bar> - \<bar>z\<bar>\<bar> \<le> 1 / 2 ^ 20" using y(2) by linarith
  then have "\<bar>(\<bar>val y\<bar> - \<bar>z\<bar>) * val e2\<bar> \<le> 1 / 2 ^ 20 * val e2"
    unfolding abs_mult using e2(1) by (simp only: abs_of_pos mult_right_mono less_imp_le)
  moreover have "\<bar>z\<bar> * val e2 = \<bar>val ?a\<bar>" using e2(1) by (simp add: z_def)
  ultimately have ye: "\<bar>\<bar>val y\<bar> * val e2 - \<bar>val ?a\<bar>\<bar> \<le> val e2 / 2 ^ 20" by (simp add: left_diff_distrib)
  have "?q * val e2 \<le> \<bar>val y\<bar> * val e2" "\<bar>val y\<bar> * val e2 \<le> (?q + 1) * val e2"
    using t(1,2) e2(1) by (intro mult_right_mono; simp)+
  note qy = this [unfolded distrib_right mult_1]
  have "\<bar>Q - D\<bar> \<le> 999 / 1000 * E + E / 2 ^ 16"
    if "Q \<le> Y" "Y \<le> Q + val e2" "\<bar>Y - A\<bar> \<le> val e2 / 2 ^ 20" "A \<le> D + val e + E / 2 ^ 19"
      "D + val e - E / 2 ^ 19 \<le> A" for Q Y A D
    using that w(6,7) E(1) by (simp add: abs_if split: if_splits)
  from this [OF qy ye aa] have "\<bar>?q * val e2 - \<bar>val d\<bar>\<bar> \<le> 999 / 1000 * E + E / 2 ^ 16" .
  moreover have "real_of_int (f64_trunc y) * val e2 - val d = ?s * (?q * val e2 - \<bar>val d\<bar>)"
    using val_signed [of d] t(3,4) yn(2) by (auto split: if_splits)
  ultimately show "\<bar>real_of_int (f64_trunc y) * val e2 - val d\<bar> \<le> 999 / 1000 * E + E / 2 ^ 16"
    by (simp add: abs_mult)
qed

lemma step_bound:
  assumes ok: "bound_ok E" and er: "f64_finite error" "val error = E"
    and defs: "e = f64_mul error lit_0999" "e2 = f64_mul e lit_2" "m = f64_mul e2 (f64_of_int (2 ^ 31 - 1))"
    and x: "f64_finite x" "\<bar>val x\<bar> \<le> 2 ^ 42 * E" and p: "f64_finite p" "\<bar>val p\<bar> \<le> 2 ^ 43 * E"
  shows "diff x p e e2 m = Some int32_min \<or>
    (\<exists>q. diff x p e e2 m = Some (word_of_int q) \<and> \<bar>q\<bar> \<le> 2 ^ 31 - 1 \<and>
       f64_finite (f64_add p (f64_mul (f64_of_int q) e2)) \<and>
       \<bar>val x - val (f64_add p (f64_mul (f64_of_int q) e2))\<bar> \<le> E)"
proof -
  have E: "0 < E" "tiny \<le> E / 2 ^ 60" "E * 2 ^ 50 \<le> f64_big" using ok by (simp_all add: bound_ok_def)
  note w = bin_widths [OF ok er defs]
  define d where "d = f64_sub x p"
  have "\<bar>a - b\<bar> \<le> f64_big" if "\<bar>a\<bar> \<le> 2 ^ 42 * E" "\<bar>b\<bar> \<le> 2 ^ 43 * E" for a b
    using that E by (simp add: abs_if split: if_splits)
  from sub_near [OF x(1) p(1) this [OF x(2) p(2)]] have "near d (val x - val p)" by (simp only: d_def)
  note dn = near_tiny [OF this]
  show ?thesis
  proof (cases "f64_lt m (f64_abs d)")
    case True
    then show ?thesis by (simp add: diff_def sign_mask flip: d_def)
  next
    case False
    let ?y = "f64_div (f64_add d ((d AND double_sign_bit) OR e)) e2"
    define q where "q = f64_trunc ?y"
    note qu = quantise [OF ok er defs conjunct1 [OF dn] False, folded q_def]
    have diff: "diff x p e e2 m = Some (word_of_int q)"
      using False qu(1) by (simp add: diff_def sign_mask flip: d_def)
    have db: "\<bar>val d\<bar> \<le> 2 ^ 33 * E"
    proof -
      have "\<bar>val d\<bar> \<le> val m" using False w(3) dn lt_val [of m "f64_abs d"] by simp
      then show ?thesis using w(7,8) E(1) by (simp add: abs_if split: if_splits)
    qed
    have del: "\<bar>v - r\<bar> \<le> E / 2 ^ 18" if "\<bar>v - r\<bar> \<le> \<bar>r\<bar> / 2 ^ 53 + tiny" "\<bar>v\<bar> \<le> 2 ^ 33 * E" for v r
      using that E(1,2) by (simp add: abs_if split: if_splits)
    have d: "\<bar>val d - (val x - val p)\<bar> \<le> E / 2 ^ 18" by (rule del [OF conjunct2 [OF dn] db])
    define z where "z = real_of_int q * val e2"
    have qz: "\<bar>z - val d\<bar> \<le> 999 / 1000 * E + E / 2 ^ 16" using qu(3) by (simp only: z_def)
    have zb: "\<bar>z\<bar> \<le> 2 ^ 34 * E" using qz db E(1) by (simp add: abs_if split: if_splits)
    then have zbig: "\<bar>z\<bar> \<le> f64_big" using E by simp
    have i: "f64_finite (f64_of_int q)" "val (f64_of_int q) = real_of_int q"
      using of_int_exact [of q] qu(2) by simp_all
    let ?t = "f64_mul (f64_of_int q) e2"
    have "near ?t z" using mul_near(1) [OF i(1) w(2)] zbig by (simp only: z_def i(2))
    note tn = near_tiny [OF this]
    have "\<bar>z\<bar> / 2 ^ 53 + tiny \<le> E / 2 ^ 18" using zb E by simp
    then have t: "\<bar>val ?t - z\<bar> \<le> E / 2 ^ 18" using tn by (blast intro: order_trans)
    have sum: "\<bar>x - (p + t)\<bar> \<le> 999 / 1000 * E + E / 2 ^ 15 \<and> \<bar>p + t\<bar> \<le> (2 ^ 42 + 1) * E"
      if "\<bar>x\<bar> \<le> 2 ^ 42 * E" "\<bar>d - (x - p)\<bar> \<le> E / 2 ^ 18" "\<bar>z - d\<bar> \<le> 999 / 1000 * E + E / 2 ^ 16"
        "\<bar>t - z\<bar> \<le> E / 2 ^ 18" for x p d t :: real
    proof -
      have 1: "\<bar>x - (p + t)\<bar> \<le> 999 / 1000 * E + E / 2 ^ 15"
      proof -
        have "\<bar>x - (p + t)\<bar> \<le> \<bar>d - (x - p)\<bar> + \<bar>z - d\<bar> + \<bar>t - z\<bar>" by linarith
        also have "\<dots> \<le> E / 2 ^ 18 + (999 / 1000 * E + E / 2 ^ 16) + E / 2 ^ 18"
          by (intro add_mono that(2-4))
        also have "\<dots> \<le> 999 / 1000 * E + E / 2 ^ 15" using E(1) by simp
        finally show ?thesis .
      qed
      moreover have "\<bar>p + t\<bar> \<le> \<bar>x\<bar> + \<bar>x - (p + t)\<bar>" by linarith
      ultimately show ?thesis using that(1) E(1) by simp
    qed
    note pt = sum [OF x(2) d qz t]
    then have "\<bar>val p + val ?t\<bar> \<le> f64_big" using E by simp
    from near_tiny [OF add_near [OF p(1) conjunct1 [OF tn] this]]
    have r: "f64_finite (f64_add p ?t)"
      "\<bar>val (f64_add p ?t) - (val p + val ?t)\<bar> \<le> \<bar>val p + val ?t\<bar> / 2 ^ 53 + tiny" by simp_all
    have "\<bar>x - r\<bar> \<le> E"
      if "\<bar>r - s\<bar> \<le> \<bar>s\<bar> / 2 ^ 53 + tiny" "\<bar>x - s\<bar> \<le> 999 / 1000 * E + E / 2 ^ 15" "\<bar>s\<bar> \<le> (2 ^ 42 + 1) * E"
      for x r s :: real
    proof -
      have "\<bar>s\<bar> / 2 ^ 53 + tiny \<le> 6 / 10000 * E" using that(3) E by simp
      then have "\<bar>r - s\<bar> \<le> 6 / 10000 * E" using that(1) by linarith
      moreover have "\<bar>x - r\<bar> \<le> \<bar>x - s\<bar> + \<bar>r - s\<bar>" by linarith
      ultimately show ?thesis using that(2) E(1) by simp
    qed
    from this [OF r(2)] pt have "\<bar>val x - val (f64_add p ?t)\<bar> \<le> E" by blast
    with diff qu(2) r(1) show ?thesis by blast
  qed
qed

section \<open>The error bound\<close>

definition error_within :: "real \<Rightarrow> double list \<Rightarrow> double list \<Rightarrow> bool" where
  "error_within E xs ys \<longleftrightarrow> list_all2 (\<lambda>x y. \<bar>val x - val y\<bar> \<le> E) xs ys"

lemma word_of_quantum:
  assumes "\<bar>q\<bar> \<le> 2 ^ 31 - 1"
  shows "sint (word_of_int q :: int32) = q" "(word_of_int q :: int32) \<noteq> int32_min"
proof -
  show s: "sint (word_of_int q :: int32) = q"
    using assms by (simp add: sint_sbintrunc' signed_take_bit_int_eq_self abs_le_iff)
  have "sint int32_min = - (2 ^ 31)" by (simp add: int32_min_def)
  then show "(word_of_int q :: int32) \<noteq> int32_min" using s assms by auto
qed

lemma loop_bound:
  assumes ok: "bound_ok E" and er: "f64_finite error" "val error = E"
    and defs: "e = f64_mul error lit_0999" "e2 = f64_mul e lit_2" "m = f64_mul e2 (f64_of_int (2 ^ 31 - 1))"
    and xs: "\<forall>x \<in> set xs. f64_finite x \<and> \<bar>val x\<bar> \<le> 2 ^ 42 * E"
    and p: "f64_finite p" "\<bar>val p\<bar> \<le> 2 ^ 43 * E"
  shows "\<exists>qs outs ys. lorenzo_loop e e2 m p xs = Some (qs, outs) \<and>
    correct_outliers e2 p qs outs = Some ys \<and> error_within E xs ys \<and> length outs \<le> length xs"
  using xs p
proof (induction xs arbitrary: p)
  case Nil
  then show ?case by (simp add: error_within_def)
next
  case (Cons x xs)
  have E: "0 < E" using ok by (simp add: bound_ok_def)
  have x: "f64_finite x" "\<bar>val x\<bar> \<le> 2 ^ 42 * E" using Cons.prems(1) by simp_all
  have rest: "\<forall>x \<in> set xs. f64_finite x \<and> \<bar>val x\<bar> \<le> 2 ^ 42 * E" using Cons.prems(1) by simp
  from step_bound [OF ok er defs x Cons.prems(2,3)] show ?case
  proof (elim disjE exE conjE)
    assume "diff x p e e2 m = Some int32_min"
    moreover have "\<bar>val x\<bar> \<le> 2 ^ 43 * E" using x(2) E by simp
    ultimately show ?thesis
      using Cons.IH [OF rest x(1)] E by (fastforce simp: error_within_def)
  next
    fix q
    let ?y = "f64_add p (f64_mul (f64_of_int q) e2)"
    assume q: "diff x p e e2 m = Some (word_of_int q)" "\<bar>q\<bar> \<le> 2 ^ 31 - 1" "f64_finite ?y"
      "\<bar>val x - val ?y\<bar> \<le> E"
    have "\<bar>v\<bar> \<le> 2 ^ 43 * E" if "\<bar>x - v\<bar> \<le> E" "\<bar>x\<bar> \<le> 2 ^ 42 * E" for x v
      using that E by (simp add: abs_if split: if_splits)
    from Cons.IH [OF rest q(3) this [OF q(4) x(2)]] show ?thesis
      using q(1,4) word_of_quantum [OF q(2)] mul_commute [of e2]
      by (fastforce simp: error_within_def Let_def)
  qed
qed

lemma bound_okI:
  assumes "1 / 2 ^ 900 \<le> E" "E \<le> 2 ^ 900"
  shows "bound_ok E"
proof -
  have U: "real one_units = 2 ^ 1074" by (simp only: one_units_def of_nat_power of_nat_numeral)
  have t: "tiny = 1 / 2 ^ 1075" unfolding tiny_def U by (simp only: divide_divide_eq_left flip: power_Suc) simp
  have "tiny * 2 ^ 60 \<le> 1 / 2 ^ 900"
    unfolding t by (simp only: divide_le_eq_1_pos times_divide_eq_left mult_1) simp
  moreover have "0 < E" using assms(1) by (rule less_le_trans [rotated]) simp
  moreover have "E * 2 ^ 50 \<le> 2 ^ 900 * 2 ^ 50" using assms(2) by simp
  then have "E * 2 ^ 50 \<le> f64_big" unfolding f64_big_def
    by (rule order_trans) (simp only: flip: power_add, rule power_increasing, simp_all)
  moreover have "tiny \<le> 1 / 2 ^ 60"
    unfolding t by (rule divide_left_mono) (simp_all only: power_increasing zero_less_power, simp_all)
  moreover have "2 ^ 50 \<le> f64_big" unfolding f64_big_def by (rule power_increasing) simp_all
  moreover have "tiny \<le> E / 2 ^ 60"
    using order_trans [OF \<open>tiny * 2 ^ 60 \<le> 1 / 2 ^ 900\<close> assms(1)] by (simp only: pos_le_divide_eq zero_less_power zero_less_numeral)
  ultimately show ?thesis by (simp only: bound_ok_def)
qed

lemma lorenzo_bound:
  assumes "f64_finite error" "1 / 2 ^ 900 \<le> val error" "val error \<le> 2 ^ 900" "xs \<noteq> []"
    "\<forall>x \<in> set xs. f64_finite x \<and> \<bar>val x\<bar> \<le> 2 ^ 42 * val error"
  obtains qs outs ys where
    "lorenzo1_diff xs error = Some (qs, array_bytes 8 [error, hd xs] @ array_bytes 8 (outs :: double list))"
    "length qs = length xs - 1" "length outs < length xs"
    "lorenzo1_correct qs (array_bytes 8 [error, hd xs] @ array_bytes 8 outs) = Some ys"
    "error_within (val error) xs ys" "int32_min \<in> set qs \<longleftrightarrow> outs \<noteq> []"
proof -
  let ?e = "f64_mul error lit_0999"
  let ?e2 = "f64_mul ?e lit_2"
  let ?m = "f64_mul ?e2 (f64_of_int (2 ^ 31 - 1))"
  obtain x xs' where xs: "xs = x # xs'" using assms(4) by (cases xs) auto
  note ok = bound_okI [OF assms(2,3)]
  then have E: "0 < val error" by (simp add: bound_ok_def)
  have x: "f64_finite x" "\<bar>val x\<bar> \<le> 2 ^ 43 * val error"
    and all: "\<forall>x \<in> set xs'. f64_finite x \<and> \<bar>val x\<bar> \<le> 2 ^ 42 * val error"
    using assms(5) E by (simp_all add: xs)
  obtain qs outs ys where l: "lorenzo_loop ?e ?e2 ?m x xs' = Some (qs, outs)"
    "correct_outliers ?e2 x qs outs = Some ys" "error_within (val error) xs' ys" "length outs \<le> length xs'"
    using loop_bound [OF ok assms(1) refl refl refl refl all x] by blast
  show thesis
  proof (rule that [of qs outs "x # ys"])
    show "lorenzo1_diff xs error = Some (qs, array_bytes 8 [error, hd xs] @ array_bytes 8 outs)"
      using l(1) by (simp add: lorenzo1_diff_def xs Let_def)
    show "lorenzo1_correct qs (array_bytes 8 [error, hd xs] @ array_bytes 8 outs) = Some (x # ys)"
      using lorenzo1_correct_frame [OF l(1) refl] l(2) by (simp add: xs)
    show "error_within (val error) xs (x # ys)" using l(3) E by (simp add: error_within_def xs)
    show "length qs = length xs - 1" "length outs < length xs"
      using loop_outliers [OF l(1)] l(4) by (simp_all add: xs)
    show "int32_min \<in> set qs \<longleftrightarrow> outs \<noteq> []"
      using loop_outliers [OF l(1)] loop_marked [OF l(1)] by blast
  qed
qed

text \<open>C2. The predictor respects the error bound: for a bound between \<open>2 ^ -900\<close> and \<open>2 ^ 900\<close> and
  finite values of at most \<open>2 ^ 42\<close> times the bound, \<open>lorenzo1_diff\<close> meets no undefined cast, and
  \<open>lorenzo1_correct\<close> reconstructs every value up to the bound, rounding errors included.\<close>

theorem lorenzo_error_bound:
  assumes "f64_finite error" "1 / 2 ^ 900 \<le> val error" "val error \<le> 2 ^ 900" "xs \<noteq> []"
    "\<forall>x \<in> set xs. f64_finite x \<and> \<bar>val x\<bar> \<le> 2 ^ 42 * val error"
  shows "\<exists>qs config ys. lorenzo1_diff xs error = Some (qs, config) \<and> length qs = length xs - 1 \<and>
    lorenzo1_correct qs config = Some ys \<and> list_all2 (\<lambda>x y. \<bar>val x - val y\<bar> \<le> val error) xs ys"
  by (rule lorenzo_bound [OF assms], unfold error_within_def) blast

text \<open>Witness of C2: the series 1, 2, 1 with the bound 1.\<close>

theorem lorenzo_error_bound_witness:
  "\<exists>qs config ys. lorenzo1_diff [lit_1, lit_2, lit_1] lit_1 = Some (qs, config) \<and>
    length qs = length [lit_1, lit_2, lit_1] - 1 \<and>
    lorenzo1_correct qs config = Some ys \<and>
    list_all2 (\<lambda>x y. \<bar>val x - val y\<bar> \<le> val lit_1) [lit_1, lit_2, lit_1] ys"
proof (rule lorenzo_error_bound)
  show "1 / 2 ^ 900 \<le> val lit_1" "val lit_1 \<le> 2 ^ 900"
    unfolding lit_1_val by (simp_all only: divide_le_eq_1_pos zero_less_power zero_less_numeral one_le_power one_le_numeral)
qed (simp_all add: lit_1_val lit_vals)

text \<open>C19. A NaN in the input reaches the cast to \<open>int32_t\<close>, which is undefined for it: the test for
  outliers is false for every comparison with a NaN.\<close>

theorem lorenzo_nan_undefined: "f64_nan x \<Longrightarrow> diff x predicted e e2 max_diff = None"
proof -
  assume "f64_nan x"
  then have d: "f64_sub x predicted = qnan" by (simp add: f64_sub_def f64_add_def)
  have n: "f64_nan qnan" by (simp add: f64_nan_def mag_def inf_mag_def qnan_def)
  then have "f64_nan (f64_abs qnan)" by (simp add: f64_nan_def)
  moreover have "f64_div (f64_add qnan c) e2 = qnan" for c using n by (simp add: f64_add_def f64_div_def)
  moreover have "f64_to_int 32 qnan = None"
    using n by (auto simp: f64_to_int_def f64_finite_def f64_nan_def)
  ultimately show ?thesis by (simp add: diff_def d sign_mask f64_lt_def Let_def)
qed

text \<open>Witness of C19.\<close>

theorem lorenzo_nan_undefined_witness:
  "f64_nan 0x7FF8000000000001 \<and> diff 0x7FF8000000000001 0 lit_0999 lit_2 lit_2 = None"
proof -
  have "f64_nan 0x7FF8000000000001" by (simp add: f64_nan_def mag_def inf_mag_def)
  then show ?thesis using lorenzo_nan_undefined by blast
qed

end
