(* ===== verification/Machete.thy ===== *)
theory Machete
  imports Hybrid Lorenzo
begin

text \<open>
  The driver of Machete, \<open>Machete/machete/machete.cpp\<close>, and its C interface
  \<open>Machete/macheteC/wrapper.cpp\<close>: prediction, then one of the integer encoders, then a header with
  two 16-bit sizes.  The template parameter \<open>Encoder\<close> is an argument.  What the platform leaves
  open (the queues, the iteration order of hash maps, the contents of an uninitialised variable,
  \<open>__builtin_ctz(0)\<close>) is a record.
\<close>

section \<open>Model\<close>

datatype encoder = huffman | huffmanC | ovlq | hybrid

record ('q, 'p) platform =
  pl_cnt_queue :: "(huf_tree, 'q) pq_ops"
  pl_lvl_queue :: "(leaf, 'p) pq_ops"
  pl_order :: "(int32 \<times> nat) list \<Rightarrow> (int32 \<times> nat) list"
  pl_junk :: int32
  pl_ctz0 :: nat

definition ENCODING_ERROR :: int where
  "ENCODING_ERROR = - 200"

definition SIZE_ERROR :: int where
  "SIZE_ERROR = - 300"

fun encode_phase :: "('q, 'p) platform \<Rightarrow> encoder \<Rightarrow> int32 list \<Rightarrow> (int + u8 list) option" where
  "encode_phase pl huffman xs = map_option Inr (huffman_encode (pl_cnt_queue pl) (pl_order pl) xs)"
| "encode_phase pl ovlq xs = map_option Inr (ovlq_encode xs)"
| "encode_phase pl hybrid xs =
     map_option Inr (hybrid_encode (pl_cnt_queue pl) (pl_lvl_queue pl) (pl_order pl) (pl_junk pl) xs)"
| "encode_phase pl huffmanC xs = Some (Inl (- 1))"

text \<open>The second component is the input buffer afterwards.\<close>

fun decode_phase :: "('q, 'p) platform \<Rightarrow> encoder \<Rightarrow> u8 list \<Rightarrow> (int32 list \<times> u8 list) option" where
  "decode_phase pl huffman inp = map_option (\<lambda>xs. (xs, inp)) (huffman_decode inp)"
| "decode_phase pl ovlq inp = map_option (\<lambda>xs. (xs, inp)) (ovlq_decode (pl_ctz0 pl) inp)"
| "decode_phase pl hybrid inp = hybrid_decode (pl_ctz0 pl) inp"
| "decode_phase pl huffmanC inp = Some ([], inp)"

text \<open>The result is an error code or the output buffer.\<close>

definition machete_compress ::
  "('q, 'p) platform \<Rightarrow> encoder \<Rightarrow> double list \<Rightarrow> double \<Rightarrow> (int + u8 list) option" where
  "machete_compress pl enc input error =
     (if length input < 10
      then Some (Inr (le_bytes 4 (of_nat (length input) :: u32) @ array_bytes 8 input))
      else do {
        (delta, predictor_out) \<leftarrow> lorenzo1_diff input error;
        r \<leftarrow> encode_phase pl enc delta;
        (case r of
           Inl _ \<Rightarrow> Some (Inl ENCODING_ERROR)
         | Inr encoder_out \<Rightarrow>
             if 65535 < length encoder_out \<or> 65535 < length predictor_out then Some (Inl SIZE_ERROR)
             else Some (Inr (le_bytes 4 (of_nat (length input) :: u32) @
                     array_bytes 2 [of_nat (length encoder_out), of_nat (length predictor_out) :: u16] @
                     predictor_out @ encoder_out))) })"

definition machete_getlen :: "u8 list \<Rightarrow> nat option" where
  "machete_getlen compressed = do {
     (hdr, _) \<leftarrow> read_array 4 1 compressed;
     Some (unat (hdr ! 0 :: u32)) }"

text \<open>The decoded values are returned with the announced length and the input buffer afterwards.
  Decoding more values than the encoder announces would overrun the buffer \<open>delta\<close>.\<close>

definition machete_decompress ::
  "('q, 'p) platform \<Rightarrow> encoder \<Rightarrow> u8 list \<Rightarrow> (nat \<times> double list \<times> u8 list) option" where
  "machete_decompress pl enc input = do {
     (hdr, rest) \<leftarrow> read_array 4 1 input;
     let data_len = unat (hdr ! 0 :: u32);
     (if data_len < 10
      then do {
        (ys, _) \<leftarrow> read_array 8 data_len rest;
        Some (data_len, ys, input) }
      else do {
        (sizes, payload) \<leftarrow> read_array 2 2 rest;
        let esize = unat (sizes ! 0 :: u16);
        let psize = unat (sizes ! 1);
        (predictor_out, coded) \<leftarrow> split_at psize payload;
        dlen \<leftarrow> machete_getlen coded;
        (encoder_out, more) \<leftarrow> split_at esize coded;
        (delta, after) \<leftarrow> decode_phase pl enc encoder_out;
        (if length delta \<noteq> dlen then None
         else do {
           ys \<leftarrow> lorenzo1_correct delta predictor_out;
           Some (data_len, ys, array_bytes 4 hdr @ array_bytes 2 sizes @ predictor_out @ after @ more) }) }) }"

text \<open>The C interface fixes the Huffman encoder; the caller announces the number of doubles to
  allocate for the result.\<close>

definition machete_compress_C ::
  "('q, 'p) platform \<Rightarrow> double list \<Rightarrow> double \<Rightarrow> (int + u8 list) option" where
  "machete_compress_C pl input error = machete_compress pl huffman input error"

definition machete_decompress_C ::
  "('q, 'p) platform \<Rightarrow> u8 list \<Rightarrow> nat \<Rightarrow> (nat \<times> double list) option" where
  "machete_decompress_C pl input esize = do {
     (n, ys, _) \<leftarrow> machete_decompress pl huffman input;
     (if length ys \<le> esize then Some (n, ys) else None) }"

section \<open>The contract of an encoder\<close>

text \<open>Every encoder writes the number of values first and is inverted by its decoder on the inputs
  it admits.\<close>

locale phase_codec =
  fixes pl :: "('q, 'p) platform" and enc :: encoder and admits :: "int32 list \<Rightarrow> bool"
  assumes phases: "admits xs \<Longrightarrow> \<exists>body after.
      encode_phase pl enc xs = Some (Inr (le_bytes 4 (of_nat (length xs) :: u32) @ body)) \<and>
      decode_phase pl enc (le_bytes 4 (of_nat (length xs) :: u32) @ body) = Some (xs, after)"
    and admits_length: "admits xs \<Longrightarrow> length xs < 2 ^ 32"
begin

lemma getlen_le_bytes: "n < 2 ^ 32 \<Longrightarrow> machete_getlen (le_bytes 4 (of_nat n :: u32) @ bs) = Some n"
  using read_array_bytes [of 4 "[of_nat n :: u32]" 1 bs]
  by (simp add: machete_getlen_def unat_of_nat)

lemma compress_decompress:
  assumes "lorenzo1_diff xs error = Some (qs, config)" "lorenzo1_correct qs config = Some ys"
    "admits qs" "10 \<le> length xs" "length xs < 2 ^ 32"
  obtains eout where "encode_phase pl enc qs = Some (Inr eout)"
    "if 65535 < length eout \<or> 65535 < length config
     then machete_compress pl enc xs error = Some (Inl SIZE_ERROR)
     else \<exists>bytes after. machete_compress pl enc xs error = Some (Inr bytes) \<and>
       machete_decompress pl enc bytes = Some (length xs, ys, after)"
proof -
  obtain body after where b:
    "encode_phase pl enc qs = Some (Inr (le_bytes 4 (of_nat (length qs) :: u32) @ body))"
    "decode_phase pl enc (le_bytes 4 (of_nat (length qs) :: u32) @ body) = Some (qs, after)"
    using phases [OF assms(3)] by blast
  define eout where "eout = le_bytes 4 (of_nat (length qs) :: u32) @ body"
  have len: "machete_getlen eout = Some (length qs)"
    unfolding eout_def by (rule getlen_le_bytes [OF admits_length [OF assms(3)]])
  note e = b [folded eout_def]
  have "\<exists>bytes after. machete_compress pl enc xs error = Some (Inr bytes) \<and>
       machete_decompress pl enc bytes = Some (length xs, ys, after)"
    if small: "length eout \<le> 65535" "length config \<le> 65535"
  proof -
    let ?sizes = "[of_nat (length eout), of_nat (length config) :: u16]"
    let ?hdr = "[of_nat (length xs) :: u32]"
    let ?bytes = "array_bytes 4 ?hdr @ array_bytes 2 ?sizes @ config @ eout"
    have "machete_compress pl enc xs error = Some (Inr ?bytes)"
      using assms(1,4) e(1) small by (simp add: machete_compress_def)
    moreover have r: "read_array 4 1 ?bytes = Some (?hdr, array_bytes 2 ?sizes @ config @ eout)"
      "read_array 2 2 (array_bytes 2 ?sizes @ config @ eout) = Some (?sizes, config @ eout)"
      by (rule read_array_bytes; simp)+
    have "unat (of_nat (length eout) :: u16) = length eout" "unat (of_nat (length config) :: u16) = length config"
      "unat (of_nat (length xs) :: u32) = length xs"
      using small assms(5) by (simp_all add: unat_of_nat take_bit_nat_eq_self)
    then have "machete_decompress pl enc ?bytes = Some (length xs, ys,
        array_bytes 4 ?hdr @ array_bytes 2 ?sizes @ config @ after)"
      unfolding machete_decompress_def using assms(2,4) e(2) len
      by (simp add: r [simplified] split_at_def Let_def del: read_array_bytes)
    ultimately show ?thesis by blast
  qed
  moreover have "machete_compress pl enc xs error = Some (Inl SIZE_ERROR)"
    if "65535 < length eout \<or> 65535 < length config"
    using that assms(1,4) e(1) by (auto simp: machete_compress_def)
  ultimately show thesis using that [OF e(1)] by simp
qed

end

section \<open>The three encoders keep the contract\<close>

definition platform_ok :: "('q, 'p) platform \<Rightarrow> bool" where
  "platform_ok pl \<longleftrightarrow>
     (\<exists>elems ok. priority_queue (pl_cnt_queue pl) huf_cnt elems ok) \<and>
     (\<exists>elems ok. priority_queue (pl_lvl_queue pl) leaf_lvl elems ok) \<and> iteration_order (pl_order pl)"

definition huf_admits :: "('q, 'p) platform \<Rightarrow> int32 list \<Rightarrow> bool" where
  "huf_admits pl xs \<longleftrightarrow> platform_ok pl \<and> xs \<noteq> [] \<and> length xs < 2 ^ 21"

definition ovlq_admits :: "('q, 'p) platform \<Rightarrow> int32 list \<Rightarrow> bool" where
  "ovlq_admits pl xs \<longleftrightarrow>
     xs \<noteq> [] \<and> length xs < 2 ^ 25 \<and> (pl_ctz0 pl = 32 \<or> (\<forall>x \<in> set xs. data_bitlen x < 32))"

definition hybrid_admits :: "('q, 'p) platform \<Rightarrow> int32 list \<Rightarrow> bool" where
  "hybrid_admits pl xs \<longleftrightarrow>
     platform_ok pl \<and> xs \<noteq> [] \<and> length xs < 2 ^ 21 \<and>
     card {v \<in> set xs. count_list xs v \<noteq> 1} < 2 ^ 16 - 1 \<and>
     (pl_ctz0 pl = 32 \<or> (\<forall>x \<in> set xs. data_bitlen x < 32))"

lemma huffman_head:
  "huffman_encode Q ord xs = Some bytes \<Longrightarrow> \<exists>body. bytes = le_bytes 4 (of_nat (length xs) :: u32) @ body"
  by (auto simp: huffman_encode_def Let_def bind_eq_Some_conv)

lemma ovlq_head:
  "ovlq_encode xs = Some bytes \<Longrightarrow> \<exists>body. bytes = le_bytes 4 (of_nat (length xs) :: u32) @ body"
  by (auto simp: ovlq_encode_def Let_def bind_eq_Some_conv)

lemma hybrid_head:
  "hybrid_encode Q P ord junk xs = Some bytes \<Longrightarrow> \<exists>body. bytes = le_bytes 4 (of_nat (length xs) :: u32) @ body"
  by (auto simp: hybrid_encode_def Let_def bind_eq_Some_conv split: if_splits)

interpretation huf_phase: phase_codec pl huffman "huf_admits pl" for pl :: "('q, 'p) platform"
proof
  fix xs
  assume ad: "huf_admits pl xs"
  then obtain elems ok where q: "priority_queue (pl_cnt_queue pl) huf_cnt elems ok"
    by (auto simp: huf_admits_def platform_ok_def)
  have rest: "iteration_order (pl_order pl)" "xs \<noteq> []" "length xs < 2 ^ 21"
    using ad by (auto simp: huf_admits_def platform_ok_def)
  obtain bytes where b: "huffman_encode (pl_cnt_queue pl) (pl_order pl) xs = Some bytes"
    "huffman_decode bytes = Some xs"
    using huffman_encode_decode [OF q rest] by blast
  with huffman_head [OF b(1)] show "\<exists>body after.
      encode_phase pl huffman xs = Some (Inr (le_bytes 4 (of_nat (length xs) :: u32) @ body)) \<and>
      decode_phase pl huffman (le_bytes 4 (of_nat (length xs) :: u32) @ body) = Some (xs, after)"
    by (elim exE) simp
qed (simp add: huf_admits_def)

interpretation ovlq_phase: phase_codec pl ovlq "ovlq_admits pl" for pl :: "('q, 'p) platform"
proof
  fix xs
  assume ad: "ovlq_admits pl xs"
  then have "xs \<noteq> []" "length xs < 2 ^ 25" "pl_ctz0 pl = 32 \<or> (\<forall>x \<in> set xs. data_bitlen x < 32)"
    by (simp_all add: ovlq_admits_def)
  then obtain bytes where b: "ovlq_encode xs = Some bytes" "ovlq_decode (pl_ctz0 pl) bytes = Some xs"
    by (rule ovlq_encode_decode)
  with ovlq_head [OF b(1)] show "\<exists>body after.
      encode_phase pl ovlq xs = Some (Inr (le_bytes 4 (of_nat (length xs) :: u32) @ body)) \<and>
      decode_phase pl ovlq (le_bytes 4 (of_nat (length xs) :: u32) @ body) = Some (xs, after)"
    by (elim exE) simp
qed (simp add: ovlq_admits_def)

interpretation hybrid_phase: phase_codec pl hybrid "hybrid_admits pl" for pl :: "('q, 'p) platform"
proof
  fix xs
  assume ad: "hybrid_admits pl xs"
  then obtain elems ok elems' ok' where q: "priority_queue (pl_cnt_queue pl) huf_cnt elems ok"
    "priority_queue (pl_lvl_queue pl) leaf_lvl elems' ok'"
    by (auto simp: hybrid_admits_def platform_ok_def)
  have rest: "iteration_order (pl_order pl)" "xs \<noteq> []" "length xs < 2 ^ 21"
    "card {v \<in> set xs. count_list xs v \<noteq> 1} < 2 ^ 16 - 1"
    "pl_ctz0 pl = 32 \<or> (\<forall>x \<in> set xs. data_bitlen x < 32)"
    using ad unfolding hybrid_admits_def platform_ok_def by blast+
  obtain bytes after where b:
    "hybrid_encode (pl_cnt_queue pl) (pl_lvl_queue pl) (pl_order pl) (pl_junk pl) xs = Some bytes"
    "hybrid_decode (pl_ctz0 pl) bytes = Some (xs, after)"
    using hybrid_encode_decode [OF q rest] by blast
  with hybrid_head [OF b(1)] show "\<exists>body after.
      encode_phase pl hybrid xs = Some (Inr (le_bytes 4 (of_nat (length xs) :: u32) @ body)) \<and>
      decode_phase pl hybrid (le_bytes 4 (of_nat (length xs) :: u32) @ body) = Some (xs, after)"
    by (elim exE) simp
qed (simp add: hybrid_admits_def)

section \<open>End to end\<close>

text \<open>What is asked of the bound and of the data.\<close>

definition admissible_series :: "double list \<Rightarrow> double \<Rightarrow> bool" where
  "admissible_series xs error \<longleftrightarrow>
     f64_finite error \<and> 1 / 2 ^ 900 \<le> val error \<and> val error \<le> 2 ^ 900 \<and>
     (\<forall>x \<in> set xs. f64_finite x \<and> \<bar>val x\<bar> \<le> 2 ^ 42 * val error)"

lemma card_repeated_le: "2 * card {v \<in> set xs. count_list xs v \<noteq> 1} \<le> length xs"
proof -
  let ?R = "{v \<in> set xs. count_list xs v \<noteq> 1}"
  have "2 * card ?R = (\<Sum>v \<in> ?R. 2)" by simp
  also have "\<dots> \<le> (\<Sum>v \<in> ?R. count_list xs v)"
  proof (rule sum_mono)
    fix v assume "v \<in> ?R"
    then have "count_list xs v \<noteq> 0" "count_list xs v \<noteq> 1" by (simp_all add: count_list_0_iff)
    then show "2 \<le> count_list xs v" by simp
  qed
  also have "\<dots> \<le> (\<Sum>v \<in> set xs. count_list xs v)" by (rule sum_mono2) auto
  also have "\<dots> = length xs" by (rule sum_count_set) simp_all
  finally show ?thesis .
qed

lemma machete_bound:
  assumes "platform_ok pl" "enc = huffman \<or> enc \<in> {ovlq, hybrid} \<and> pl_ctz0 pl = 32"
    "admissible_series xs error" "10 \<le> length xs" "length xs \<le> 2 ^ 16"
  obtains qs config eout where
    "lorenzo1_diff xs error = Some (qs, config)" "encode_phase pl enc qs = Some (Inr eout)"
    "if 65535 < length eout \<or> 65535 < length config
     then machete_compress pl enc xs error = Some (Inl SIZE_ERROR)
     else \<exists>bytes ys after. machete_compress pl enc xs error = Some (Inr bytes) \<and>
       machete_decompress pl enc bytes = Some (length xs, ys, after) \<and>
       list_all2 (\<lambda>x y. \<bar>val x - val y\<bar> \<le> val error) xs ys"
proof -
  have "xs \<noteq> []" using assms(4) by auto
  then obtain qs outs ys where l:
    "lorenzo1_diff xs error = Some (qs, array_bytes 8 [error, hd xs] @ array_bytes 8 (outs :: double list))"
    "length qs = length xs - 1" "length outs < length xs"
    "lorenzo1_correct qs (array_bytes 8 [error, hd xs] @ array_bytes 8 outs) = Some ys"
    "error_within (val error) xs ys" "int32_min \<in> set qs \<longleftrightarrow> outs \<noteq> []"
    using assms(3) unfolding admissible_series_def by (elim conjE) (rule lorenzo_bound)
  define config where "config = array_bytes 8 [error, hd xs] @ array_bytes 8 outs"
  note l = l [folded config_def]
  have qs: "qs \<noteq> []" "length qs < 2 ^ 16" using l(2) assms(4,5) by auto
  have "card {v \<in> set qs. count_list qs v \<noteq> 1} < 2 ^ 16 - 1"
    using card_repeated_le [of qs] qs(2) by simp
  then have adm: "huf_admits pl qs" "pl_ctz0 pl = 32 \<Longrightarrow> ovlq_admits pl qs"
    "pl_ctz0 pl = 32 \<Longrightarrow> hybrid_admits pl qs"
    using qs assms(1) by (auto simp: huf_admits_def ovlq_admits_def hybrid_admits_def)
  have len: "length xs < 2 ^ 32" using assms(5) by simp
  have "\<exists>eout. encode_phase pl enc qs = Some (Inr eout) \<and>
    (if 65535 < length eout \<or> 65535 < length config
     then machete_compress pl enc xs error = Some (Inl SIZE_ERROR)
     else \<exists>bytes after. machete_compress pl enc xs error = Some (Inr bytes) \<and>
       machete_decompress pl enc bytes = Some (length xs, ys, after))"
    using assms(2)
  proof (elim disjE conjE insertE emptyE)
    assume "enc = huffman"
    then show ?thesis using huf_phase.compress_decompress [OF l(1,4) adm(1) assms(4) len] by blast
  next
    assume "pl_ctz0 pl = 32" "enc = ovlq"
    then show ?thesis using ovlq_phase.compress_decompress [OF l(1,4) adm(2) assms(4) len] by blast
  next
    assume "pl_ctz0 pl = 32" "enc = hybrid"
    then show ?thesis using hybrid_phase.compress_decompress [OF l(1,4) adm(3) assms(4) len] by blast
  qed
  then obtain eout where "encode_phase pl enc qs = Some (Inr eout)"
    "if 65535 < length eout \<or> 65535 < length config
     then machete_compress pl enc xs error = Some (Inl SIZE_ERROR)
     else \<exists>bytes after. machete_compress pl enc xs error = Some (Inr bytes) \<and>
       machete_decompress pl enc bytes = Some (length xs, ys, after)"
    by blast
  with that [OF l(1)] l(5) show thesis by (auto simp: error_within_def split: if_splits)
qed


definition sample_platform :: "(huf_tree list, leaf list) platform" where
  "sample_platform = \<lparr>pl_cnt_queue = heap_ops huf_cnt, pl_lvl_queue = heap_ops leaf_lvl,
     pl_order = rev, pl_junk = 0, pl_ctz0 = 32\<rparr>"

lemma sample_platform_ok: "platform_ok sample_platform"
  unfolding platform_ok_def sample_platform_def platform.simps
  by (intro conjI exI) (rule heap.priority_queue_axioms iteration_order_rev)+

lemma sample_series: "admissible_series (replicate 12 lit_1) lit_1"
proof -
  have "1 / 2 ^ 900 \<le> (1 :: real)" "1 \<le> (2 :: real) ^ 900"
    by (simp_all only: divide_le_eq_1_pos zero_less_power zero_less_numeral one_le_power one_le_numeral)
  then show ?thesis unfolding admissible_series_def lit_1_val by (simp add: lit_1_val)
qed


text \<open>C18. Short series are stored verbatim: fewer than 10 values, of whatever bit patterns, come back
  unchanged with every encoder, and \<open>machete_getlen\<close> reads their number.\<close>

theorem machete_short_verbatim:
  assumes "length xs < 10"
  shows "\<exists>bytes. machete_compress pl enc xs error = Some (Inr bytes) \<and>
    machete_getlen bytes = Some (length xs) \<and> machete_decompress pl enc bytes = Some (length xs, xs, bytes)"
proof -
  let ?hdr = "[of_nat (length xs) :: u32]"
  have n: "unat (of_nat (length xs) :: u32) = length xs" using assms by (simp add: unat_of_nat take_bit_nat_eq_self)
  have r: "read_array 4 1 (array_bytes 4 ?hdr @ bs) = Some (?hdr, bs)" for bs
    by (rule read_array_bytes) simp_all
  have "read_array 8 (length xs) (array_bytes 8 xs @ []) = Some (xs, [])" by (rule read_array_bytes) simp_all
  then show ?thesis
    using assms r [of "array_bytes 8 xs"] n
    by (simp add: machete_compress_def machete_getlen_def machete_decompress_def Let_def)
qed

text \<open>Witness of C18: a NaN and an infinity.\<close>

theorem machete_short_verbatim_witness:
  "\<exists>bytes. machete_compress sample_platform ovlq [0x7FF8000000000001, 0xFFF0000000000000] 0 = Some (Inr bytes) \<and>
    machete_getlen bytes = Some (length [0x7FF8000000000001, 0xFFF0000000000000 :: double]) \<and>
    machete_decompress sample_platform ovlq bytes =
      Some (length [0x7FF8000000000001, 0xFFF0000000000000 :: double], [0x7FF8000000000001, 0xFFF0000000000000], bytes)"
  by (rule machete_short_verbatim) simp

end
