(* ===== verification/Lfzip.thy ===== *)
theory Lfzip
  imports Ieee_Double
begin

text \<open>
  LFZip, \<open>Machete/lfzip/lfzip.cpp\<close> and \<open>lfzip_predictor.cpp\<close>: prediction by a normalised
  least-mean-squares filter over the reconstructed values, quantisation into 16-bit bins, exact
  storage of what does not fit, and the block compressor \<open>libbsc\<close> on the result.

  \<open>libbsc\<close> is not part of the sources: its two functions are arguments.  \<open>bsc_compress\<close> yields an error
  code or the block, \<open>bsc_decompress\<close> fails or fills the buffer.  The vector \<open>reconstruction\<close> is
  represented by its first \<open>i\<close> elements, the only ones the predictor reads at step \<open>i\<close>.
\<close>

section \<open>The predictor\<close>

definition lit_half :: double where
  "lit_half = 0x3FE0000000000000"

definition lit_1000 :: double where
  "lit_1000 = 0x408F400000000000"

definition dot_product :: "double list \<Rightarrow> double list \<Rightarrow> double" where
  "dot_product a b = foldl (\<lambda>ret (x, y). f64_add ret (f64_mul x y)) 0 (zip a b)"

record nlms =
  nl_n :: nat
  nl_mu :: double
  nl_eps :: double
  nl_w :: "double list"

text \<open>The constructor throws for parameters outside \<open>(0, 1000)\<close>.\<close>

definition NLMS_base :: "nat \<Rightarrow> double \<Rightarrow> double \<Rightarrow> nlms option" where
  "NLMS_base n mu eps =
     (if f64_le lit_1000 mu \<or> f64_le mu 0 \<or> f64_le lit_1000 eps \<or> f64_le eps 0 then None
      else Some \<lparr>nl_n = n, nl_mu = mu, nl_eps = eps, nl_w = replicate n 0\<rparr>)"

definition nlms_adapt :: "nlms \<Rightarrow> double \<Rightarrow> double list \<Rightarrow> nlms" where
  "nlms_adapt f true_val arr =
     (let y = dot_product (nl_w f) arr;
          e = f64_sub true_val y;
          nu = f64_div (nl_mu f) (f64_add (nl_eps f) (dot_product arr arr))
      in f\<lparr>nl_w := map (\<lambda>(w, a). f64_add w (f64_mul (f64_mul nu e) a)) (zip (nl_w f) arr)\<rparr>)"

definition nlms_predict :: "nlms \<Rightarrow> double list \<Rightarrow> double" where
  "nlms_predict f arr = dot_product arr (nl_w f)"

definition slice :: "nat \<Rightarrow> nat \<Rightarrow> 'a list \<Rightarrow> 'a list" where
  "slice i n xs = take n (drop i xs)"

text \<open>\<open>NLMS_predictor::predict\<close> at \<open>idx = length recon\<close>.\<close>

definition predictor_predict :: "nlms \<Rightarrow> double list \<Rightarrow> double \<times> nlms" where
  "predictor_predict f recon =
     (let idx = length recon; n = nl_n f
      in if n < idx
         then let f = nlms_adapt f (recon ! (idx - 1)) (slice (idx - n - 1) n recon)
              in (nlms_predict f (slice (idx - n) n recon), f)
         else if 0 < idx then (recon ! (idx - 1), f)
         else (0, f))"

definition NLMS_predictor :: "nat \<Rightarrow> double \<Rightarrow> nlms option" where
  "NLMS_predictor n mu = NLMS_base n mu lit_1"

section \<open>Compression\<close>

text \<open>\<open>std::round\<close>: to the nearest integer, halves away from zero.\<close>

definition f64_round :: "double \<Rightarrow> double" where
  "f64_round x =
     (if f64_finite x
      then pack (neg x) (round_units ((2 * units (mag x) + one_units) div (2 * one_units) * one_units) 1)
      else x)"

definition MAX_BIN_IDX :: int where
  "MAX_BIN_IDX = 32767"

definition MIN_BIN_IDX :: int where
  "MIN_BIN_IDX = - 32767"

definition bin_value :: "double \<Rightarrow> double \<Rightarrow> int \<Rightarrow> double" where
  "bin_value predval error bin_idx =
     f64_add predval (f64_mul (f64_mul error (f64_of_int bin_idx)) lit_2)"

text \<open>One step: the stored index, the overflow values it appends and the reconstructed value.\<close>

definition lfzip_quantise :: "double \<Rightarrow> double \<Rightarrow> double \<Rightarrow> (u16 \<times> double list \<times> double) option" where
  "lfzip_quantise error predval dataval = do {
     let diff = f64_sub dataval predval;
     bin_idx \<leftarrow> f64_to_int 64 (f64_round (f64_div diff (f64_mul lit_2 error)));
     let r = bin_value predval error bin_idx;
     Some (if MIN_BIN_IDX \<le> bin_idx \<and> bin_idx \<le> MAX_BIN_IDX \<and> f64_le (f64_abs (f64_sub r dataval)) error
           then (word_of_int bin_idx, [], r)
           else (word_of_int (MIN_BIN_IDX - 1), [dataval], dataval)) }"

fun lfzip_loop ::
  "double \<Rightarrow> nlms \<Rightarrow> double list \<Rightarrow> double list \<Rightarrow> (u16 list \<times> double list \<times> double list) option" where
  "lfzip_loop error f recon [] = Some ([], [], recon)"
| "lfzip_loop error f recon (x # xs) = do {
     let (predval, f) = predictor_predict f recon;
     (b, o1, r) \<leftarrow> lfzip_quantise error predval x;
     (bs, os, recon) \<leftarrow> lfzip_loop error f (recon @ [r]) xs;
     Some (b # bs, o1 @ os, recon) }"

text \<open>The returned size and the output buffer: the result code of \<open>libbsc\<close> is added to 4 without
  a test.\<close>

definition lfzip_compress ::
  "(u8 list \<Rightarrow> int + u8 list) \<Rightarrow> double list \<Rightarrow> double \<Rightarrow> (int \<times> u8 list) option" where
  "lfzip_compress bsc_compress xs error = do {
     f \<leftarrow> NLMS_predictor 32 lit_half;
     (bins, overflow, recon) \<leftarrow> lfzip_loop error f [] xs;
     let len_bytes = le_bytes 4 (of_nat (length xs) :: u32);
     Some (case bsc_compress (array_bytes 2 bins @ array_bytes 8 overflow) of
             Inl code \<Rightarrow> (code + 4, len_bytes)
           | Inr block \<Rightarrow> (int (length block) + 4, len_bytes @ block)) }"

section \<open>Decompression\<close>

fun lfzip_restore :: "double \<Rightarrow> nlms \<Rightarrow> double list \<Rightarrow> u16 list \<Rightarrow> double list \<Rightarrow> double list option" where
  "lfzip_restore error f recon [] overflow = Some recon"
| "lfzip_restore error f recon (b # bs) overflow =
     (let (predval, f) = predictor_predict f recon; bin_idx = sint b
      in if bin_idx = MIN_BIN_IDX - 1
         then case overflow of
                [] \<Rightarrow> None
              | r # overflow \<Rightarrow> lfzip_restore error f (recon @ [r]) bs overflow
         else lfzip_restore error f (recon @ [bin_value predval error bin_idx]) bs overflow)"

definition lfzip_decompress ::
  "(u8 list \<Rightarrow> nat \<Rightarrow> u8 list option) \<Rightarrow> u8 list \<Rightarrow> double \<Rightarrow> double list option" where
  "lfzip_decompress bsc_decompress inp error = do {
     (hdr, block) \<leftarrow> read_array 4 1 inp;
     let len = unat (hdr ! 0 :: u32);
     let tmp_size = i32 (10 * int len);
     (if tmp_size < 0 then None
      else do {
        tmp \<leftarrow> bsc_decompress block (nat tmp_size);
        (bins, rest) \<leftarrow> read_array 2 len tmp;
        (overflow, _) \<leftarrow> read_array 8 (length rest div 8) rest;
        f \<leftarrow> NLMS_predictor 32 lit_half;
        lfzip_restore error f [] bins overflow }) }"

section \<open>The decoder follows the encoder\<close>

text \<open>A value is kept exactly or passes the comparison with the bound.\<close>

definition kept :: "double \<Rightarrow> double \<Rightarrow> double \<Rightarrow> bool" where
  "kept error x y \<longleftrightarrow> y = x \<or> f64_le (f64_abs (f64_sub y x)) error"

lemma quantise_restore:
  assumes "lfzip_quantise error p x = Some (b, o1, r)"
  shows "kept error x r" "length o1 \<le> 1"
    "sint b = MIN_BIN_IDX - 1 \<and> o1 = [r] \<or>
     sint b \<noteq> MIN_BIN_IDX - 1 \<and> o1 = [] \<and> r = bin_value p error (sint b)"
proof -
  obtain k where k: "f64_to_int 64 (f64_round (f64_div (f64_sub x p) (f64_mul lit_2 error))) = Some k"
    using assms by (auto simp: lfzip_quantise_def Let_def bind_eq_Some_conv)
  let ?r = "bin_value p error k"
  let ?fits = "MIN_BIN_IDX \<le> k \<and> k \<le> MAX_BIN_IDX \<and> f64_le (f64_abs (f64_sub ?r x)) error"
  have eq: "(b, o1, r) = (if ?fits then (word_of_int k, [], ?r) else (word_of_int (MIN_BIN_IDX - 1), [x], x))"
    using assms by (simp add: lfzip_quantise_def k Let_def)
  have s: "sint (word_of_int i :: u16) = i" if "- 32768 \<le> i" "i \<le> 32767" for i
    using that by (simp add: sint_sbintrunc' signed_take_bit_int_eq_self)
  show "kept error x r" "length o1 \<le> 1" using eq by (auto simp: kept_def split: if_splits)
  show "sint b = MIN_BIN_IDX - 1 \<and> o1 = [r] \<or>
     sint b \<noteq> MIN_BIN_IDX - 1 \<and> o1 = [] \<and> r = bin_value p error (sint b)"
    using eq s by (auto simp: MIN_BIN_IDX_def MAX_BIN_IDX_def split: if_splits)
qed

lemma loop_restore:
  assumes "lfzip_loop error f recon xs = Some (bins, overflow, ys)"
  shows "length bins = length xs \<and> length overflow \<le> length xs \<and>
    lfzip_restore error f recon bins overflow = Some ys \<and>
    (\<exists>zs. ys = recon @ zs \<and> list_all2 (kept error) xs zs)"
  using assms
proof (induction xs arbitrary: f recon bins overflow)
  case Nil
  then show ?case by simp
next
  case (Cons x xs)
  obtain p g where pg: "predictor_predict f recon = (p, g)" by force
  obtain b o1 r where q: "lfzip_quantise error p x = Some (b, o1, r)"
    using Cons.prems pg by (auto simp: bind_eq_Some_conv)
  obtain bs os where l: "lfzip_loop error g (recon @ [r]) xs = Some (bs, os, ys)"
    and eq: "bins = b # bs" "overflow = o1 @ os"
    using Cons.prems pg q by (auto simp: bind_eq_Some_conv)
  note ih = Cons.IH [OF l] and qr = quantise_restore [OF q]
  have "lfzip_restore error f recon bins overflow = Some ys"
    using qr(3) ih pg by (auto simp: eq Let_def)
  moreover obtain zs where "ys = (recon @ [r]) @ zs" "list_all2 (kept error) xs zs" using ih by blast
  then have "\<exists>zs. ys = recon @ zs \<and> list_all2 (kept error) (x # xs) zs"
    using qr(1) by (intro exI [of _ "r # zs"]) simp
  ultimately show ?case using ih qr(2) by (simp add: eq)
qed

lemma NLMS_predictor_32:
  "NLMS_predictor 32 lit_half = Some \<lparr>nl_n = 32, nl_mu = lit_half, nl_eps = lit_1, nl_w = replicate 32 0\<rparr>"
  by (simp add: NLMS_predictor_def NLMS_base_def f64_le_def sunits_def mag_def neg_def units_def
      lit_1000_def lit_half_def lit_1_def)

text \<open>C17. LFZip keeps its error bound: if \<open>libbsc\<close> compresses the block and decompression inverts
  it, and no quotient overflows the cast to \<open>int64_t\<close>, then decompression returns as many values as
  were compressed, each of them either exact or accepted by the test
  \<open>abs(reconstruction[i] - dataval) <= error\<close> of the compressor, whatever the filter predicts.\<close>

theorem lfzip_error_bound:
  assumes "\<forall>d. bsc_compress d = Inr (block d)"
    "\<forall>d n. length d \<le> n \<longrightarrow> bsc_decompress (block d) n = Some d"
    "lfzip_loop error \<lparr>nl_n = 32, nl_mu = lit_half, nl_eps = lit_1, nl_w = replicate 32 0\<rparr> [] xs \<noteq> None"
    "length xs < 2 ^ 27"
  shows "\<exists>bytes ys. lfzip_compress bsc_compress xs error = Some (int (length bytes), bytes) \<and>
    lfzip_decompress bsc_decompress bytes error = Some ys \<and>
    list_all2 (\<lambda>x y. y = x \<or> f64_le (f64_abs (f64_sub y x)) error) xs ys"
proof -
  let ?f = "\<lparr>nl_n = 32, nl_mu = lit_half, nl_eps = lit_1, nl_w = replicate 32 0\<rparr>"
  note f = NLMS_predictor_32
  obtain bins overflow ys where l: "lfzip_loop error ?f [] xs = Some (bins, overflow, ys)"
    using assms(3) by auto
  note r = loop_restore [OF l]
  let ?tmp = "array_bytes 2 bins @ array_bytes 8 overflow"
  let ?hdr = "[of_nat (length xs) :: u32]"
  let ?bytes = "array_bytes 4 ?hdr @ block ?tmp"
  have n: "unat (of_nat (length xs) :: u32) = length xs"
    using assms(4) by (simp add: unat_of_nat take_bit_nat_eq_self)
  then have u: "uint (of_nat (length xs) :: u32) = int (length xs)" by (metis uint_nat)
  have tmp: "bsc_decompress (block ?tmp) (10 * length xs) = Some ?tmp"
    using assms(2) r by simp
  have i: "i32 (10 * int (length xs)) = 10 * int (length xs)" using assms(4) by (intro i32_id) simp_all
  have r1: "read_array 4 1 ?bytes = Some (?hdr, block ?tmp)"
    by (rule read_array_bytes) simp_all
  have r2: "read_array 2 (length xs) ?tmp = Some (bins, array_bytes 8 overflow)"
    using r by (intro read_array_bytes) simp_all
  have r3: "read_array 8 (length (array_bytes 8 overflow) div 8) (array_bytes 8 overflow) = Some (overflow, [])"
    using read_array_bytes [of 8 overflow "length overflow" "[]"] by simp
  have "lfzip_decompress bsc_decompress ?bytes error = Some ys"
    unfolding lfzip_decompress_def using r n i tmp f r2 r3 u
    by (simp add: r1 [simplified] nat_mult_distrib Let_def del: read_array_bytes)
  moreover have "lfzip_compress bsc_compress xs error = Some (int (length ?bytes), ?bytes)"
    by (simp add: lfzip_compress_def f l assms(1))
  moreover have "list_all2 (\<lambda>x y. y = x \<or> f64_le (f64_abs (f64_sub y x)) error) xs ys"
    using r by (simp add: kept_def [abs_def])
  ultimately show ?thesis by blast
qed

lemma double_one: "f64_finite (f64_mul lit_2 lit_1)" "mag (f64_mul lit_2 lit_1) \<noteq> 0" "\<not> neg (f64_mul lit_2 lit_1)"
proof -
  let ?y = "f64_mul lit_2 lit_1"
  have "(2 :: real) ^ 1 \<le> 2 ^ 1022" by (rule power_increasing) simp_all
  then have "\<bar>val lit_2 * val lit_1\<bar> \<le> f64_big" by (simp add: lit_1_val lit_2_val f64_big_def)
  note m = mul_near [OF lit_2_val(1) lit_1_val(1) this]
  show "f64_finite ?y" "\<not> neg ?y" using nearD(1) [OF m(1)] m(2) lit_1_val(3) lit_2_val(3) by simp_all
  define t where "t = 1 / 2 / real one_units"
  have "1 \<le> real one_units" using one_units_pos(1) by linarith
  then have "t \<le> 1 / 2" by (simp add: t_def field_simps)
  moreover have "\<bar>val ?y - 2\<bar> \<le> 2 / 2 ^ 53 + t"
    using nearD(2) [OF m(1)] unfolding t_def lit_1_val(2) lit_2_val(2) by simp
  ultimately have "val ?y \<noteq> 0" by auto
  then show "mag ?y \<noteq> 0" by (simp add: val_eq_0)
qed

lemma quantise_zero: "lfzip_quantise lit_1 0 0 \<noteq> None"
proof -
  let ?y = "f64_mul lit_2 lit_1"
  have d: "f64_sub 0 0 = 0"
    by (simp add: f64_sub_def f64_add_def zero_facts f64_nan_def f64_is_inf_def inf_mag_def sunits_def units_def)
  have q: "f64_div 0 ?y = 0"
    using double_one finite_cases [of ?y] zero_facts
    by (simp add: f64_div_def Let_def finite_cases units_def)
  have "f64_round 0 = 0" by (simp add: f64_round_def zero_facts units_def)
  moreover have "f64_to_int 64 0 = Some 0"
    by (simp add: f64_to_int_def zero_facts f64_trunc_def units_def)
  ultimately show ?thesis by (simp add: lfzip_quantise_def d q Let_def)
qed

text \<open>Witness of C17: a block compressor that stores its input, the series 0 with the bound 1.\<close>

theorem lfzip_error_bound_witness:
  "\<exists>bytes ys. lfzip_compress Inr [0] lit_1 = Some (int (length bytes), bytes) \<and>
    lfzip_decompress (\<lambda>c n. if length c \<le> n then Some c else None) bytes lit_1 = Some ys \<and>
    list_all2 (\<lambda>x y. y = x \<or> f64_le (f64_abs (f64_sub y x)) lit_1) [0] ys"
proof (rule lfzip_error_bound [where block = "\<lambda>d. d"])
  obtain b o1 r where "lfzip_quantise lit_1 0 0 = Some (b, o1, r)" using quantise_zero by auto
  then show "lfzip_loop lit_1 \<lparr>nl_n = 32, nl_mu = lit_half, nl_eps = lit_1, nl_w = replicate 32 0\<rparr> [] [0] \<noteq> None"
    by (simp add: predictor_predict_def)
qed simp_all

text \<open>C20. Errors of \<open>libbsc\<close> are reported as sizes: the codes \<open>LIBBSC_BAD_PARAMETER\<close>,
  \<open>LIBBSC_NOT_ENOUGH_MEMORY\<close> and \<open>LIBBSC_NOT_COMPRESSIBLE\<close> (-1 to -3) come out of \<open>lfzip_compress\<close> as
  positive sizes, which a caller takes for success.\<close>

theorem lfzip_error_masked:
  assumes "\<forall>d. bsc_compress d = Inl code" "code \<in> {- 3, - 2, - 1}"
    "lfzip_loop error \<lparr>nl_n = 32, nl_mu = lit_half, nl_eps = lit_1, nl_w = replicate 32 0\<rparr> [] xs \<noteq> None"
  shows "\<exists>size bytes. lfzip_compress bsc_compress xs error = Some (size, bytes) \<and> 0 < size"
proof -
  obtain r where "lfzip_loop error \<lparr>nl_n = 32, nl_mu = lit_half, nl_eps = lit_1, nl_w = replicate 32 0\<rparr> [] xs = Some r"
    using assms(3) by blast
  with assms(1,2) show ?thesis
    by (cases r) (auto simp: lfzip_compress_def NLMS_predictor_32)
qed

text \<open>Witness of C20: \<open>LIBBSC_NOT_COMPRESSIBLE\<close> on the series 0.\<close>

theorem lfzip_error_masked_witness:
  "\<exists>size bytes. lfzip_compress (\<lambda>d. Inl (- 3)) [0] lit_1 = Some (size, bytes) \<and> 0 < size"
proof (rule lfzip_error_masked [where code = "- 3"])
  obtain b o1 r where "lfzip_quantise lit_1 0 0 = Some (b, o1, r)" using quantise_zero by auto
  then show "lfzip_loop lit_1 \<lparr>nl_n = 32, nl_mu = lit_half, nl_eps = lit_1, nl_w = replicate 32 0\<rparr> [] [0] \<noteq> None"
    by (simp add: predictor_predict_def)
qed simp_all

end
