(* ===== verification/Xxhash.thy ===== *)
theory Xxhash
  imports Prelude
begin

text \<open>
  The checksum of the bundled Zstandard library, \<open>SZ3/tools/zstd/common/xxhash.c\<close>: \<open>XXH32\<close> and \<open>XXH64\<close>
  in one call and as streams (\<open>reset\<close>, \<open>update\<close>, \<open>digest\<close>), and the canonical representation.

  Memory is a list of bytes.  A word read from it depends on the byte order of the machine, the
  first argument \<open>cpu\<close> of the functions; alignment does not change the value read, and both branches
  on it are kept.  A pointer into the input is the rest of the input.
\<close>

section \<open>Memory\<close>

datatype XXH_endianess = XXH_bigEndian | XXH_littleEndian

datatype XXH_alignment = XXH_aligned | XXH_unaligned

definition mem_word :: "XXH_endianess \<Rightarrow> u8 list \<Rightarrow> 'a::len word" where
  "mem_word cpu bs = of_le_bytes (if cpu = XXH_littleEndian then bs else rev bs)"

definition mem_bytes :: "XXH_endianess \<Rightarrow> nat \<Rightarrow> 'a::len word \<Rightarrow> u8 list" where
  "mem_bytes cpu n w = (if cpu = XXH_littleEndian then le_bytes n w else rev (le_bytes n w))"

definition XXH_read32 :: "XXH_endianess \<Rightarrow> u8 list \<Rightarrow> u32" where
  "XXH_read32 cpu p = mem_word cpu (take 4 p)"

definition XXH_read64 :: "XXH_endianess \<Rightarrow> u8 list \<Rightarrow> u64" where
  "XXH_read64 cpu p = mem_word cpu (take 8 p)"

definition XXH_rotl32 :: "u32 \<Rightarrow> nat \<Rightarrow> u32" where
  "XXH_rotl32 x r = push_bit r x OR drop_bit (32 - r) x"

definition XXH_rotl64 :: "u64 \<Rightarrow> nat \<Rightarrow> u64" where
  "XXH_rotl64 x r = push_bit r x OR drop_bit (64 - r) x"

definition XXH_swap32 :: "u32 \<Rightarrow> u32" where
  "XXH_swap32 x =
     (push_bit 24 x AND 0xff000000) OR (push_bit 8 x AND 0x00ff0000) OR
     (drop_bit 8 x AND 0x0000ff00) OR (drop_bit 24 x AND 0x000000ff)"

definition XXH_swap64 :: "u64 \<Rightarrow> u64" where
  "XXH_swap64 x =
     (push_bit 56 x AND 0xff00000000000000) OR (push_bit 40 x AND 0x00ff000000000000) OR
     (push_bit 24 x AND 0x0000ff0000000000) OR (push_bit 8 x AND 0x000000ff00000000) OR
     (drop_bit 8 x AND 0x00000000ff000000) OR (drop_bit 24 x AND 0x0000000000ff0000) OR
     (drop_bit 40 x AND 0x000000000000ff00) OR (drop_bit 56 x AND 0x00000000000000ff)"

definition XXH_readLE32_align :: "XXH_endianess \<Rightarrow> u8 list \<Rightarrow> XXH_endianess \<Rightarrow> XXH_alignment \<Rightarrow> u32" where
  "XXH_readLE32_align cpu p endian align =
     (if align = XXH_unaligned
      then if endian = XXH_littleEndian then XXH_read32 cpu p else XXH_swap32 (XXH_read32 cpu p)
      else if endian = XXH_littleEndian then mem_word cpu (take 4 p) else XXH_swap32 (mem_word cpu (take 4 p)))"

definition XXH_readLE32 :: "XXH_endianess \<Rightarrow> u8 list \<Rightarrow> XXH_endianess \<Rightarrow> u32" where
  "XXH_readLE32 cpu p endian = XXH_readLE32_align cpu p endian XXH_unaligned"

definition XXH_readBE32 :: "XXH_endianess \<Rightarrow> u8 list \<Rightarrow> u32" where
  "XXH_readBE32 cpu p =
     (if cpu = XXH_littleEndian then XXH_swap32 (XXH_read32 cpu p) else XXH_read32 cpu p)"

definition XXH_readLE64_align :: "XXH_endianess \<Rightarrow> u8 list \<Rightarrow> XXH_endianess \<Rightarrow> XXH_alignment \<Rightarrow> u64" where
  "XXH_readLE64_align cpu p endian align =
     (if align = XXH_unaligned
      then if endian = XXH_littleEndian then XXH_read64 cpu p else XXH_swap64 (XXH_read64 cpu p)
      else if endian = XXH_littleEndian then mem_word cpu (take 8 p) else XXH_swap64 (mem_word cpu (take 8 p)))"

definition XXH_readLE64 :: "XXH_endianess \<Rightarrow> u8 list \<Rightarrow> XXH_endianess \<Rightarrow> u64" where
  "XXH_readLE64 cpu p endian = XXH_readLE64_align cpu p endian XXH_unaligned"

definition XXH_readBE64 :: "XXH_endianess \<Rightarrow> u8 list \<Rightarrow> u64" where
  "XXH_readBE64 cpu p =
     (if cpu = XXH_littleEndian then XXH_swap64 (XXH_read64 cpu p) else XXH_read64 cpu p)"

section \<open>XXH32 in one call\<close>

definition PRIME32_1 :: u32 where "PRIME32_1 = 2654435761"
definition PRIME32_2 :: u32 where "PRIME32_2 = 2246822519"
definition PRIME32_3 :: u32 where "PRIME32_3 = 3266489917"
definition PRIME32_4 :: u32 where "PRIME32_4 = 668265263"
definition PRIME32_5 :: u32 where "PRIME32_5 = 374761393"

definition XXH32_round :: "u32 \<Rightarrow> u32 \<Rightarrow> u32" where
  "XXH32_round seed input = XXH_rotl32 (seed + input * PRIME32_2) 13 * PRIME32_1"

type_synonym 'w lanes = "'w \<times> 'w \<times> 'w \<times> 'w"

definition XXH32_lanes :: "u32 \<Rightarrow> u32 lanes" where
  "XXH32_lanes seed = (seed + PRIME32_1 + PRIME32_2, seed + PRIME32_2, seed + 0, seed - PRIME32_1)"

text \<open>One pass of the loop over 16 bytes; \<open>get\<close> is the macro \<open>XXH_get32bits\<close>.\<close>

definition XXH32_stripe :: "(u8 list \<Rightarrow> u32) \<Rightarrow> u32 lanes \<Rightarrow> u8 list \<Rightarrow> u32 lanes" where
  "XXH32_stripe get v p =
     (case v of (v1, v2, v3, v4) \<Rightarrow>
        (XXH32_round v1 (get p), XXH32_round v2 (get (drop 4 p)),
         XXH32_round v3 (get (drop 8 p)), XXH32_round v4 (get (drop 12 p))))"

text \<open>The loop \<open>do ... while (p <= limit)\<close> over blocks of \<open>n\<close> bytes, entered only when one is left.\<close>

function stripes :: "nat \<Rightarrow> ('v \<Rightarrow> u8 list \<Rightarrow> 'v) \<Rightarrow> 'v \<Rightarrow> u8 list \<Rightarrow> 'v \<times> u8 list" where
  "stripes n absorb v p =
     (if n = 0 \<or> length p < n then (v, p) else stripes n absorb (absorb v p) (drop n p))"
  by pat_completeness auto
termination by (relation "measure (\<lambda>(n, _, _, p). length p)") auto

declare stripes.simps [simp del]

definition XXH32_merge :: "u32 lanes \<Rightarrow> u32" where
  "XXH32_merge v =
     (case v of (v1, v2, v3, v4) \<Rightarrow>
        XXH_rotl32 v1 1 + XXH_rotl32 v2 7 + XXH_rotl32 v3 12 + XXH_rotl32 v4 18)"

fun XXH32_bytes :: "u32 \<Rightarrow> u8 list \<Rightarrow> u32" where
  "XXH32_bytes h [] = h"
| "XXH32_bytes h (b # p) = XXH32_bytes (XXH_rotl32 (h + ucast b * PRIME32_5) 11 * PRIME32_1) p"

definition XXH32_words :: "(u8 list \<Rightarrow> u32) \<Rightarrow> u32 \<Rightarrow> u8 list \<Rightarrow> u32 \<times> u8 list" where
  "XXH32_words get h p =
     stripes 4 (\<lambda>h p. XXH_rotl32 (h + get p * PRIME32_3) 17 * PRIME32_4) h p"

definition XXH32_avalanche :: "u32 \<Rightarrow> u32" where
  "XXH32_avalanche h =
     (let h = h XOR drop_bit 15 h; h = h * PRIME32_2;
          h = h XOR drop_bit 13 h; h = h * PRIME32_3
      in h XOR drop_bit 16 h)"

definition XXH32_endian_align ::
  "XXH_endianess \<Rightarrow> u8 list \<Rightarrow> u32 \<Rightarrow> XXH_endianess \<Rightarrow> XXH_alignment \<Rightarrow> u32" where
  "XXH32_endian_align cpu input seed endian align =
     (let get = (\<lambda>p. XXH_readLE32_align cpu p endian align);
          (h, p) = (if 16 \<le> length input
                    then let (v, p) = stripes 16 (XXH32_stripe get) (XXH32_lanes seed) input
                         in (XXH32_merge v, p)
                    else (seed + PRIME32_5, input));
          h = h + of_nat (length input);
          (h, p) = XXH32_words get h p
      in XXH32_avalanche (XXH32_bytes h p))"

text \<open>\<open>aligned\<close> tells whether the address of the input is a multiple of the word size;
  \<open>XXH_FORCE_ALIGN_CHECK\<close> is 0 on x86 and 1 elsewhere, \<open>XXH_FORCE_NATIVE_FORMAT\<close> is 0.\<close>

definition XXH32 :: "XXH_endianess \<Rightarrow> bool \<Rightarrow> bool \<Rightarrow> u8 list \<Rightarrow> u32 \<Rightarrow> u32" where
  "XXH32 cpu align_check aligned input seed =
     (if align_check \<and> aligned
      then if cpu = XXH_littleEndian
           then XXH32_endian_align cpu input seed XXH_littleEndian XXH_aligned
           else XXH32_endian_align cpu input seed XXH_bigEndian XXH_aligned
      else if cpu = XXH_littleEndian
           then XXH32_endian_align cpu input seed XXH_littleEndian XXH_unaligned
           else XXH32_endian_align cpu input seed XXH_bigEndian XXH_unaligned)"

section \<open>XXH64 in one call\<close>

definition PRIME64_1 :: u64 where "PRIME64_1 = 11400714785074694791"
definition PRIME64_2 :: u64 where "PRIME64_2 = 14029467366897019727"
definition PRIME64_3 :: u64 where "PRIME64_3 = 1609587929392839161"
definition PRIME64_4 :: u64 where "PRIME64_4 = 9650029242287828579"
definition PRIME64_5 :: u64 where "PRIME64_5 = 2870177450012600261"

definition XXH64_round :: "u64 \<Rightarrow> u64 \<Rightarrow> u64" where
  "XXH64_round acc input = XXH_rotl64 (acc + input * PRIME64_2) 31 * PRIME64_1"

definition XXH64_mergeRound :: "u64 \<Rightarrow> u64 \<Rightarrow> u64" where
  "XXH64_mergeRound acc x = (acc XOR XXH64_round 0 x) * PRIME64_1 + PRIME64_4"

definition XXH64_lanes :: "u64 \<Rightarrow> u64 lanes" where
  "XXH64_lanes seed = (seed + PRIME64_1 + PRIME64_2, seed + PRIME64_2, seed + 0, seed - PRIME64_1)"

definition XXH64_stripe :: "(u8 list \<Rightarrow> u64) \<Rightarrow> u64 lanes \<Rightarrow> u8 list \<Rightarrow> u64 lanes" where
  "XXH64_stripe get v p =
     (case v of (v1, v2, v3, v4) \<Rightarrow>
        (XXH64_round v1 (get p), XXH64_round v2 (get (drop 8 p)),
         XXH64_round v3 (get (drop 16 p)), XXH64_round v4 (get (drop 24 p))))"

definition XXH64_merge :: "u64 lanes \<Rightarrow> u64" where
  "XXH64_merge v =
     (case v of (v1, v2, v3, v4) \<Rightarrow>
        let h = XXH_rotl64 v1 1 + XXH_rotl64 v2 7 + XXH_rotl64 v3 12 + XXH_rotl64 v4 18;
            h = XXH64_mergeRound h v1; h = XXH64_mergeRound h v2;
            h = XXH64_mergeRound h v3
        in XXH64_mergeRound h v4)"

definition XXH64_words :: "(u8 list \<Rightarrow> u64) \<Rightarrow> u64 \<Rightarrow> u8 list \<Rightarrow> u64 \<times> u8 list" where
  "XXH64_words get h p =
     stripes 8 (\<lambda>h p. XXH_rotl64 (h XOR XXH64_round 0 (get p)) 27 * PRIME64_1 + PRIME64_4) h p"

definition XXH64_half :: "(u8 list \<Rightarrow> u32) \<Rightarrow> u64 \<Rightarrow> u8 list \<Rightarrow> u64 \<times> u8 list" where
  "XXH64_half get32 h p =
     (if 4 \<le> length p
      then (XXH_rotl64 (h XOR ucast (get32 p) * PRIME64_1) 23 * PRIME64_2 + PRIME64_3, drop 4 p)
      else (h, p))"

fun XXH64_bytes :: "u64 \<Rightarrow> u8 list \<Rightarrow> u64" where
  "XXH64_bytes h [] = h"
| "XXH64_bytes h (b # p) = XXH64_bytes (XXH_rotl64 (h XOR ucast b * PRIME64_5) 11 * PRIME64_1) p"

definition XXH64_avalanche :: "u64 \<Rightarrow> u64" where
  "XXH64_avalanche h =
     (let h = h XOR drop_bit 33 h; h = h * PRIME64_2;
          h = h XOR drop_bit 29 h; h = h * PRIME64_3
      in h XOR drop_bit 32 h)"

definition XXH64_endian_align ::
  "XXH_endianess \<Rightarrow> u8 list \<Rightarrow> u64 \<Rightarrow> XXH_endianess \<Rightarrow> XXH_alignment \<Rightarrow> u64" where
  "XXH64_endian_align cpu input seed endian align =
     (let get = (\<lambda>p. XXH_readLE64_align cpu p endian align);
          (h, p) = (if 32 \<le> length input
                    then let (v, p) = stripes 32 (XXH64_stripe get) (XXH64_lanes seed) input
                         in (XXH64_merge v, p)
                    else (seed + PRIME64_5, input));
          h = h + of_nat (length input);
          (h, p) = XXH64_words get h p;
          (h, p) = XXH64_half (\<lambda>p. XXH_readLE32_align cpu p endian align) h p
      in XXH64_avalanche (XXH64_bytes h p))"

definition XXH64 :: "XXH_endianess \<Rightarrow> bool \<Rightarrow> bool \<Rightarrow> u8 list \<Rightarrow> u64 \<Rightarrow> u64" where
  "XXH64 cpu align_check aligned input seed =
     (if align_check \<and> aligned
      then if cpu = XXH_littleEndian
           then XXH64_endian_align cpu input seed XXH_littleEndian XXH_aligned
           else XXH64_endian_align cpu input seed XXH_bigEndian XXH_aligned
      else if cpu = XXH_littleEndian
           then XXH64_endian_align cpu input seed XXH_littleEndian XXH_unaligned
           else XXH64_endian_align cpu input seed XXH_bigEndian XXH_unaligned)"

section \<open>Streams\<close>

record xxh32_state =
  total_len_32 :: u32
  large_len :: bool
  v32 :: "u32 lanes"
  mem32 :: "u8 list"
  memsize32 :: nat

definition XXH32_reset :: "u32 \<Rightarrow> xxh32_state" where
  "XXH32_reset seed =
     \<lparr>total_len_32 = 0, large_len = False, v32 = XXH32_lanes seed, mem32 = replicate 16 0, memsize32 = 0\<rparr>"

definition XXH32_update_endian :: "XXH_endianess \<Rightarrow> xxh32_state \<Rightarrow> u8 list \<Rightarrow> XXH_endianess \<Rightarrow> xxh32_state" where
  "XXH32_update_endian cpu state input endian =
     (let len = length input;
          get = (\<lambda>p. XXH_readLE32 cpu p endian);
          total = total_len_32 state + of_nat len;
          state = state\<lparr>total_len_32 := total,
                        large_len := (large_len state \<or> 16 \<le> len \<or> 16 \<le> total)\<rparr>
      in if memsize32 state + len < 16
         then state\<lparr>mem32 := mem_write (mem32 state) (memsize32 state) input,
                    memsize32 := memsize32 state + len\<rparr>
         else
           let (state, p) =
                 (if memsize32 state \<noteq> 0
                  then let k = 16 - memsize32 state;
                           mem = mem_write (mem32 state) (memsize32 state) (take k input)
                       in (state\<lparr>mem32 := mem, v32 := XXH32_stripe get (v32 state) mem, memsize32 := 0\<rparr>,
                           drop k input)
                  else (state, input));
               (v, p) = stripes 16 (XXH32_stripe get) (v32 state) p;
               state = state\<lparr>v32 := v\<rparr>
           in if p \<noteq> []
              then state\<lparr>mem32 := mem_write (mem32 state) 0 p, memsize32 := length p\<rparr>
              else state)"

definition XXH32_update :: "XXH_endianess \<Rightarrow> xxh32_state \<Rightarrow> u8 list \<Rightarrow> xxh32_state" where
  "XXH32_update cpu state input =
     (if cpu = XXH_littleEndian then XXH32_update_endian cpu state input XXH_littleEndian
      else XXH32_update_endian cpu state input XXH_bigEndian)"

definition XXH32_digest_endian :: "XXH_endianess \<Rightarrow> xxh32_state \<Rightarrow> XXH_endianess \<Rightarrow> u32" where
  "XXH32_digest_endian cpu state endian =
     (let get = (\<lambda>p. XXH_readLE32 cpu p endian);
          p = take (memsize32 state) (mem32 state);
          h = (if large_len state then XXH32_merge (v32 state)
               else fst (snd (snd (v32 state))) + PRIME32_5);
          h = h + total_len_32 state;
          (h, p) = XXH32_words get h p
      in XXH32_avalanche (XXH32_bytes h p))"

definition XXH32_digest :: "XXH_endianess \<Rightarrow> xxh32_state \<Rightarrow> u32" where
  "XXH32_digest cpu state =
     (if cpu = XXH_littleEndian then XXH32_digest_endian cpu state XXH_littleEndian
      else XXH32_digest_endian cpu state XXH_bigEndian)"

record xxh64_state =
  total_len :: u64
  v64 :: "u64 lanes"
  mem64 :: "u8 list"
  memsize64 :: nat

definition XXH64_reset :: "u64 \<Rightarrow> xxh64_state" where
  "XXH64_reset seed =
     \<lparr>total_len = 0, v64 = XXH64_lanes seed, mem64 = replicate 32 0, memsize64 = 0\<rparr>"

definition XXH64_update_endian :: "XXH_endianess \<Rightarrow> xxh64_state \<Rightarrow> u8 list \<Rightarrow> XXH_endianess \<Rightarrow> xxh64_state" where
  "XXH64_update_endian cpu state input endian =
     (let len = length input;
          get = (\<lambda>p. XXH_readLE64 cpu p endian);
          state = state\<lparr>total_len := total_len state + of_nat len\<rparr>
      in if memsize64 state + len < 32
         then state\<lparr>mem64 := mem_write (mem64 state) (memsize64 state) input,
                    memsize64 := memsize64 state + len\<rparr>
         else
           let (state, p) =
                 (if memsize64 state \<noteq> 0
                  then let k = 32 - memsize64 state;
                           mem = mem_write (mem64 state) (memsize64 state) (take k input)
                       in (state\<lparr>mem64 := mem, v64 := XXH64_stripe get (v64 state) mem, memsize64 := 0\<rparr>,
                           drop k input)
                  else (state, input));
               (v, p) = stripes 32 (XXH64_stripe get) (v64 state) p;
               state = state\<lparr>v64 := v\<rparr>
           in if p \<noteq> []
              then state\<lparr>mem64 := mem_write (mem64 state) 0 p, memsize64 := length p\<rparr>
              else state)"

definition XXH64_update :: "XXH_endianess \<Rightarrow> xxh64_state \<Rightarrow> u8 list \<Rightarrow> xxh64_state" where
  "XXH64_update cpu state input =
     (if cpu = XXH_littleEndian then XXH64_update_endian cpu state input XXH_littleEndian
      else XXH64_update_endian cpu state input XXH_bigEndian)"

definition XXH64_digest_endian :: "XXH_endianess \<Rightarrow> xxh64_state \<Rightarrow> XXH_endianess \<Rightarrow> u64" where
  "XXH64_digest_endian cpu state endian =
     (let get = (\<lambda>p. XXH_readLE64 cpu p endian);
          p = take (memsize64 state) (mem64 state);
          h = (if 32 \<le> total_len state then XXH64_merge (v64 state)
               else fst (snd (snd (v64 state))) + PRIME64_5);
          h = h + total_len state;
          (h, p) = XXH64_words get h p;
          (h, p) = XXH64_half (\<lambda>p. XXH_readLE32 cpu p endian) h p
      in XXH64_avalanche (XXH64_bytes h p))"

definition XXH64_digest :: "XXH_endianess \<Rightarrow> xxh64_state \<Rightarrow> u64" where
  "XXH64_digest cpu state =
     (if cpu = XXH_littleEndian then XXH64_digest_endian cpu state XXH_littleEndian
      else XXH64_digest_endian cpu state XXH_bigEndian)"

section \<open>Canonical representation\<close>

definition XXH32_canonicalFromHash :: "XXH_endianess \<Rightarrow> u32 \<Rightarrow> u8 list" where
  "XXH32_canonicalFromHash cpu h =
     mem_bytes cpu 4 (if cpu = XXH_littleEndian then XXH_swap32 h else h)"

definition XXH64_canonicalFromHash :: "XXH_endianess \<Rightarrow> u64 \<Rightarrow> u8 list" where
  "XXH64_canonicalFromHash cpu h =
     mem_bytes cpu 8 (if cpu = XXH_littleEndian then XXH_swap64 h else h)"

definition XXH32_hashFromCanonical :: "XXH_endianess \<Rightarrow> u8 list \<Rightarrow> u32" where
  "XXH32_hashFromCanonical cpu src = XXH_readBE32 cpu src"

definition XXH64_hashFromCanonical :: "XXH_endianess \<Rightarrow> u8 list \<Rightarrow> u64" where
  "XXH64_hashFromCanonical cpu src = XXH_readBE64 cpu src"

section \<open>The two byte orders\<close>

lemma swap_masks:
  "(0xff000000 :: u32) = push_bit 24 (mask 8)"
  "(0x00ff0000 :: u32) = push_bit 16 (mask 8)"
  "(0x0000ff00 :: u32) = push_bit 8 (mask 8)"
  "(0x000000ff :: u32) = mask 8"
  "(0xff00000000000000 :: u64) = push_bit 56 (mask 8)"
  "(0x00ff000000000000 :: u64) = push_bit 48 (mask 8)"
  "(0x0000ff0000000000 :: u64) = push_bit 40 (mask 8)"
  "(0x000000ff00000000 :: u64) = push_bit 32 (mask 8)"
  "(0x00000000ff000000 :: u64) = push_bit 24 (mask 8)"
  "(0x0000000000ff0000 :: u64) = push_bit 16 (mask 8)"
  "(0x000000000000ff00 :: u64) = push_bit 8 (mask 8)"
  "(0x00000000000000ff :: u64) = mask 8"
  by (simp_all add: mask_eq_exp_minus_1 push_bit_eq_mult)

lemma swap32_bit:
  assumes "i < 4" "j < 8"
  shows "bit (XXH_swap32 x) (8 * i + j) \<longleftrightarrow> bit x (8 * (3 - i) + j)"
proof -
  have "i = 0 \<or> i = 1 \<or> i = 2 \<or> i = 3" using assms by arith
  then show ?thesis
    unfolding XXH_swap32_def swap_masks using assms(2) by (elim disjE; simp add: bit_simps; auto)
qed

lemma swap64_bit:
  assumes "i < 8" "j < 8"
  shows "bit (XXH_swap64 x) (8 * i + j) \<longleftrightarrow> bit x (8 * (7 - i) + j)"
proof -
  have "i = 0 \<or> i = 1 \<or> i = 2 \<or> i = 3 \<or> i = 4 \<or> i = 5 \<or> i = 6 \<or> i = 7" using assms by arith
  then show ?thesis
    unfolding XXH_swap64_def swap_masks using assms(2) by (elim disjE; simp add: bit_simps; auto)
qed

lemma swap32_rev:
  assumes "length bs = 4"
  shows "XXH_swap32 (of_le_bytes bs) = of_le_bytes (rev bs)"
proof (rule bit_word_eqI)
  fix k :: nat
  assume "k < LENGTH(32)"
  then show "bit (XXH_swap32 (of_le_bytes bs)) k \<longleftrightarrow> bit (of_le_bytes (rev bs) :: u32) k"
    using swap32_bit [of "k div 8" "k mod 8" "of_le_bytes bs"] assms
    by (simp add: bit_of_le_bytes rev_nth less_mult_imp_div_less) linarith
qed

lemma swap64_rev:
  assumes "length bs = 8"
  shows "XXH_swap64 (of_le_bytes bs) = of_le_bytes (rev bs)"
proof (rule bit_word_eqI)
  fix k :: nat
  assume "k < LENGTH(64)"
  then show "bit (XXH_swap64 (of_le_bytes bs)) k \<longleftrightarrow> bit (of_le_bytes (rev bs) :: u64) k"
    using swap64_bit [of "k div 8" "k mod 8" "of_le_bytes bs"] assms
    by (simp add: bit_of_le_bytes rev_nth less_mult_imp_div_less) linarith
qed

lemma readLE32 [simp]: "4 \<le> length p \<Longrightarrow> XXH_readLE32_align cpu p cpu align = of_le_bytes (take 4 p)"
  by (cases cpu) (simp_all add: XXH_readLE32_align_def XXH_read32_def mem_word_def swap32_rev)

lemma readLE64 [simp]: "8 \<le> length p \<Longrightarrow> XXH_readLE64_align cpu p cpu align = of_le_bytes (take 8 p)"
  by (cases cpu) (simp_all add: XXH_readLE64_align_def XXH_read64_def mem_word_def swap64_rev)

lemma readBE32: "4 \<le> length p \<Longrightarrow> XXH_readBE32 cpu p = of_le_bytes (rev (take 4 p))"
  by (cases cpu) (simp_all add: XXH_readBE32_def XXH_read32_def mem_word_def swap32_rev)

lemma readBE64: "8 \<le> length p \<Longrightarrow> XXH_readBE64 cpu p = of_le_bytes (rev (take 8 p))"
  by (cases cpu) (simp_all add: XXH_readBE64_def XXH_read64_def mem_word_def swap64_rev)

lemma le_bytes_swap:
  "le_bytes 4 (XXH_swap32 w) = rev (le_bytes 4 w)"
  "le_bytes 8 (XXH_swap64 x) = rev (le_bytes 8 x)"
  using swap32_rev [of "le_bytes 4 w"] le_bytes_of_le_bytes [of "rev (le_bytes 4 w)", where 'a = 32]
    swap64_rev [of "le_bytes 8 x"] le_bytes_of_le_bytes [of "rev (le_bytes 8 x)", where 'a = 64]
  by simp_all

section \<open>Buffered absorption of blocks\<close>

text \<open>A hash of this family absorbs its input in blocks of \<open>n\<close> bytes; the stream version keeps an
  incomplete block in a buffer.  The buffer holds what the loop over the whole input leaves.\<close>

locale block_absorber =
  fixes n :: nat and absorb :: "'v \<Rightarrow> u8 list \<Rightarrow> 'v"
  assumes block_pos: "0 < n"
    and absorb_prefix: "n \<le> length p \<Longrightarrow> absorb v (p @ q) = absorb v p"
begin

lemma stripes_short [simp]: "length p < n \<Longrightarrow> stripes n absorb v p = (v, p)"
  by (subst stripes.simps) simp

lemma stripes_block: "n \<le> length p \<Longrightarrow> stripes n absorb v p = stripes n absorb (absorb v p) (drop n p)"
  using block_pos by (subst stripes.simps) simp

lemma stripes_left: "stripes n absorb v p = (v', r) \<Longrightarrow> length r < n \<and> length r = length p mod n"
proof (induction "length p" arbitrary: v p rule: less_induct)
  case less
  show ?case
  proof (cases "length p < n")
    case True
    then show ?thesis using less.prems by auto
  next
    case False
    with less.prems have "stripes n absorb (absorb v p) (drop n p) = (v', r)"
      by (simp add: stripes_block [of p])
    from less.hyps [OF _ this] show ?thesis
      using False block_pos by (simp add: le_mod_geq)
  qed
qed

lemma stripes_append:
  "stripes n absorb v (p @ q) = (case stripes n absorb v p of (v', r) \<Rightarrow> stripes n absorb v' (r @ q))"
proof (induction "length p" arbitrary: v p rule: less_induct)
  case less
  then show ?case
    using block_pos by (cases "length p < n") (simp_all add: stripes_block absorb_prefix)
qed

text \<open>The state of a stream that has taken \<open>inp\<close>: lanes, buffer, and the number of bytes in it.\<close>

definition buffered :: "'v \<Rightarrow> u8 list \<Rightarrow> 'v \<Rightarrow> u8 list \<Rightarrow> nat \<Rightarrow> bool" where
  "buffered v0 inp v mem k \<longleftrightarrow>
     length mem = n \<and> k < n \<and> stripes n absorb v0 inp = (v, take k mem)"

lemma buffered_empty: "length mem = n \<Longrightarrow> buffered v [] v mem 0"
  using block_pos by (simp add: buffered_def)

lemma buffered_count:
  assumes "buffered v0 inp v mem k"
  shows "k = length inp mod n"
proof -
  have "stripes n absorb v0 inp = (v, take k mem)" "length (take k mem) = k"
    using assms by (simp_all add: buffered_def)
  from stripes_left [OF this(1)] this(2) show ?thesis by simp
qed

lemma buffered_fill:
  "buffered v0 inp v mem k \<Longrightarrow> k + length q < n \<Longrightarrow>
    buffered v0 (inp @ q) v (mem_write mem k q) (k + length q)"
  by (simp add: buffered_def stripes_append [of v0 inp] mem_write_def)

lemma buffered_pass:
  "buffered v0 inp v mem 0 \<Longrightarrow> stripes n absorb v0 (inp @ q) = stripes n absorb v q"
  by (simp add: buffered_def stripes_append [of v0 inp])

lemma buffered_flush:
  assumes "buffered v0 inp v mem k" and "n \<le> k + length q"
  defines "mem' \<equiv> mem_write mem k (take (n - k) q)"
  shows "length mem' = n"
    and "stripes n absorb v0 (inp @ q) = stripes n absorb (absorb v mem') (drop (n - k) q)"
proof -
  have mem': "mem' = take k mem @ take (n - k) q"
    using assms by (simp add: buffered_def mem_write_def)
  show len: "length mem' = n"
    using assms(1,2) unfolding mem' by (simp add: buffered_def)
  have "take k mem @ q = mem' @ drop (n - k) q"
    by (simp add: mem')
  then show "stripes n absorb v0 (inp @ q) = stripes n absorb (absorb v mem') (drop (n - k) q)"
    using assms(1) len
    by (simp add: buffered_def stripes_append [of v0 inp] stripes_block absorb_prefix)
qed

lemma buffered_store:
  assumes "length mem = n" and "stripes n absorb v0 inp = (v, p)"
  shows "buffered v0 inp v (mem_write mem 0 p) (length p)"
  using assms stripes_left [OF assms(2)] by (simp add: buffered_def mem_write_def)

definition feed :: "'v \<Rightarrow> u8 list \<Rightarrow> nat \<Rightarrow> u8 list \<Rightarrow> 'v \<times> u8 list \<times> nat" where
  "feed v mem k q =
     (if k + length q < n then (v, mem_write mem k q, k + length q)
      else let (v, mem, p) =
                 (if k \<noteq> 0
                  then let mem = mem_write mem k (take (n - k) q) in (absorb v mem, mem, drop (n - k) q)
                  else (v, mem, q));
               (v, p) = stripes n absorb v p
           in if p \<noteq> [] then (v, mem_write mem 0 p, length p) else (v, mem, 0))"

lemma buffered_feed:
  assumes "buffered v0 inp v mem k" and "feed v mem k q = (v', mem', k')"
  shows "buffered v0 (inp @ q) v' mem' k'"
proof (cases "k + length q < n")
  case True
  then show ?thesis using assms buffered_fill [OF assms(1) True] by (simp add: feed_def)
next
  case False
  obtain v1 mem1 p1 where first:
      "(if k \<noteq> 0 then let mem = mem_write mem k (take (n - k) q) in (absorb v mem, mem, drop (n - k) q)
        else (v, mem, q)) = (v1, mem1, p1)"
    by (rule prod_cases3)
  obtain v2 p2 where second: "stripes n absorb v1 p1 = (v2, p2)"
    by (cases "stripes n absorb v1 p1")
  have "length mem1 = n \<and> stripes n absorb v0 (inp @ q) = (v2, p2)"
  proof (cases "k = 0")
    case True
    then show ?thesis
      using first second assms(1) buffered_pass [of v0 inp v mem q] by (simp add: buffered_def)
  next
    case k: False
    then show ?thesis
      using first second False buffered_flush [OF assms(1), of q] by (auto simp: Let_def)
  qed
  then have len: "length mem1 = n" and all: "stripes n absorb v0 (inp @ q) = (v2, p2)"
    by simp_all
  have "(v', mem', k') = (v2, if p2 \<noteq> [] then mem_write mem1 0 p2 else mem1, length p2)"
    using assms(2) False first second by (simp add: feed_def split: if_splits)
  then show ?thesis
    using buffered_store [OF len all] by (auto simp: mem_write_def split: if_splits)
qed

lemma feed_length:
  assumes "length mem = n" "k < n" and "feed v mem k q = (v', mem', k')"
  shows "length mem' = n \<and> k' = (k + length q) mod n"
proof -
  have "buffered v (take k mem) v mem k"
    using assms by (simp add: buffered_def)
  from buffered_feed [OF this assms(3)] have "buffered v (take k mem @ q) v' mem' k'" .
  from buffered_count [OF this] this show ?thesis
    using assms(1,2) by (simp add: buffered_def)
qed

end

lemma stripe32_prefix:
  "16 \<le> length p \<Longrightarrow>
    XXH32_stripe (\<lambda>p. XXH_readLE32_align cpu p endian align) v (p @ q) =
    XXH32_stripe (\<lambda>p. XXH_readLE32_align cpu p endian align) v p"
  by (simp add: XXH32_stripe_def XXH_readLE32_align_def XXH_read32_def split: prod.split)

lemma stripe64_prefix:
  "32 \<le> length p \<Longrightarrow>
    XXH64_stripe (\<lambda>p. XXH_readLE64_align cpu p endian align) v (p @ q) =
    XXH64_stripe (\<lambda>p. XXH_readLE64_align cpu p endian align) v p"
  by (simp add: XXH64_stripe_def XXH_readLE64_align_def XXH_read64_def split: prod.split)

interpretation xxh32: block_absorber 16 "XXH32_stripe (\<lambda>p. XXH_readLE32_align cpu p endian align)"
  for cpu endian align
  by unfold_locales (simp_all add: stripe32_prefix)

interpretation xxh64: block_absorber 32 "XXH64_stripe (\<lambda>p. XXH_readLE64_align cpu p endian align)"
  for cpu endian align
  by unfold_locales (simp_all add: stripe64_prefix)

section \<open>Streams compute the hash of their whole input\<close>

text \<open>The state after the bytes \<open>inp\<close>.\<close>

definition xxh32_after :: "XXH_endianess \<Rightarrow> u32 \<Rightarrow> u8 list \<Rightarrow> xxh32_state \<Rightarrow> bool" where
  "xxh32_after cpu seed inp s \<longleftrightarrow>
     xxh32.buffered cpu cpu XXH_unaligned (XXH32_lanes seed) inp (v32 s) (mem32 s) (memsize32 s) \<and>
     total_len_32 s = of_nat (length inp) \<and> (large_len s \<longleftrightarrow> 16 \<le> length inp)"

definition xxh64_after :: "XXH_endianess \<Rightarrow> u64 \<Rightarrow> u8 list \<Rightarrow> xxh64_state \<Rightarrow> bool" where
  "xxh64_after cpu seed inp s \<longleftrightarrow>
     xxh64.buffered cpu cpu XXH_unaligned (XXH64_lanes seed) inp (v64 s) (mem64 s) (memsize64 s) \<and>
     total_len s = of_nat (length inp)"

lemma xxh32_reset_after: "xxh32_after cpu seed [] (XXH32_reset seed)"
  by (simp add: xxh32_after_def XXH32_reset_def xxh32.buffered_empty)

lemma xxh64_reset_after: "xxh64_after cpu seed [] (XXH64_reset seed)"
  by (simp add: xxh64_after_def XXH64_reset_def xxh64.buffered_empty)

lemma xxh32_update_feed:
  "XXH32_update cpu s q =
    (case xxh32.feed cpu cpu XXH_unaligned (v32 s) (mem32 s) (memsize32 s) q of (v, mem, k) \<Rightarrow>
       \<lparr>total_len_32 = total_len_32 s + of_nat (length q),
        large_len = (large_len s \<or> 16 \<le> length q \<or> 16 \<le> total_len_32 s + of_nat (length q)),
        v32 = v, mem32 = mem, memsize32 = k\<rparr>)"
  by (cases s; cases cpu)
     (simp_all add: XXH32_update_def XXH32_update_endian_def xxh32.feed_def XXH_readLE32_def Let_def
       split: prod.split)

lemma xxh64_update_feed:
  "XXH64_update cpu s q =
    (case xxh64.feed cpu cpu XXH_unaligned (v64 s) (mem64 s) (memsize64 s) q of (v, mem, k) \<Rightarrow>
       \<lparr>total_len = total_len s + of_nat (length q), v64 = v, mem64 = mem, memsize64 = k\<rparr>)"
  by (cases s; cases cpu)
     (simp_all add: XXH64_update_def XXH64_update_endian_def xxh64.feed_def XXH_readLE64_def Let_def
       split: prod.split)

lemma large_len_update:
  assumes "l \<longleftrightarrow> 16 \<le> m"
  shows "l \<or> 16 \<le> len \<or> 16 \<le> (of_nat m + of_nat len :: u32) \<longleftrightarrow> 16 \<le> m + len"
proof (cases "16 \<le> m \<or> 16 \<le> len")
  case True
  then show ?thesis using assms by auto
next
  case False
  then have "unat (of_nat (m + len) :: u32) = m + len"
    unfolding unat_of_nat by (simp add: take_bit_nat_eq_self)
  then show ?thesis
    using False assms by (simp add: word_le_nat_alt)
qed

lemma xxh32_update_after:
  "xxh32_after cpu seed inp s \<Longrightarrow> xxh32_after cpu seed (inp @ q) (XXH32_update cpu s q)"
  using xxh32.buffered_feed [of cpu cpu XXH_unaligned "XXH32_lanes seed" inp "v32 s" "mem32 s" "memsize32 s"]
    large_len_update [of "large_len s" "length inp" "length q"]
  by (auto simp: xxh32_after_def xxh32_update_feed split: prod.split)

lemma xxh64_update_after:
  "xxh64_after cpu seed inp s \<Longrightarrow> xxh64_after cpu seed (inp @ q) (XXH64_update cpu s q)"
  using xxh64.buffered_feed [of cpu cpu XXH_unaligned "XXH64_lanes seed" inp "v64 s" "mem64 s" "memsize64 s"]
  by (auto simp: xxh64_after_def xxh64_update_feed split: prod.split)

lemma xxh32_updates_after:
  "xxh32_after cpu seed inp s \<Longrightarrow> xxh32_after cpu seed (inp @ concat qs) (foldl (XXH32_update cpu) s qs)"
proof (induction qs arbitrary: inp s)
  case (Cons q qs)
  from Cons.IH [OF xxh32_update_after [OF Cons.prems]] show ?case by simp
qed simp

lemma xxh64_updates_after:
  "xxh64_after cpu seed inp s \<Longrightarrow> xxh64_after cpu seed (inp @ concat qs) (foldl (XXH64_update cpu) s qs)"
proof (induction qs arbitrary: inp s)
  case (Cons q qs)
  from Cons.IH [OF xxh64_update_after [OF Cons.prems]] show ?case by simp
qed simp

text \<open>The one-call functions on the machine's own byte order.\<close>

lemma XXH32_unfold:
  "XXH32 cpu align_check aligned input seed =
     XXH32_endian_align cpu input seed cpu (if align_check \<and> aligned then XXH_aligned else XXH_unaligned)"
  by (cases cpu) (simp_all add: XXH32_def)

lemma XXH64_unfold:
  "XXH64 cpu align_check aligned input seed =
     XXH64_endian_align cpu input seed cpu (if align_check \<and> aligned then XXH_aligned else XXH_unaligned)"
  by (cases cpu) (simp_all add: XXH64_def)

lemma align_same:
  "XXH_readLE32_align cpu p endian align = XXH_readLE32 cpu p endian"
  "XXH_readLE64_align cpu p endian align = XXH_readLE64 cpu p endian"
  by (simp_all add: XXH_readLE32_def XXH_readLE32_align_def XXH_read32_def
        XXH_readLE64_def XXH_readLE64_align_def XXH_read64_def)

lemma xxh32_digest_after:
  assumes "xxh32_after cpu seed inp s"
  shows "XXH32_digest cpu s = XXH32 cpu align_check aligned inp seed"
proof -
  have dig: "XXH32_digest cpu s = XXH32_digest_endian cpu s cpu"
    by (cases cpu) (simp_all add: XXH32_digest_def)
  have st: "stripes 16 (XXH32_stripe (\<lambda>p. XXH_readLE32 cpu p cpu)) (XXH32_lanes seed) inp =
      (v32 s, take (memsize32 s) (mem32 s))"
    using assms by (simp add: xxh32_after_def xxh32.buffered_def) (simp add: align_same)
  show ?thesis
  proof (cases "16 \<le> length inp")
    case True
    then show ?thesis
      using assms st
      by (simp add: dig XXH32_unfold XXH32_digest_endian_def XXH32_endian_align_def align_same
          xxh32_after_def Let_def)
  next
    case False
    then have "v32 s = XXH32_lanes seed" "take (memsize32 s) (mem32 s) = inp"
      using st by (simp_all add: stripes.simps)
    then show ?thesis
      using assms False
      by (simp add: dig XXH32_unfold XXH32_digest_endian_def XXH32_endian_align_def align_same
          xxh32_after_def XXH32_lanes_def Let_def)
  qed
qed

lemma xxh64_digest_after:
  assumes "xxh64_after cpu seed inp s" and "length inp < 2 ^ 64"
  shows "XXH64_digest cpu s = XXH64 cpu align_check aligned inp seed"
proof -
  have dig: "XXH64_digest cpu s = XXH64_digest_endian cpu s cpu"
    by (cases cpu) (simp_all add: XXH64_digest_def)
  have st: "stripes 32 (XXH64_stripe (\<lambda>p. XXH_readLE64 cpu p cpu)) (XXH64_lanes seed) inp =
      (v64 s, take (memsize64 s) (mem64 s))"
    using assms by (simp add: xxh64_after_def xxh64.buffered_def) (simp add: align_same)
  have long: "32 \<le> total_len s \<longleftrightarrow> 32 \<le> length inp"
    using assms by (simp add: xxh64_after_def word_le_nat_alt unat_of_nat64)
  show ?thesis
  proof (cases "32 \<le> length inp")
    case True
    then show ?thesis
      using assms st long
      by (simp add: dig XXH64_unfold XXH64_digest_endian_def XXH64_endian_align_def align_same
          xxh64_after_def Let_def)
  next
    case False
    then have "v64 s = XXH64_lanes seed" "take (memsize64 s) (mem64 s) = inp"
      using st by (simp_all add: stripes.simps)
    then show ?thesis
      using assms False long
      by (simp add: dig XXH64_unfold XXH64_digest_endian_def XXH64_endian_align_def align_same
          xxh64_after_def XXH64_lanes_def Let_def)
  qed
qed

section \<open>The same value on every machine\<close>

lemma stripes_cong:
  "(\<And>v p. n \<le> length p \<Longrightarrow> f v p = g v p) \<Longrightarrow> stripes n f v p = stripes n g v p"
proof (induction "length p" arbitrary: v p rule: less_induct)
  case less
  show ?case
  proof (cases "n = 0 \<or> length p < n")
    case True
    then show ?thesis by (simp add: stripes.simps)
  next
    case False
    then have "stripes n f (f v p) (drop n p) = stripes n g (g v p) (drop n p)"
      using less.hyps [of "drop n p" "g v p"] less.prems by (cases p) auto
    then show ?thesis
      using False by (simp add: stripes.simps [of n _ v p])
  qed
qed

lemma stripes32_machine:
  "stripes 16 (XXH32_stripe (\<lambda>p. XXH_readLE32_align cpu p cpu align)) v p =
   stripes 16 (XXH32_stripe (\<lambda>p. of_le_bytes (take 4 p))) v p"
  by (rule stripes_cong) (simp add: XXH32_stripe_def)

lemma words32_machine:
  "XXH32_words (\<lambda>p. XXH_readLE32_align cpu p cpu align) h p = XXH32_words (\<lambda>p. of_le_bytes (take 4 p)) h p"
  unfolding XXH32_words_def by (rule stripes_cong) simp

lemma stripes64_machine:
  "stripes 32 (XXH64_stripe (\<lambda>p. XXH_readLE64_align cpu p cpu align)) v p =
   stripes 32 (XXH64_stripe (\<lambda>p. of_le_bytes (take 8 p))) v p"
  by (rule stripes_cong) (simp add: XXH64_stripe_def)

lemma words64_machine:
  "XXH64_words (\<lambda>p. XXH_readLE64_align cpu p cpu align) h p = XXH64_words (\<lambda>p. of_le_bytes (take 8 p)) h p"
  unfolding XXH64_words_def by (rule stripes_cong) simp

lemma half64_machine:
  "XXH64_half (\<lambda>p. XXH_readLE32_align cpu p cpu align) h p = XXH64_half (\<lambda>p. of_le_bytes (take 4 p)) h p"
  by (simp add: XXH64_half_def)

lemma XXH32_machine:
  "XXH32_endian_align cpu input seed cpu align = XXH32_endian_align cpu' input seed cpu' align'"
  by (simp only: XXH32_endian_align_def stripes32_machine words32_machine Let_def)

lemma XXH64_machine:
  "XXH64_endian_align cpu input seed cpu align = XXH64_endian_align cpu' input seed cpu' align'"
  by (simp only: XXH64_endian_align_def stripes64_machine words64_machine half64_machine Let_def)

section \<open>Properties\<close>

text \<open>C21: Hashing a file piece by piece gives the hash of the file.  On every machine, whatever the
  pieces (empty ones, pieces shorter and longer than a block), \<open>XXH64_reset\<close>, \<open>XXH64_update\<close> on each
  piece and \<open>XXH64_digest\<close> return what \<open>XXH64\<close> returns on their concatenation, aligned or not, for
  any input a 64-bit length can count.\<close>

theorem xxh64_stream:
  assumes "length (concat pieces) < 2 ^ 64"
  shows "XXH64_digest cpu (foldl (XXH64_update cpu) (XXH64_reset seed) pieces) =
         XXH64 cpu align_check aligned (concat pieces) seed"
  using xxh64_updates_after [OF xxh64_reset_after, of cpu seed pieces] assms
  by (intro xxh64_digest_after) simp_all

text \<open>C21, on three pieces, one of them empty.\<close>

theorem xxh64_stream_witness:
  "XXH64_digest XXH_littleEndian
     (foldl (XXH64_update XXH_littleEndian) (XXH64_reset 7) [replicate 20 1, [], replicate 50 2]) =
   XXH64 XXH_littleEndian False False (concat [replicate 20 1, [], replicate 50 2]) 7"
  by (rule xxh64_stream) simp

text \<open>C22: The same for the 32-bit hash, with no bound on the length: \<open>total_len_32\<close> wraps around at
  \<open>2 ^ 32\<close>, and the flag \<open>large_len\<close> keeps what the comparison with 16 would lose.\<close>

theorem xxh32_stream:
  "XXH32_digest cpu (foldl (XXH32_update cpu) (XXH32_reset seed) pieces) =
   XXH32 cpu align_check aligned (concat pieces) seed"
  using xxh32_updates_after [OF xxh32_reset_after, of cpu seed pieces]
  by (intro xxh32_digest_after) simp

text \<open>C23: Both hashes are functions of the bytes and the seed only: a machine of the other byte order,
  an aligned address or the alignment check do not change them.\<close>

theorem xxh_portable:
  "XXH32 cpu align_check aligned input seed32 = XXH32 cpu' align_check' aligned' input seed32 \<and>
   XXH64 cpu align_check aligned input seed64 = XXH64 cpu' align_check' aligned' input seed64"
  unfolding XXH32_unfold XXH64_unfold using XXH32_machine XXH64_machine by blast

text \<open>The well-formed stream states.\<close>

definition xxh32_ok :: "xxh32_state \<Rightarrow> bool" where
  "xxh32_ok s \<longleftrightarrow> length (mem32 s) = 16 \<and> memsize32 s = unat (total_len_32 s) mod 16 \<and>
     (16 \<le> total_len_32 s \<longrightarrow> large_len s)"

definition xxh64_ok :: "xxh64_state \<Rightarrow> bool" where
  "xxh64_ok s \<longleftrightarrow> length (mem64 s) = 32 \<and> memsize64 s = unat (total_len s) mod 32"

lemma unat_add_mod:
  assumes "2 ^ k = (d :: nat)" "k \<le> LENGTH('a)"
  shows "unat (w + of_nat m :: 'a::len word) mod d = (unat w mod d + m) mod d"
proof -
  have "unat (w + of_nat m) mod d = (unat w + m) mod 2 ^ LENGTH('a) mod d"
    by (simp add: unat_word_ariths unat_of_nat take_bit_eq_mod mod_simps)
  also have "\<dots> = (unat w + m) mod d"
    using assms by (simp add: mod_mod_cancel le_imp_power_dvd flip: assms(1))
  finally show ?thesis by (simp add: mod_simps)
qed

text \<open>C24: The invariant of the stream states: the buffer keeps its size (16 or 32 bytes), so no
  \<open>memcpy\<close> into it leaves it; the bytes waiting in it are the total length modulo the block size,
  also after the counter has wrapped; and \<open>large_len\<close> is set once the counter has reached 16.
  \<open>reset\<close> establishes it and \<open>update\<close> keeps it, on any input.\<close>

theorem xxh_update_invariant:
  "xxh32_ok (XXH32_reset seed32) \<and> xxh64_ok (XXH64_reset seed64) \<and>
   (xxh32_ok s \<longrightarrow> xxh32_ok (XXH32_update cpu s input)) \<and>
   (xxh64_ok t \<longrightarrow> xxh64_ok (XXH64_update cpu t input))"
proof (intro conjI impI)
  show "xxh32_ok (XXH32_reset seed32)" "xxh64_ok (XXH64_reset seed64)"
    by (simp_all add: xxh32_ok_def xxh64_ok_def XXH32_reset_def XXH64_reset_def)
next
  assume ok: "xxh32_ok s"
  then have memsize: "memsize32 s = unat (total_len_32 s) mod 16" by (simp add: xxh32_ok_def)
  obtain v mem k where feed: "xxh32.feed cpu cpu XXH_unaligned (v32 s) (mem32 s) (memsize32 s) input = (v, mem, k)"
    by (rule prod_cases3)
  have "length mem = 16 \<and> k = (memsize32 s + length input) mod 16"
    using ok by (intro xxh32.feed_length [OF _ _ feed]) (simp_all add: xxh32_ok_def)
  then show "xxh32_ok (XXH32_update cpu s input)"
    using ok unat_add_mod [of 4 16 "total_len_32 s" "length input"]
    by (simp add: xxh32_update_feed xxh32_ok_def feed [unfolded memsize])
next
  assume ok: "xxh64_ok t"
  then have memsize: "memsize64 t = unat (total_len t) mod 32" by (simp add: xxh64_ok_def)
  obtain v mem k where feed: "xxh64.feed cpu cpu XXH_unaligned (v64 t) (mem64 t) (memsize64 t) input = (v, mem, k)"
    by (rule prod_cases3)
  have "length mem = 32 \<and> k = (memsize64 t + length input) mod 32"
    using ok by (intro xxh64.feed_length [OF _ _ feed]) (simp_all add: xxh64_ok_def)
  then show "xxh64_ok (XXH64_update cpu t input)"
    using ok unat_add_mod [of 5 32 "total_len t" "length input"]
    by (simp add: xxh64_update_feed xxh64_ok_def feed [unfolded memsize])
qed

text \<open>C24, on 21 bytes.\<close>

theorem xxh_update_invariant_witness:
  "xxh32_ok (XXH32_update XXH_bigEndian (XXH32_reset 0) (replicate 21 9)) \<and>
   xxh64_ok (XXH64_update XXH_bigEndian (XXH64_reset 0) (replicate 21 9))"
  using xxh_update_invariant [of 0 0 "XXH32_reset 0" XXH_bigEndian "replicate 21 9" "XXH64_reset 0"]
  by blast

text \<open>C25: The canonical form of a hash, written on one machine and read on another, gives the hash
  back; and it is the big-endian form, most significant byte first.\<close>

theorem xxh_canonical_roundtrip:
  "XXH32_hashFromCanonical cpu' (XXH32_canonicalFromHash cpu h32) = h32 \<and>
   XXH64_hashFromCanonical cpu' (XXH64_canonicalFromHash cpu h64) = h64 \<and>
   XXH32_canonicalFromHash cpu h32 = rev (le_bytes 4 h32) \<and>
   XXH64_canonicalFromHash cpu h64 = rev (le_bytes 8 h64)"
  by (cases cpu)
     (simp_all add: XXH32_hashFromCanonical_def XXH64_hashFromCanonical_def XXH32_canonicalFromHash_def
       XXH64_canonicalFromHash_def mem_bytes_def readBE32 readBE64 le_bytes_swap)

text \<open>Published test vectors: the hashes of the empty string and of the string \<open>abc\<close>.\<close>

theorem xxh_test_vectors:
  "XXH32 XXH_littleEndian False False [] 0 = 0x02CC5D05 \<and>
   XXH32 XXH_littleEndian False False [97, 98, 99] 0 = 0x32D153FF \<and>
   XXH64 XXH_littleEndian False False [] 0 = 0xEF46DB3751D8E999 \<and>
   XXH64 XXH_littleEndian False False [97, 98, 99] 0 = 0x44BC2CF5AD770999"
  by (intro conjI; code_simp)

end
