(* ===== verification/Sz3_Bytes.thy ===== *)
theory Sz3_Bytes
  imports Prelude
begin

text \<open>
  Byte strings of SZ3: the typed reads and writes of \<open>SZ3/utils/MemoryUtil.hpp\<close> and the conversions
  of \<open>SZ3/utils/ByteUtil.hpp\<close>.

  A position in a buffer that is read is the rest of the buffer; a position in a buffer that is
  written is the pair of the buffer and an index.  \<open>None\<close> is a failed assertion or an access outside
  the buffer.  The machine is little-endian, \<open>float\<close> is a pattern of 32 bits.  The combinator
  \<open>emits\<close> says which bytes a sequence of writes leaves in the buffer.
\<close>

section \<open>Typed reads and writes\<close>

type_synonym out_pos = "u8 list \<times> nat"

definition write_bytes :: "u8 list \<Rightarrow> out_pos \<Rightarrow> out_pos option" where
  "write_bytes bs c = (case c of (mem, p) \<Rightarrow> map_option (\<lambda>mem. (mem, p + length bs)) (store mem p bs))"

definition write_var :: "'a::len word \<Rightarrow> out_pos \<Rightarrow> out_pos option" where
  "write_var var c = write_bytes (le_bytes (LENGTH('a) div 8) var) c"

definition write_array :: "'a::len word list \<Rightarrow> out_pos \<Rightarrow> out_pos option" where
  "write_array array c = write_bytes (array_bytes (LENGTH('a) div 8) array) c"

definition read_var :: "u8 list \<Rightarrow> ('a::len word \<times> u8 list) option" where
  "read_var c =
     (case split_at (LENGTH('a) div 8) c of
        None \<Rightarrow> None
      | Some (bs, c) \<Rightarrow> Some (of_le_bytes bs, c))"

definition read_elems :: "nat \<Rightarrow> u8 list \<Rightarrow> ('a::len word list \<times> u8 list) option" where
  "read_elems num_elements c = read_array (LENGTH('a) div 8) num_elements c"

text \<open>The versions with a remaining length assert it and decrease it.\<close>

definition read_var_rem :: "u8 list \<Rightarrow> nat \<Rightarrow> ('a::len word \<times> u8 list \<times> nat) option" where
  "read_var_rem c remaining_length =
     (if LENGTH('a) div 8 \<le> remaining_length
      then map_option (\<lambda>(var, c). (var, c, remaining_length - LENGTH('a) div 8)) (read_var c)
      else None)"

definition read_elems_rem :: "nat \<Rightarrow> u8 list \<Rightarrow> nat \<Rightarrow> ('a::len word list \<times> u8 list \<times> nat) option" where
  "read_elems_rem num_elements c remaining_length =
     (if num_elements * (LENGTH('a) div 8) \<le> remaining_length
      then map_option (\<lambda>(array, c). (array, c, remaining_length - num_elements * (LENGTH('a) div 8)))
             (read_elems num_elements c)
      else None)"

text \<open>\<open>strcpy\<close> copies up to the first zero, the position moves by the size of the string.\<close>

definition c_str :: "u8 list \<Rightarrow> u8 list" where
  "c_str s = takeWhile (\<lambda>b. b \<noteq> 0) s"

definition write_str :: "u8 list \<Rightarrow> out_pos \<Rightarrow> out_pos option" where
  "write_str var c =
     (case c of (mem, p) \<Rightarrow> map_option (\<lambda>mem. (mem, p + length var + 1)) (store mem p (c_str var @ [0])))"

definition read_str :: "u8 list \<Rightarrow> (u8 list \<times> u8 list) option" where
  "read_str c = (if 0 \<in> set c then Some (c_str c, drop (length (c_str c) + 1) c) else None)"

section \<open>Big-endian integers\<close>

definition symTransform_4bytes :: "u8 list \<Rightarrow> u8 list option" where
  "symTransform_4bytes data =
     (if length data < 4 then None
      else let tmp = data ! 0; data = data[0 := data ! 3]; data = data[3 := tmp];
               tmp = data ! 1; data = data[1 := data ! 2]; data = data[2 := tmp]
           in Some data)"

definition bytesToInt16_bigEndian :: "u8 list \<Rightarrow> 16 word option" where
  "bytesToInt16_bigEndian bytes =
     (if length bytes < 2 then None
      else let temp = ucast (bytes ! 0) AND 0xff; res = 0 OR temp;
               res = push_bit 8 res; temp = ucast (bytes ! 1) AND 0xff; res = res OR temp
           in Some res)"

definition bytesToInt32_bigEndian :: "u8 list \<Rightarrow> 32 word option" where
  "bytesToInt32_bigEndian bytes =
     (if length bytes < 4 then None
      else let res = 0;
               res = push_bit 8 res; temp = ucast (bytes ! 0) AND 0xff; res = res OR temp;
               res = push_bit 8 res; temp = ucast (bytes ! 1) AND 0xff; res = res OR temp;
               res = push_bit 8 res; temp = ucast (bytes ! 2) AND 0xff; res = res OR temp;
               res = push_bit 8 res; temp = ucast (bytes ! 3) AND 0xff; res = res OR temp
           in Some res)"

definition bytesToInt64_bigEndian :: "u8 list \<Rightarrow> 64 word option" where
  "bytesToInt64_bigEndian b =
     (if length b < 8 then None
      else let res = 0;
               res = push_bit 8 res; temp = ucast (b ! 0) AND 0xff; res = res OR temp;
               res = push_bit 8 res; temp = ucast (b ! 1) AND 0xff; res = res OR temp;
               res = push_bit 8 res; temp = ucast (b ! 2) AND 0xff; res = res OR temp;
               res = push_bit 8 res; temp = ucast (b ! 3) AND 0xff; res = res OR temp;
               res = push_bit 8 res; temp = ucast (b ! 4) AND 0xff; res = res OR temp;
               res = push_bit 8 res; temp = ucast (b ! 5) AND 0xff; res = res OR temp;
               res = push_bit 8 res; temp = ucast (b ! 6) AND 0xff; res = res OR temp;
               res = push_bit 8 res; temp = ucast (b ! 7) AND 0xff; res = res OR temp
           in Some res)"

definition int16ToBytes_bigEndian :: "16 word \<Rightarrow> u8 list" where
  "int16ToBytes_bigEndian num = [ucast (signed_drop_bit 8 num), ucast num]"

definition int32ToBytes_bigEndian :: "32 word \<Rightarrow> u8 list" where
  "int32ToBytes_bigEndian num =
     [ucast (signed_drop_bit 24 num), ucast (signed_drop_bit 16 num), ucast (signed_drop_bit 8 num), ucast num]"

definition int64ToBytes_bigEndian :: "64 word \<Rightarrow> u8 list" where
  "int64ToBytes_bigEndian num =
     [ucast (signed_drop_bit 56 num), ucast (signed_drop_bit 48 num), ucast (signed_drop_bit 40 num),
      ucast (signed_drop_bit 32 num), ucast (signed_drop_bit 24 num), ucast (signed_drop_bit 16 num),
      ucast (signed_drop_bit 8 num), ucast num]"

section \<open>Floats\<close>

text \<open>The union \<open>lfloat\<close> is the pattern; its member \<open>byte\<close> is the little-endian string.\<close>

definition float_bytes :: "u32 \<Rightarrow> u8 list" where
  "float_bytes value = le_bytes 4 value"

definition float_of_bytes :: "u8 list \<Rightarrow> u32" where
  "float_of_bytes byte = of_le_bytes byte"

fun float_digits :: "nat \<Rightarrow> u32 \<Rightarrow> string \<Rightarrow> string" where
  "float_digits 0 ivalue str = str"
| "float_digits (Suc n) ivalue str =
     (let i = 31 - n
      in float_digits n (drop_bit 1 ivalue)
           (str[31 - i := (if ivalue mod 2 \<noteq> 0 then CHR ''1'' else CHR ''0'')]))"

definition floatToBinary :: "u32 \<Rightarrow> string" where
  "floatToBinary f = float_digits 32 f (replicate 32 (CHR ''0''))"

text \<open>For \<open>byteLen\<close> above 4 the index of \<open>byte\<close> is negative.\<close>

fun truncateArray :: "u32 list \<Rightarrow> nat \<Rightarrow> nat \<Rightarrow> u8 list option" where
  "truncateArray data 0 byteLen = Some []"
| "truncateArray [] (Suc n) byteLen = None"
| "truncateArray (x # data) (Suc n) byteLen =
     (if 4 < byteLen then None
      else map_option (\<lambda>binary. map ((!) (float_bytes x)) [4 - byteLen..<4] @ binary)
             (truncateArray data n byteLen))"

fun truncateRecover_loop :: "u8 list \<Rightarrow> u8 list \<Rightarrow> nat \<Rightarrow> nat \<Rightarrow> u32 list option" where
  "truncateRecover_loop byte binary 0 byteLen = Some []"
| "truncateRecover_loop byte binary (Suc n) byteLen =
     (if 4 < byteLen \<or> length binary < byteLen then None
      else let byte = take (4 - byteLen) byte @ take byteLen binary
           in map_option (\<lambda>data. float_of_bytes byte # data)
                (truncateRecover_loop byte (drop byteLen binary) n byteLen))"

definition truncateArrayRecover :: "u8 list \<Rightarrow> nat \<Rightarrow> nat \<Rightarrow> u32 list option" where
  "truncateArrayRecover binary n byteLen = truncateRecover_loop (float_bytes 0) binary n byteLen"

definition LeadingBitsEncode :: "u32 \<Rightarrow> u32 \<Rightarrow> u8 list" where
  "LeadingBitsEncode pre data =
     (let x = data XOR pre;
          n = (if x = 0 then 0
               else if drop_bit 8 x = 0 then 1
               else if drop_bit 16 x = 0 then 2
               else if drop_bit 24 x = 0 then 3
               else 4)
      in map ((!) (float_bytes data)) [0..<n])"

definition LeadingBitsDecode :: "u32 \<Rightarrow> u8 list \<Rightarrow> u32 option" where
  "LeadingBitsDecode pre bytes =
     (if 4 < length bytes then None
      else Some (float_of_bytes (foldl (\<lambda>byte i. byte[i := bytes ! i]) (float_bytes pre) [0..<length bytes])))"

section \<open>What writes leave in the buffer\<close>

definition emits :: "(out_pos \<Rightarrow> out_pos option) \<Rightarrow> u8 list \<Rightarrow> bool" where
  "emits f bs \<longleftrightarrow>
     (\<forall>mem p. p + length bs \<le> length mem \<longrightarrow> f (mem, p) = Some (mem_write mem p bs, p + length bs))"

named_theorems emits_intros \<open>the bytes that a writer leaves\<close>

lemma emitsD:
  "emits f bs \<Longrightarrow> p + length bs \<le> length mem \<Longrightarrow> f (mem, p) = Some (mem_write mem p bs, p + length bs)"
  by (simp add: emits_def)

lemma emits_bytes [emits_intros]: "emits (write_bytes bs) bs"
  by (simp add: emits_def write_bytes_def store_def)

lemma emits_var [emits_intros]: "emits (write_var (w :: 'a::len word)) (le_bytes (LENGTH('a) div 8) w)"
  by (simp add: emits_def write_var_def write_bytes_def store_def)

lemma emits_array [emits_intros]:
  "emits (write_array (ws :: 'a::len word list)) (array_bytes (LENGTH('a) div 8) ws)"
  by (simp add: emits_def write_array_def write_bytes_def store_def)

lemma emits_bind [emits_intros]:
  assumes "emits f xs" "emits g ys"
  shows "emits (\<lambda>c. Option.bind (f c) g) (xs @ ys)"
  using assms by (auto simp: emits_def mem_write_append [symmetric] add.assoc)

lemma emits_drop:
  assumes "emits f bs" "p + length bs \<le> length mem"
  shows "\<exists>mem'. f (mem, p) = Some (mem', p + length bs) \<and> length mem' = length mem \<and>
           take p mem' = take p mem \<and> drop p mem' = bs @ drop (p + length bs) mem"
  using emitsD [OF assms] assms(2) by (simp add: drop_mem_write) (simp add: mem_write_def)

lemma read_var_write [simp]:
  "8 dvd LENGTH('a) \<Longrightarrow> read_var (le_bytes (LENGTH('a) div 8) w @ c) = Some (w :: 'a::len word, c)"
  by (simp add: read_var_def)

lemma read_elems_write [simp]:
  "8 dvd LENGTH('a) \<Longrightarrow> n = length ws \<Longrightarrow>
    read_elems n (array_bytes (LENGTH('a) div 8) ws @ c) = Some (ws :: 'a::len word list, c)"
  by (simp add: read_elems_def)

section \<open>Big-endian integers are reversed little-endian strings\<close>

lemma ucast_signed_drop:
  "k + 8 \<le> LENGTH('a) \<Longrightarrow> ucast (signed_drop_bit k w :: 'a::len word) = (ucast (drop_bit k w) :: u8)"
  by (rule bit_word_eqI) (auto simp: bit_simps)

lemma bigEndian_rev:
  "int16ToBytes_bigEndian x = rev (le_bytes 2 x)"
  "int32ToBytes_bigEndian y = rev (le_bytes 4 y)"
  "int64ToBytes_bigEndian z = rev (le_bytes 8 z)"
  by (simp_all add: int16ToBytes_bigEndian_def int32ToBytes_bigEndian_def int64ToBytes_bigEndian_def
      le_bytes_def upt_rec ucast_signed_drop)

lemma length_bigEndian [simp]:
  "length (int16ToBytes_bigEndian x) = 2"
  "length (int32ToBytes_bigEndian y) = 4"
  "length (int64ToBytes_bigEndian z) = 8"
  by (simp_all add: bigEndian_rev)

lemma of_le_bytes_step:
  "push_bit 8 (of_le_bytes bs) OR (ucast b AND 0xff) = (of_le_bytes (b # bs) :: 'a::len word)"
proof -
  have m: "(0xff :: 'a word) = mask 8" by (simp add: mask_eq_exp_minus_1)
  have "ucast b AND (0xff :: 'a word) = ucast b"
    unfolding m by (rule bit_word_eqI) (use bit_imp_le_length [of b] in \<open>auto simp: bit_simps\<close>)
  moreover have "of_le_bytes (b # bs) = (ucast b OR push_bit 8 (of_le_bytes bs) :: 'a word)"
    unfolding of_le_bytes_Cons mult.commute [of "2 ^ 8"] push_bit_eq_mult [symmetric]
    by (rule disjunctive_add) (auto simp: bit_simps dest: bit_imp_le_length)
  ultimately show ?thesis by (simp add: or.commute)
qed

lemma of_le_bytes_first:
  "0 OR (ucast b AND 0xff) = (of_le_bytes [b] :: 'a::len word)"
  "push_bit 8 0 OR (ucast b AND 0xff) = (of_le_bytes [b] :: 'a::len word)"
  using of_le_bytes_step [of "[]" b, where 'a = 'a] by (simp_all add: of_le_bytes_def)

lemma take_2: "2 \<le> length bs \<Longrightarrow> take 2 bs = [bs ! 0, bs ! 1]"
  and take_4: "4 \<le> length bs \<Longrightarrow> take 4 bs = [bs ! 0, bs ! 1, bs ! 2, bs ! 3]"
  and take_8: "8 \<le> length bs \<Longrightarrow> take 8 bs =
    [bs ! 0, bs ! 1, bs ! 2, bs ! 3, bs ! 4, bs ! 5, bs ! 6, bs ! 7]"
  by (auto simp: numeral_eq_Suc Suc_le_length_iff)

lemma of_bigEndian:
  "2 \<le> length bs \<Longrightarrow> bytesToInt16_bigEndian bs = Some (of_le_bytes (rev (take 2 bs)))"
  "4 \<le> length bs \<Longrightarrow> bytesToInt32_bigEndian bs = Some (of_le_bytes (rev (take 4 bs)))"
  "8 \<le> length bs \<Longrightarrow> bytesToInt64_bigEndian bs = Some (of_le_bytes (rev (take 8 bs)))"
  by (simp_all only: bytesToInt16_bigEndian_def bytesToInt32_bigEndian_def bytesToInt64_bigEndian_def
      Let_def of_le_bytes_first of_le_bytes_step take_2 take_4 take_8 rev.simps append.simps
      linorder_not_le [symmetric] simp_thms if_False)

lemma bigEndian_inverse [simp]:
  "bytesToInt16_bigEndian (int16ToBytes_bigEndian x @ r) = Some x"
  "bytesToInt32_bigEndian (int32ToBytes_bigEndian y @ r) = Some y"
  "bytesToInt64_bigEndian (int64ToBytes_bigEndian z @ r) = Some z"
  by (simp_all add: of_bigEndian bigEndian_rev)

section \<open>Bytes of a float\<close>

lemma drop_Suc_nth_update: "n < length xs \<Longrightarrow> drop n (xs[n := y]) = y # drop (Suc n) xs"
  by (simp add: Cons_nth_drop_Suc [symmetric])

lemma float_digits:
  "n \<le> 32 \<Longrightarrow> length str = 32 \<Longrightarrow>
   float_digits n v str = map (\<lambda>b. if b then CHR ''1'' else CHR ''0'') (to_bits n v) @ drop n str"
proof (induction n arbitrary: v str)
  case (Suc n)
  have bits: "to_bits (Suc n) v = to_bits n (drop_bit 1 v) @ [bit v 0]"
    using to_bits_add [of n 1 v] by (simp add: to_bits_def)
  have dig: "v mod 2 = (if bit v 0 then 1 else 0)"
    by (simp add: bit_0 mod_2_eq_odd)
  have "31 - (31 - n) = n" using Suc.prems by simp
  then show ?case
    using Suc.prems
    by (simp add: Suc.IH bits dig Let_def drop_Suc_nth_update)
qed simp

lemma nth_float_bytes: "i < 4 \<Longrightarrow> bit (float_bytes x ! i) k \<longleftrightarrow> k < 8 \<and> bit x (8 * i + k)"
  by (simp add: float_bytes_def le_bytes_def bit_simps)

lemma length_float_bytes [simp]: "length (float_bytes x) = 4"
  by (simp add: float_bytes_def)

lemma recover_bytes:
  assumes "k \<le> 4"
  shows "float_of_bytes (replicate (4 - k) 0 @ map ((!) (float_bytes x)) [4 - k..<4]) =
    x AND NOT (mask (32 - 8 * k))"
proof (rule bit_word_eqI)
  fix i :: nat
  assume "i < LENGTH(32)"
  then have "i div 8 < 4" "8 * (i div 8) + i mod 8 = i" "i mod 8 < 8" by auto
  moreover have "i div 8 < 4 - k \<longleftrightarrow> i < 32 - 8 * k"
    using assms by auto
  ultimately show "bit (float_of_bytes (replicate (4 - k) 0 @ map ((!) (float_bytes x)) [4 - k..<4])) i =
      bit (x AND NOT (mask (32 - 8 * k))) i"
    using assms \<open>i < LENGTH(32)\<close>
    by (simp add: float_of_bytes_def bit_of_le_bytes nth_append nth_float_bytes bit_simps)
qed

lemma leading_bytes:
  assumes "n \<le> 4" "drop_bit (8 * n) (x XOR y) = 0"
  shows "drop n (float_bytes x) = drop n (float_bytes y)"
proof (rule nth_equalityI)
  fix i
  assume "i < length (drop n (float_bytes x))"
  then have i: "n + i < 4" by simp
  have eq: "bit x j = bit y j" if "8 * n \<le> j" for j
    using arg_cong [OF assms(2), of "\<lambda>w. bit w (j - 8 * n)"] that
    by (auto simp: bit_simps dest: bit_imp_le_length)
  show "drop n (float_bytes x) ! i = drop n (float_bytes y) ! i"
    using i eq by (intro bit_word_eqI) (simp add: nth_float_bytes)
qed simp

lemma floatToBinary_bits:
  "floatToBinary f = map (\<lambda>b. if b then CHR ''1'' else CHR ''0'') (to_bits 32 f)"
  by (simp add: floatToBinary_def float_digits)

lemma truncateArray_length:
  "byteLen \<le> 4 \<Longrightarrow> truncateArray data (length data) byteLen =
     Some (concat (map (\<lambda>x. map ((!) (float_bytes x)) [4 - byteLen..<4]) data))"
  by (induction data) simp_all

lemma truncateRecover_loop:
  assumes "byteLen \<le> 4"
  shows "length byte = 4 \<Longrightarrow> take (4 - byteLen) byte = replicate (4 - byteLen) 0 \<Longrightarrow>
    truncateRecover_loop byte (concat (map (\<lambda>x. map ((!) (float_bytes x)) [4 - byteLen..<4]) data) @ rest)
      (length data) byteLen =
    Some (map (\<lambda>x. x AND NOT (mask (32 - 8 * byteLen))) data)"
proof (induction data arbitrary: byte)
  case (Cons x data)
  then show ?case
    using assms recover_bytes [OF assms, of x] by (simp add: Let_def)
qed simp

lemma update_prefix:
  "k \<le> length bs \<Longrightarrow> length bs \<le> length xs \<Longrightarrow>
    foldl (\<lambda>xs i. xs[i := bs ! i]) xs [0..<k] = take k bs @ drop k xs"
proof (induction k)
  case (Suc k)
  then show ?case
    by (simp add: list_update_append take_Suc_conv_app_nth Cons_nth_drop_Suc [symmetric, of k xs])
qed simp

lemma write_str_read_str:
  assumes "0 \<notin> set s" "p + length s + 1 \<le> length mem"
  shows "\<exists>mem'. write_str s (mem, p) = Some (mem', p + length s + 1) \<and>
    read_str (drop p mem') = Some (s, drop (p + length s + 1) mem)"
proof -
  have s: "c_str (s @ 0 # r) = s" "c_str s = s" for r
    using assms(1) by (induction s) (auto simp: c_str_def)
  show ?thesis
    using assms(2) by (simp add: write_str_def read_str_def store_def s drop_mem_write)
qed

section \<open>Properties\<close>

text \<open>The big-endian conversions of 16, 32 and 64 bits write the bytes from the most to the least
  significant one, and reading them gives the number back, whatever follows in the buffer.\<close>

theorem sz3_bigEndian_roundtrip:
  "bytesToInt16_bigEndian (int16ToBytes_bigEndian x @ r) = Some x \<and>
   bytesToInt32_bigEndian (int32ToBytes_bigEndian y @ r) = Some y \<and>
   bytesToInt64_bigEndian (int64ToBytes_bigEndian z @ r) = Some z \<and>
   int16ToBytes_bigEndian x = rev (le_bytes 2 x) \<and>
   int32ToBytes_bigEndian y = rev (le_bytes 4 y) \<and>
   int64ToBytes_bigEndian z = rev (le_bytes 8 z)"
  by (intro conjI bigEndian_inverse bigEndian_rev)

text \<open>Truncation keeps, for \<open>byteLen\<close> of at most 4, the \<open>byteLen\<close> most significant bytes of each
  float: the array takes \<open>n * byteLen\<close> bytes, and recovering it gives every value with its low
  bits cleared (the value itself for \<open>byteLen = 4\<close>).\<close>

theorem truncate_recover:
  assumes "byteLen \<le> 4" "n = length data"
  shows "\<exists>binary. truncateArray data n byteLen = Some binary \<and> length binary = n * byteLen \<and>
    truncateArrayRecover binary n byteLen = Some (map (\<lambda>x. x AND NOT (mask (32 - 8 * byteLen))) data)"
proof -
  have "length (concat (map (\<lambda>x. map ((!) (float_bytes x)) [4 - byteLen..<4]) data)) = n * byteLen"
    using assms by (simp add: length_concat comp_def sum_list_triv)
  moreover have "take (4 - byteLen) (float_bytes 0) = replicate (4 - byteLen) 0"
    by (simp add: float_bytes_def le_bytes_def list_eq_iff_nth_eq)
  ultimately show ?thesis
    using truncateRecover_loop [OF assms(1), of "float_bytes 0" data "[]"] assms
    by (simp add: truncateArray_length truncateArrayRecover_def)
qed

text \<open>An instance: two floats truncated to two bytes.\<close>

theorem truncate_recover_witness:
  "\<exists>binary. truncateArray [0x3f800001, 0xdeadbeef] 2 2 = Some binary \<and> length binary = 2 * 2 \<and>
    truncateArrayRecover binary 2 2 =
      Some (map (\<lambda>x. x AND NOT (mask (32 - 8 * 2))) [0x3f800001, 0xdeadbeef])"
  by (rule truncate_recover) simp_all

text \<open>\<open>LeadingBitsDecode\<close> inverts \<open>LeadingBitsEncode\<close> for every pair of patterns, with at most
  four bytes, and none when the value repeats the previous one.\<close>

theorem leading_bits_roundtrip:
  "LeadingBitsDecode pre (LeadingBitsEncode pre x) = Some x \<and>
   length (LeadingBitsEncode pre x) \<le> 4 \<and> LeadingBitsEncode x x = []"
proof -
  define d where "d = x XOR pre"
  define n :: nat where "n = (if d = 0 then 0 else if drop_bit 8 d = 0 then 1
    else if drop_bit 16 d = 0 then 2 else if drop_bit 24 d = 0 then 3 else 4)"
  have enc: "LeadingBitsEncode pre x = map ((!) (float_bytes x)) [0..<n]"
    by (simp add: LeadingBitsEncode_def n_def d_def Let_def)
  have n: "n \<le> 4" by (simp add: n_def)
  have "drop_bit 32 d = 0" by (rule bit_word_eqI) (simp add: bit_simps)
  then have "drop_bit (8 * n) d = 0" by (simp add: n_def)
  then have tail: "drop n (float_bytes x) = drop n (float_bytes pre)"
    by (intro leading_bytes n) (simp add: d_def)
  have "map ((!) (float_bytes x)) [0..<n] = take n (float_bytes x)"
    using n by (simp add: list_eq_iff_nth_eq)
  then have enc': "LeadingBitsEncode pre x = take n (float_bytes x)" using enc by simp
  have "LeadingBitsDecode pre (LeadingBitsEncode pre x) = Some (float_of_bytes (take n (float_bytes x) @ drop n (float_bytes pre)))"
    using n update_prefix [of n "take n (float_bytes x)" "float_bytes pre"]
    by (simp add: enc' LeadingBitsDecode_def)
  also have "\<dots> = Some x"
    unfolding tail [symmetric] append_take_drop_id by (simp add: float_of_bytes_def float_bytes_def)
  finally show ?thesis
    using n by (simp add: enc' LeadingBitsEncode_def [of x x])
qed

end
