(* ===== verification/Sz3_Encoders.thy ===== *)
theory Sz3_Encoders
  imports Sz3_Bytes
begin

text \<open>
  Two entropy-free encoders of SZ3 on vectors of \<open>int\<close>: \<open>SZ3/encoder/RunlengthEncoder.hpp\<close>, which
  writes a value and a count for every run, and \<open>SZ3/encoder/BypassEncoder.hpp\<close>, which writes the low
  byte of every value.  \<open>None\<close> is a failed assertion or an access outside a vector or buffer.
\<close>

section \<open>Run lengths\<close>

text \<open>The loop over the indices \<open>is\<close>, with \<open>s\<close> the start of the current run.\<close>

fun rl_encode_loop :: "int32 list \<Rightarrow> nat list \<Rightarrow> nat \<Rightarrow> out_pos \<Rightarrow> (nat \<times> out_pos) option" where
  "rl_encode_loop bins [] s c = Some (s, c)"
| "rl_encode_loop bins (i # is) s c =
     (if bins ! i \<noteq> bins ! (i - 1)
      then do {
        c \<leftarrow> write_var (bins ! (i - 1)) c;
        c \<leftarrow> write_var (of_nat (i - s) :: int32) c;
        rl_encode_loop bins is i c }
      else rl_encode_loop bins is s c)"

definition rl_encode :: "int32 list \<Rightarrow> out_pos \<Rightarrow> out_pos option" where
  "rl_encode bins c = do {
     (s, c) \<leftarrow> rl_encode_loop bins [1..<length bins] 0 c;
     if bins = [] then None
     else do {
       c \<leftarrow> write_var (bins ! (length bins - 1)) c;
       write_var (of_nat (length bins - s) :: int32) c } }"

text \<open>The end \<open>i + cnt\<close> of a run is computed in \<open>size_t\<close>, where a negative count wraps around.\<close>

definition size_add :: "nat \<Rightarrow> int32 \<Rightarrow> nat" where
  "size_add i cnt = nat ((int i + sint cnt) mod 2 ^ 64)"

lemma read_var_length:
  "read_var c = Some (w :: 'a::len word, c') \<Longrightarrow> length c = LENGTH('a) div 8 + length c'"
  by (auto simp: read_var_def split_at_def split: if_splits)

function rl_decode_loop :: "u8 list \<Rightarrow> nat \<Rightarrow> int32 list \<Rightarrow> (int32 list \<times> u8 list) option" where
  "rl_decode_loop bytes i bins =
     (if i < length bins
      then case read_var bytes of
             None \<Rightarrow> None
           | Some (value, bytes') \<Rightarrow>
               (case read_var bytes' of
                  None \<Rightarrow> None
                | Some (cnt :: int32, bytes'') \<Rightarrow>
                    let e = size_add i cnt
                    in if e \<le> i then rl_decode_loop bytes'' e bins
                       else if length bins < e then None
                       else rl_decode_loop bytes'' e (take i bins @ replicate (e - i) value @ drop e bins))
      else Some (bins, bytes))"
  by pat_completeness auto
termination
  by (relation "measure (\<lambda>(bytes, _, _). length bytes)") (auto dest!: read_var_length)

declare rl_decode_loop.simps [simp del]

definition rl_decode :: "u8 list \<Rightarrow> nat \<Rightarrow> (int32 list \<times> u8 list) option" where
  "rl_decode bytes targetLength = rl_decode_loop bytes 0 (replicate targetLength 0)"

section \<open>Bypass\<close>

definition bypass_preprocess_encode :: "int \<Rightarrow> unit option" where
  "bypass_preprocess_encode stateNum = (if stateNum \<le> 256 then Some () else None)"

fun bypass_encode :: "int32 list \<Rightarrow> out_pos \<Rightarrow> out_pos option" where
  "bypass_encode [] c = Some c"
| "bypass_encode (bin # bins) c = do {
     c \<leftarrow> write_bytes [ucast bin] c;
     bypass_encode bins c }"

fun bypass_decode :: "u8 list \<Rightarrow> nat \<Rightarrow> (int32 list \<times> u8 list) option" where
  "bypass_decode bytes 0 = Some ([], bytes)"
| "bypass_decode [] (Suc n) = None"
| "bypass_decode (b # bytes) (Suc n) = do {
     (bins, bytes) \<leftarrow> bypass_decode bytes n;
     Some (ucast b # bins, bytes) }"

section \<open>Runs\<close>

type_synonym run = "int32 \<times> nat"

definition run_bytes :: "run \<Rightarrow> u8 list" where
  "run_bytes r = (case r of (v, n) \<Rightarrow> le_bytes 4 v @ le_bytes 4 (of_nat n :: int32))"

definition run_values :: "run \<Rightarrow> int32 list" where
  "run_values r = (case r of (v, n) \<Rightarrow> replicate n v)"

definition runs_of :: "run list \<Rightarrow> int32 list \<Rightarrow> bool" where
  "runs_of rs xs \<longleftrightarrow> concat (map run_values rs) = xs \<and> (\<forall>(v, n) \<in> set rs. 0 < n)"

lemma emits_run: "emits (\<lambda>c. Option.bind (write_var v c) (write_var (of_nat n :: int32))) (run_bytes (v, n))"
  for v :: int32
  unfolding run_bytes_def case_prod_conv
  using emits_bind [OF emits_var [of v] emits_var [of "of_nat n :: int32"]] by simp

text \<open>The rest of the encoding from an index inside a run.\<close>

definition rl_rest :: "int32 list \<Rightarrow> nat list \<Rightarrow> nat \<Rightarrow> out_pos \<Rightarrow> out_pos option" where
  "rl_rest bins is s c = do {
     (s, c) \<leftarrow> rl_encode_loop bins is s c;
     c \<leftarrow> write_var (bins ! (length bins - 1)) c;
     write_var (of_nat (length bins - s) :: int32) c }"

lemma run_split:
  assumes "s < i" "i \<le> length bins" "take (i - s) (drop s bins) = replicate (i - s) v"
  shows "drop s bins = replicate (i - s) v @ drop i bins"
  using append_take_drop_id [of "i - s" "drop s bins"] assms by simp

lemma rl_rest_runs:
  assumes "s < i" "i \<le> length bins" "take (i - s) (drop s bins) = replicate (i - s) (bins ! (i - 1))"
  shows "\<exists>rs. runs_of rs (drop s bins) \<and> emits (rl_rest bins [i..<length bins] s) (concat (map run_bytes rs))"
  using assms
proof (induction "length bins - i" arbitrary: i s)
  case 0
  then have i: "i = length bins" by simp
  let ?r = "(bins ! (length bins - 1), length bins - s)"
  have "runs_of [?r] (drop s bins)"
    using run_split [OF 0(2-4)] 0(2) by (simp add: i runs_of_def run_values_def)
  moreover have "emits (rl_rest bins [i..<length bins] s) (concat (map run_bytes [?r]))"
    using emits_run [of "bins ! (length bins - 1)" "length bins - s"] by (simp add: i rl_rest_def [abs_def])
  ultimately show ?case by blast
next
  case (Suc d)
  then have i: "i < length bins" and upt: "[i..<length bins] = i # [Suc i..<length bins]"
    and d: "d = length bins - Suc i"
    by (simp_all add: upt_conv_Cons)
  show ?case
  proof (cases "bins ! i = bins ! (i - 1)")
    case True
    have "take (Suc i - s) (drop s bins) = take (i - s) (drop s bins) @ [bins ! i]"
      using i Suc.prems(1) by (simp add: Suc_diff_le take_Suc_conv_app_nth)
    also have "\<dots> = replicate (i - s) (bins ! i) @ [bins ! i]"
      unfolding Suc.prems(3) True ..
    also have "\<dots> = replicate (Suc i - s) (bins ! (Suc i - 1))"
      using Suc.prems(1) by (simp add: Suc_diff_le replicate_append_same)
    finally have "\<exists>rs. runs_of rs (drop s bins) \<and>
        emits (rl_rest bins [Suc i..<length bins] s) (concat (map run_bytes rs))"
      using Suc.prems(1) i by (intro Suc.hyps(1) d) simp_all
    moreover have "rl_rest bins [i..<length bins] s = rl_rest bins [Suc i..<length bins] s"
      using True by (simp add: rl_rest_def [abs_def] upt)
    ultimately show ?thesis by simp
  next
    case False
    have "\<exists>rs. runs_of rs (drop i bins) \<and>
        emits (rl_rest bins [Suc i..<length bins] i) (concat (map run_bytes rs))"
      using i by (intro Suc.hyps(1) d) (simp_all add: take_Suc_conv_app_nth)
    then obtain rs where rs: "runs_of rs (drop i bins)"
      "emits (rl_rest bins [Suc i..<length bins] i) (concat (map run_bytes rs))"
      by blast
    let ?r = "(bins ! (i - 1), i - s)"
    have "runs_of (?r # rs) (drop s bins)"
      using rs(1) Suc.prems(1) run_split [OF Suc.prems] by (simp add: runs_of_def run_values_def)
    moreover have "rl_rest bins [i..<length bins] s = (\<lambda>c. Option.bind (Option.bind (write_var (bins ! (i - 1)) c)
        (write_var (of_nat (i - s) :: int32))) (rl_rest bins [Suc i..<length bins] i))"
      using False by (simp add: rl_rest_def [abs_def] upt)
    ultimately show ?thesis
      using emits_bind [OF emits_run rs(2), of "bins ! (i - 1)" "i - s"]
      by (intro exI [of _ "?r # rs"]) simp
  qed
qed

lemma rl_encode_runs:
  assumes "bins \<noteq> []"
  shows "\<exists>rs. runs_of rs bins \<and> emits (rl_encode bins) (concat (map run_bytes rs))"
proof -
  have "rl_encode bins = rl_rest bins [1..<length bins] 0"
    using assms by (auto simp: rl_encode_def rl_rest_def intro!: ext)
  then show ?thesis
    using rl_rest_runs [of 0 1 bins] assms by (simp add: Suc_le_eq take_Suc_conv_app_nth)
qed

lemma sint_of_nat32: "n < 2 ^ 31 \<Longrightarrow> sint (of_nat n :: int32) = int n"
  by transfer (simp add: signed_take_bit_int_eq_self)

lemma rl_decode_runs:
  assumes "length xs = i" "runs_of rs ys" "i + length ys < 2 ^ 31"
  shows "rl_decode_loop (concat (map run_bytes rs) @ rest) i (xs @ replicate (length ys) 0) = Some (xs @ ys, rest)"
  using assms
proof (induction rs arbitrary: i xs ys)
  case Nil
  then show ?case by (simp add: runs_of_def rl_decode_loop.simps)
next
  case (Cons r rs)
  obtain v n where r: "r = (v, n)" by (cases r)
  define zs where "zs = concat (map run_values rs)"
  have ys: "ys = replicate n v @ zs" and n: "0 < n" and zs: "runs_of rs zs"
    using Cons.prems by (auto simp: r runs_of_def run_values_def zs_def)
  have e: "size_add i (of_nat n) = i + n"
    using Cons.prems(3) ys by (simp add: size_add_def sint_of_nat32 nat_int_add)
  have read1: "read_var (le_bytes 4 v @ bs) = Some (v, bs)" for bs
    using read_var_write [of v bs] by simp
  have read2: "read_var (le_bytes 4 (of_nat n :: int32) @ bs) = Some (of_nat n :: int32, bs)" for bs
    using read_var_write [of "of_nat n :: int32" bs] by simp
  have "rl_decode_loop (concat (map run_bytes (r # rs)) @ rest) i (xs @ replicate (length ys) 0) =
    rl_decode_loop (concat (map run_bytes rs) @ rest) (i + n) ((xs @ replicate n v) @ replicate (length zs) 0)"
    using Cons.prems n
    by (subst rl_decode_loop.simps) (simp add: r run_bytes_def read1 read2 e ys Let_def)
  also have "\<dots> = Some ((xs @ replicate n v) @ zs, rest)"
    using Cons.prems zs by (intro Cons.IH) (simp_all add: ys)
  finally show ?case by (simp add: ys)
qed

lemma bypass_emits: "emits (bypass_encode bins) (map ucast bins)"
proof (induction bins)
  case Nil
  then show ?case by (simp add: emits_def mem_write_def)
next
  case (Cons bin bins)
  show ?case using emits_bind [OF emits_bytes Cons, of "[ucast bin]"] by (simp add: fun_eq_iff)
qed

lemma bypass_decode_map:
  "bypass_decode (map ucast bins @ rest) (length bins) = Some (map (\<lambda>b. ucast (ucast b :: u8)) bins, rest)"
  by (induction bins) simp_all

section \<open>Properties\<close>

text \<open>C30: Run-length coding is lossless: for a non-empty vector shorter than \<open>2 ^ 31\<close>, written at any
  position of a buffer with room for two words per element, decoding what was written gives the
  vector and stops at the end of the encoding.\<close>

theorem runlength_roundtrip:
  assumes "bins \<noteq> []" "length bins < 2 ^ 31" "p + 8 * length bins \<le> length mem"
  shows "\<exists>mem' q. rl_encode bins (mem, p) = Some (mem', q) \<and> q \<le> p + 8 * length bins \<and>
    rl_decode (drop p mem') (length bins) = Some (bins, drop q mem)"
proof -
  obtain rs where rs: "runs_of rs bins" "emits (rl_encode bins) (concat (map run_bytes rs))"
    using rl_encode_runs [OF assms(1)] by blast
  have "length (concat (map run_bytes rs)) \<le> 8 * length (concat (map run_values rs))"
    if "\<forall>(v, n) \<in> set rs. 0 < n" for rs
    using that by (induction rs) (auto simp: run_bytes_def run_values_def)
  from this [of rs] have len: "length (concat (map run_bytes rs)) \<le> 8 * length bins"
    using rs(1) by (simp add: runs_of_def)
  obtain mem' where "rl_encode bins (mem, p) = Some (mem', p + length (concat (map run_bytes rs)))"
    "drop p mem' = concat (map run_bytes rs) @ drop (p + length (concat (map run_bytes rs))) mem"
    using emits_drop [OF rs(2), of p mem] len assms(3) by auto
  then show ?thesis
    using len rl_decode_runs [of "[]" 0 rs bins] rs(1) assms(2) by (simp add: rl_decode_def)
qed

text \<open>Witness of C30: three runs.\<close>

theorem runlength_roundtrip_witness:
  "\<exists>mem' q. rl_encode [5, 5, 5, -1, 7, 7] (replicate 50 0, 2) = Some (mem', q) \<and>
    q \<le> 2 + 8 * length [5, 5, 5, -1, 7, 7 :: int32] \<and>
    rl_decode (drop 2 mem') (length [5, 5, 5, -1, 7, 7 :: int32]) = Some ([5, 5, 5, -1, 7, 7], drop q (replicate 50 0))"
  by (rule runlength_roundtrip) simp_all

text \<open>An empty vector reads \<open>bins[bins.size() - 1]\<close>, outside the vector.\<close>

theorem runlength_empty: "rl_encode [] c = None"
  by (simp add: rl_encode_def)

text \<open>The bypass encoder keeps the low byte of each value: decoding gives \<open>bins\<close> back exactly when
  every value is one of the 256 states that \<open>preprocess_encode\<close> allows.\<close>

theorem bypass_roundtrip:
  assumes "p + length bins \<le> length mem"
  shows "\<exists>mem'. bypass_encode bins (mem, p) = Some (mem', p + length bins) \<and>
    (bypass_decode (drop p mem') (length bins) = Some (bins, drop (p + length bins) mem) \<longleftrightarrow>
     (\<forall>bin \<in> set bins. bin < 256))"
proof -
  obtain mem' where enc: "bypass_encode bins (mem, p) = Some (mem', p + length bins)"
    "drop p mem' = map ucast bins @ drop (p + length bins) mem"
    using emits_drop [OF bypass_emits, of p bins mem] assms by auto
  have "ucast (ucast b :: u8) = b \<longleftrightarrow> b < 256" for b :: int32
  proof -
    have "ucast (ucast b :: u8) = take_bit 8 b" by (rule bit_word_eqI) (auto simp: bit_simps)
    moreover have "unat (take_bit 8 b) = take_bit 8 (unat b)"
      by transfer (simp add: take_bit_nat_eq nat_take_bit_eq)
    ultimately show ?thesis
      using take_bit_nat_eq_self_iff [of 8 "unat b"] by (simp add: word_less_nat_alt word_unat_eq_iff)
  qed
  then have "map (\<lambda>b. ucast (ucast b :: u8)) bins = bins \<longleftrightarrow> (\<forall>bin \<in> set bins. bin < 256)"
    using map_eq_conv [of "\<lambda>b. ucast (ucast b :: u8)" bins "\<lambda>b. b"] by simp
  then show ?thesis using enc by (simp add: bypass_decode_map)
qed

text \<open>An instance: one byte value and one larger value.\<close>

theorem bypass_roundtrip_witness:
  "\<exists>mem'. bypass_encode [17, 300] (replicate 4 0, 1) = Some (mem', 1 + length [17, 300 :: int32]) \<and>
    (bypass_decode (drop 1 mem') (length [17, 300 :: int32]) =
       Some ([17, 300], drop (1 + length [17, 300 :: int32]) (replicate 4 0)) \<longleftrightarrow>
     (\<forall>bin \<in> set [17, 300 :: int32]. bin < 256))"
  by (rule bypass_roundtrip) simp

end
