(* ===== verification/Sz3_Quantizer.thy ===== *)
theory Sz3_Quantizer
  imports Sz3_Bytes Ieee_Double
begin

text \<open>
  The quantiser of SZ3, \<open>SZ3/quantizer/IntegerQuantizer.hpp\<close>, for data of type \<open>double\<close>, and the
  decomposition without prediction, \<open>SZ3/decomposition/NoPredictionDecomposition.hpp\<close>.  A value is
  replaced by the nearest multiple of twice the error bound around its prediction; what does not fit
  is kept in the vector \<open>unpred\<close>.  \<open>None\<close> is a failed assertion, an undefined conversion or overflow,
  or an access outside a vector.
\<close>

section \<open>The quantiser\<close>

record linear_quantizer =
  unpred :: "double list"
  index :: nat
  error_bound :: double
  error_bound_reciprocal :: double
  radius :: int

text \<open>The constructors: without arguments, and with a bound, which is asserted not to be 0.\<close>

definition LinearQuantizer_default :: linear_quantizer where
  "LinearQuantizer_default =
     \<lparr>unpred = [], index = 0, error_bound = lit_1, error_bound_reciprocal = lit_1, radius = 32768\<rparr>"

definition LinearQuantizer :: "double \<Rightarrow> int \<Rightarrow> linear_quantizer option" where
  "LinearQuantizer eb r =
     (if f64_eq eb 0 then None
      else Some \<lparr>unpred = [], index = 0, error_bound = eb, error_bound_reciprocal = f64_div lit_1 eb, radius = r\<rparr>)"

definition set_eb :: "double \<Rightarrow> linear_quantizer \<Rightarrow> linear_quantizer" where
  "set_eb eb q = q\<lparr>error_bound := eb, error_bound_reciprocal := f64_div lit_1 eb\<rparr>"

text \<open>An \<open>int\<close> expression, undefined on overflow.\<close>

definition int_expr :: "int \<Rightarrow> int option" where
  "int_expr x = (if - (2 ^ 31) \<le> x \<and> x < 2 ^ 31 then Some x else None)"

text \<open>\<open>quantize_and_overwrite(T &data, T pred)\<close>: the index, the new content of \<open>data\<close>, the quantiser.\<close>

definition quantize_and_overwrite ::
  "linear_quantizer \<Rightarrow> double \<Rightarrow> double \<Rightarrow> (int \<times> double \<times> linear_quantizer) option" where
  "quantize_and_overwrite q data pred = do {
     let diff = f64_sub data pred;
     k \<leftarrow> f64_to_int 64 (f64_mul (f64_abs diff) (error_bound_reciprocal q));
     let quant_index = k + 1;
     limit \<leftarrow> int_expr (radius q * 2);
     if quant_index < limit
     then do {
       let quant_index = quant_index div 2;
       let half_index = i32 quant_index;
       let quant_index = quant_index * 2;
       let less = f64_lt diff 0;
       let quant_index = (if less then - quant_index else quant_index);
       quant_index_shifted \<leftarrow> int_expr (if less then radius q - half_index else radius q + half_index);
       let decompressed_data = f64_add pred (f64_mul (f64_of_int quant_index) (error_bound q));
       if f64_lt (error_bound q) (f64_abs (f64_sub decompressed_data data))
       then Some (0, data, q\<lparr>unpred := unpred q @ [data]\<rparr>)
       else Some (quant_index_shifted, decompressed_data, q) }
     else Some (0, data, q\<lparr>unpred := unpred q @ [data]\<rparr>) }"

text \<open>The overload for the meta predictors leaves the input and writes to \<open>dest\<close>.\<close>

definition quantize_to_dest ::
  "linear_quantizer \<Rightarrow> double \<Rightarrow> double \<Rightarrow> (int \<times> double \<times> linear_quantizer) option" where
  "quantize_to_dest q ori pred = do {
     let diff = f64_sub ori pred;
     k \<leftarrow> f64_to_int 64 (f64_mul (f64_abs diff) (error_bound_reciprocal q));
     let quant_index = k + 1;
     limit \<leftarrow> int_expr (radius q * 2);
     if quant_index < limit
     then do {
       let quant_index = quant_index div 2;
       let half_index = i32 quant_index;
       let quant_index = quant_index * 2;
       let less = f64_lt diff 0;
       let quant_index = (if less then - quant_index else quant_index);
       quant_index_shifted \<leftarrow> int_expr (if less then radius q - half_index else radius q + half_index);
       let decompressed_data = f64_add pred (f64_mul (f64_of_int quant_index) (error_bound q));
       if f64_lt (error_bound q) (f64_abs (f64_sub decompressed_data ori))
       then (let dest = ori in Some (0, dest, q\<lparr>unpred := unpred q @ [ori]\<rparr>))
       else (let dest = decompressed_data in Some (quant_index_shifted, dest, q)) }
     else (let dest = ori in Some (0, dest, q\<lparr>unpred := unpred q @ [ori]\<rparr>)) }"

definition recover_pred :: "linear_quantizer \<Rightarrow> double \<Rightarrow> int \<Rightarrow> double option" where
  "recover_pred q pred quant_index = do {
     d \<leftarrow> int_expr (quant_index - radius q);
     k \<leftarrow> int_expr (2 * d);
     Some (f64_add pred (f64_mul (f64_of_int k) (error_bound q))) }"

definition recover_unpred :: "linear_quantizer \<Rightarrow> (double \<times> linear_quantizer) option" where
  "recover_unpred q =
     (if index q < length (unpred q) then Some (unpred q ! index q, q\<lparr>index := index q + 1\<rparr>) else None)"

definition recover :: "linear_quantizer \<Rightarrow> double \<Rightarrow> int \<Rightarrow> (double \<times> linear_quantizer) option" where
  "recover q pred quant_index =
     (if quant_index \<noteq> 0 then map_option (\<lambda>x. (x, q)) (recover_pred q pred quant_index)
      else recover_unpred q)"

definition quantizer_size_est :: "linear_quantizer \<Rightarrow> nat" where
  "quantizer_size_est q = length (unpred q) * 8"

definition quantizer_save :: "linear_quantizer \<Rightarrow> out_pos \<Rightarrow> out_pos option" where
  "quantizer_save q c = do {
     c \<leftarrow> write_bytes [0b00000010] c;
     c \<leftarrow> write_var (error_bound q) c;
     c \<leftarrow> write_var (word_of_int (radius q) :: int32) c;
     c \<leftarrow> write_var (of_nat (length (unpred q)) :: u64) c;
     write_array (unpred q) c }"

text \<open>The assertion only compares the remaining length with the size of a shorter header.\<close>

definition quantizer_load ::
  "linear_quantizer \<Rightarrow> u8 list \<Rightarrow> nat \<Rightarrow> (linear_quantizer \<times> u8 list \<times> nat) option" where
  "quantizer_load q c remaining_length = do {
     (if 1 + 8 + 4 < remaining_length then Some () else None);
     (tag :: u8, c) \<leftarrow> read_var c;
     (eb :: double, c) \<leftarrow> read_var c;
     (r :: int32, c) \<leftarrow> read_var c;
     (unpred_size :: u64, c) \<leftarrow> read_var c;
     (us, c) \<leftarrow> read_elems (unat unpred_size) c;
     Some (q\<lparr>error_bound := eb, error_bound_reciprocal := f64_div lit_1 eb, radius := sint r,
             unpred := us, index := 0\<rparr>, c, remaining_length - 1) }"

section \<open>Decomposition without prediction\<close>

fun nopred_compress ::
  "linear_quantizer \<Rightarrow> double list \<Rightarrow> (int list \<times> double list \<times> linear_quantizer) option" where
  "nopred_compress q [] = Some ([], [], q)"
| "nopred_compress q (x # data) = do {
     (k, x, q) \<leftarrow> quantize_and_overwrite q x 0;
     (ks, data, q) \<leftarrow> nopred_compress q data;
     Some (k # ks, x # data, q) }"

fun nopred_decompress :: "linear_quantizer \<Rightarrow> int list \<Rightarrow> nat \<Rightarrow> (double list \<times> linear_quantizer) option" where
  "nopred_decompress q ks 0 = Some ([], q)"
| "nopred_decompress q [] (Suc num) = None"
| "nopred_decompress q (k # ks) (Suc num) = do {
     (x, q) \<leftarrow> recover q 0 k;
     (data, q) \<leftarrow> nopred_decompress q ks num;
     Some (x # data, q) }"

section \<open>One value\<close>

text \<open>What one call does: the index is 0 and the value kept, or the index lies strictly between 0 and
  twice the radius, the value is what \<open>recover_pred\<close> computes, and passes the comparison.\<close>

definition quantized :: "linear_quantizer \<Rightarrow> double \<Rightarrow> double \<Rightarrow> int \<Rightarrow> double \<Rightarrow> double list \<Rightarrow> bool" where
  "quantized q data pred k data' new \<longleftrightarrow>
     k = 0 \<and> data' = data \<and> new = [data] \<or>
     0 < k \<and> k < 2 * radius q \<and> recover_pred q pred k = Some data' \<and> new = [] \<and>
     \<not> f64_lt (error_bound q) (f64_abs (f64_sub data' data))"

lemma quantize_total:
  assumes "0 < radius q" "radius q < 2 ^ 30"
    "f64_to_int 64 (f64_mul (f64_abs (f64_sub data pred)) (error_bound_reciprocal q)) = Some m" "0 \<le> m"
  shows "\<exists>k data' new. quantize_and_overwrite q data pred = Some (k, data', q\<lparr>unpred := unpred q @ new\<rparr>) \<and>
    quantized q data pred k data' new"
proof (cases "m + 1 < radius q * 2")
  case False
  then show ?thesis
    using assms by (auto simp: quantize_and_overwrite_def int_expr_def quantized_def)
next
  case True
  define h where "h = (m + 1) div 2"
  have h: "0 \<le> h" "h < radius q" "h < 2 ^ 30" using True assms by (auto simp: h_def)
  have i: "i32 h = h" using h by simp
  define less where "less \<longleftrightarrow> f64_lt (f64_sub data pred) 0"
  define s where "s = (if less then - h else h)"
  have range: "int_expr (if less then radius q - h else radius q + h) = Some (radius q + s)"
    using h assms by (auto simp: int_expr_def s_def)
  have neg: "(if less then - (h * 2) else h * 2) = 2 * s" by (simp add: s_def)
  define dec where "dec = f64_add pred (f64_mul (f64_of_int (2 * s)) (error_bound q))"
  have rec: "recover_pred q pred (radius q + s) = Some dec"
    using h assms by (auto simp: recover_pred_def int_expr_def dec_def s_def)
  have "quantize_and_overwrite q data pred =
      (if f64_lt (error_bound q) (f64_abs (f64_sub dec data))
       then Some (0, data, q\<lparr>unpred := unpred q @ [data]\<rparr>) else Some (radius q + s, dec, q))"
    using assms True
    by (simp add: quantize_and_overwrite_def int_expr_def [of "radius q * 2"] i range neg dec_def
        flip: h_def less_def)
  moreover have "0 < radius q + s" "radius q + s < 2 * radius q" using h by (auto simp: s_def)
  ultimately show ?thesis
    using rec by (auto simp: quantized_def)
qed

lemma quantize_to_dest_same: "quantize_to_dest q ori pred = quantize_and_overwrite q ori pred"
  unfolding quantize_to_dest_def quantize_and_overwrite_def Let_def ..

lemma mul_finite_neg: "f64_finite (f64_mul x y) \<Longrightarrow> neg (f64_mul x y) = (neg x \<noteq> neg y)"
proof -
  assume fin: "f64_finite (f64_mul x y)"
  have "\<not> f64_finite qnan" "\<not> f64_finite (pack s inf_mag)" for s
    by (simp_all add: f64_finite_def qnan_def mag_def inf_mag_def pack_def)
  then show ?thesis
    using fin unfolding f64_mul_def Let_def by (simp add: neg_pack [OF round_units_less] split: if_splits)
qed

text \<open>The quotient is not negative for a positive bound.\<close>

lemma quotient_nonneg:
  assumes "f64_to_int 64 (f64_mul (f64_abs d) r) = Some m" "\<not> neg r"
  shows "0 \<le> m"
proof -
  let ?x = "f64_mul (f64_abs d) r"
  have "f64_finite ?x" and m: "m = f64_trunc ?x"
    using assms(1) by (auto simp: f64_to_int_def split: if_splits)
  then have "\<not> neg ?x" using mul_finite_neg assms(2) by simp
  then show ?thesis using trunc_val(4) m by simp
qed

section \<open>Arrays\<close>

definition quantizer_ok :: "linear_quantizer \<Rightarrow> bool" where
  "quantizer_ok q \<longleftrightarrow> 0 < radius q \<and> radius q < 2 ^ 30 \<and> \<not> neg (error_bound_reciprocal q)"

lemma quantize_some:
  assumes "quantizer_ok q" "quantize_and_overwrite q data pred = Some (k, data', q')"
  obtains new where "q' = q\<lparr>unpred := unpred q @ new\<rparr>" "quantized q data pred k data' new"
proof -
  obtain m where m: "f64_to_int 64 (f64_mul (f64_abs (f64_sub data pred)) (error_bound_reciprocal q)) = Some m"
    using assms(2) by (cases "f64_to_int 64 (f64_mul (f64_abs (f64_sub data pred)) (error_bound_reciprocal q))")
      (simp_all add: quantize_and_overwrite_def Let_def)
  have "0 \<le> m" using quotient_nonneg [OF m] assms(1) by (simp add: quantizer_ok_def)
  with quantize_total [OF _ _ m] assms that show thesis
    by (auto simp: quantizer_ok_def)
qed

text \<open>Quantised series: \<open>new\<close> collects the values kept verbatim.\<close>

inductive quantized_all :: "linear_quantizer \<Rightarrow> double list \<Rightarrow> int list \<Rightarrow> double list \<Rightarrow> double list \<Rightarrow> bool" where
  quantized_Nil: "quantized_all q [] [] [] []"
| quantized_Cons: "quantized q x 0 k y new \<Longrightarrow> quantized_all q xs ks ys news \<Longrightarrow>
    quantized_all q (x # xs) (k # ks) (y # ys) (new @ news)"

lemma quantized_unpred [simp]: "quantized (q\<lparr>unpred := us\<rparr>) x pred k y new = quantized q x pred k y new"
  by (simp add: quantized_def recover_pred_def)

lemma quantized_all_unpred: "quantized_all q xs ks ys news \<Longrightarrow> quantized_all (q\<lparr>unpred := us\<rparr>) xs ks ys news"
  by (induction rule: quantized_all.induct) (auto intro: quantized_all.intros)

lemma nopred_compress_quantized:
  "quantizer_ok q \<Longrightarrow> nopred_compress q data = Some (ks, data', q') \<Longrightarrow>
    \<exists>news. quantized_all q data ks data' news \<and> q' = q\<lparr>unpred := unpred q @ news\<rparr>"
proof (induction data arbitrary: q ks data' q')
  case Nil
  then show ?case by (auto intro: quantized_Nil)
next
  case (Cons x xs)
  obtain k y q1 where one: "quantize_and_overwrite q x 0 = Some (k, y, q1)"
    using Cons.prems(2) by (cases "quantize_and_overwrite q x 0") auto
  obtain ks1 ys where rest: "nopred_compress q1 xs = Some (ks1, ys, q')" "ks = k # ks1" "data' = y # ys"
    using Cons.prems(2) one by (cases "nopred_compress q1 xs") auto
  obtain new where new: "q1 = q\<lparr>unpred := unpred q @ new\<rparr>" "quantized q x 0 k y new"
    by (rule quantize_some [OF Cons.prems(1) one])
  have "quantizer_ok q1" using Cons.prems(1) new(1) by (simp add: quantizer_ok_def)
  from Cons.IH [OF this rest(1)] obtain news where
    news: "quantized_all q1 xs ks1 ys news" "q' = q1\<lparr>unpred := unpred q1 @ news\<rparr>" by blast
  have "quantized_all q xs ks1 ys news"
    using quantized_all_unpred [OF news(1), of "unpred q"] new(1) by simp
  from quantized_Cons [OF new(2) this] show ?case
    using news(2) new(1) rest by auto
qed

lemma recover_quantized:
  assumes "quantized q x 0 k y new" "radius p = radius q" "error_bound p = error_bound q"
    "drop (index p) (unpred p) = new @ rest"
  shows "\<exists>p'. recover p 0 k = Some (y, p') \<and> radius p' = radius q \<and> error_bound p' = error_bound q \<and>
    drop (index p') (unpred p') = rest"
proof (cases "k = 0")
  case True
  then have "drop (index p) (unpred p) = y # rest" using assms by (auto simp: quantized_def)
  then have "index p < length (unpred p)" "unpred p ! index p = y" "drop (index p + 1) (unpred p) = rest"
    by (metis drop_all list.distinct(1) not_le_imp_less, metis nth_via_drop, metis Suc_eq_plus1 drop_Suc tl_drop list.sel(3))
  then show ?thesis
    using True assms by (simp add: recover_def recover_unpred_def)
next
  case False
  then have "recover_pred p 0 k = Some y" "new = []"
    using assms by (auto simp: quantized_def recover_pred_def)
  then show ?thesis
    using False assms by (simp add: recover_def)
qed

lemma nopred_decompress_quantized:
  "quantized_all q xs ks ys news \<Longrightarrow> radius p = radius q \<Longrightarrow> error_bound p = error_bound q \<Longrightarrow>
    drop (index p) (unpred p) = news @ rest \<Longrightarrow>
    \<exists>p'. nopred_decompress p ks (length xs) = Some (ys, p')"
proof (induction q xs ks ys news arbitrary: p rule: quantized_all.induct)
  case (quantized_Nil q)
  then show ?case by simp
next
  case (quantized_Cons q x k y new xs ks ys news)
  obtain p1 where p1: "recover p 0 k = Some (y, p1)" "radius p1 = radius q" "error_bound p1 = error_bound q"
    "drop (index p1) (unpred p1) = news @ rest"
    using recover_quantized [OF quantized_Cons.hyps(1), of p "news @ rest"] quantized_Cons.prems by auto
  obtain p2 where "nopred_decompress p1 ks (length xs) = Some (ys, p2)"
    using quantized_Cons.IH [OF p1(2-4)] by blast
  then show ?case using p1 by simp
qed

lemma quantized_all_accepted:
  "quantized_all q xs ks ys news \<Longrightarrow>
    list_all2 (\<lambda>x y. y = x \<or> \<not> f64_lt (error_bound q) (f64_abs (f64_sub y x))) xs ys \<and>
    length ks = length xs \<and> (0 < radius q \<longrightarrow> list_all (\<lambda>k. 0 \<le> k \<and> k < 2 * radius q) ks) \<and>
    length news \<le> length xs"
  by (induction rule: quantized_all.induct) (auto simp: quantized_def)

section \<open>The saved quantiser\<close>

definition quantizer_bytes :: "linear_quantizer \<Rightarrow> u8 list" where
  "quantizer_bytes q =
     [0b00000010] @ le_bytes 8 (error_bound q) @ le_bytes 4 (word_of_int (radius q) :: int32) @
     le_bytes 8 (of_nat (length (unpred q)) :: u64) @ array_bytes 8 (unpred q)"

lemma length_quantizer_bytes: "length (quantizer_bytes q) = 21 + 8 * length (unpred q)"
  by (simp add: quantizer_bytes_def)

lemma quantizer_save_emits: "emits (quantizer_save q) (quantizer_bytes q)"
proof -
  have b: "emits (\<lambda>c. Option.bind (f c) g) (xs @ ys)" if "emits f xs" "emits g ys" for f g xs ys
    using that by (rule emits_bind)
  have vars: "emits (write_var (error_bound q)) (le_bytes 8 (error_bound q))"
    "emits (write_var (word_of_int (radius q) :: int32)) (le_bytes 4 (word_of_int (radius q) :: int32))"
    "emits (write_var (of_nat (length (unpred q)) :: u64)) (le_bytes 8 (of_nat (length (unpred q)) :: u64))"
    "emits (write_array (unpred q)) (array_bytes 8 (unpred q))"
    using emits_var [of "error_bound q"] emits_var [of "word_of_int (radius q) :: int32"]
      emits_var [of "of_nat (length (unpred q)) :: u64"] emits_array [of "unpred q"] by simp_all
  show ?thesis
    unfolding quantizer_save_def [abs_def] quantizer_bytes_def
    by (intro b emits_bytes vars)
qed

lemma read_var_bytes:
  "read_var (le_bytes 8 (w :: u64) @ c) = Some (w, c)"
  "read_var (le_bytes 4 (v :: u32) @ c) = Some (v, c)"
  "read_var ((b :: u8) # c) = Some (b, c)"
  using read_var_write [of w c] read_var_write [of v c] read_var_write [of b c]
  by (simp_all add: le_bytes_def)

lemma quantizer_load_bytes:
  assumes "- (2 ^ 31) \<le> radius q" "radius q < 2 ^ 31" "length (unpred q) < 2 ^ 64" "13 < n"
  shows "quantizer_load p (quantizer_bytes q @ rest) n =
    Some (p\<lparr>error_bound := error_bound q, error_bound_reciprocal := f64_div lit_1 (error_bound q),
            radius := radius q, unpred := unpred q, index := 0\<rparr>, rest, n - 1)"
proof -
  have r: "sint (word_of_int (radius q) :: int32) = radius q"
    using assms by (simp add: sint_sbintrunc' signed_take_bit_int_eq_self)
  have u: "unat (of_nat (length (unpred q)) :: u64) = length (unpred q)"
    using assms(3) by (rule unat_of_nat64)
  have e: "read_elems (length (unpred q)) (array_bytes 8 (unpred q) @ rest) = Some (unpred q, rest)"
    using read_elems_write [of "length (unpred q)" "unpred q" rest] by simp
  show ?thesis
    using assms(4) by (simp add: quantizer_load_def quantizer_bytes_def read_var_bytes r u e)
qed

section \<open>Properties\<close>

text \<open>The comparison with the bound, over the reals: the subtraction rounds, so the error may
  exceed the bound by one part in \<open>2 ^ 53\<close> (and half the smallest number).\<close>

lemma accepted_error:
  assumes "f64_finite x" "f64_finite y" "f64_finite e" "\<bar>val y - val x\<bar> \<le> f64_big"
    "\<not> f64_lt e (f64_abs (f64_sub y x))"
  shows "\<bar>val y - val x\<bar> * (1 - 1 / 2 ^ 53) \<le> val e + 1 / 2 / real one_units"
proof -
  note n = sub_near [OF assms(2,1,4)]
  have "val (f64_abs (f64_sub y x)) \<le> val e"
    using assms(3,5) nearD(1) [OF n] by (simp add: lt_val)
  then have "\<bar>val (f64_sub y x)\<bar> \<le> val e" by simp
  moreover have "\<bar>v - d\<bar> \<le> \<bar>d\<bar> / 2 ^ 53 + t \<Longrightarrow> \<bar>v\<bar> \<le> c \<Longrightarrow> \<bar>d\<bar> * (1 - 1 / 2 ^ 53) \<le> c + t" for v d c t :: real
    by (simp add: abs_if split: if_splits)
  ultimately show ?thesis using nearD(2) [OF n] by blast
qed

text \<open>C26: Quantising one value against any prediction, for a radius between 1 and \<open>2 ^ 30\<close> and a bound
  that is not negative.  Either the index is 0, the value stays and is appended to \<open>unpred\<close>; or the
  index is between 1 and \<open>2 * radius - 1\<close>, nothing is appended, \<open>recover_pred\<close> computes from the
  prediction and the index exactly the value that replaced the data, and that value is within the
  error bound of the data up to the rounding of the comparison.\<close>

theorem sz3_quantize_recover:
  assumes "quantizer_ok q" "quantize_and_overwrite q data pred = Some (k, data', q')"
  shows "k = 0 \<and> data' = data \<and> q' = q\<lparr>unpred := unpred q @ [data]\<rparr> \<or>
    0 < k \<and> k < 2 * radius q \<and> q' = q \<and> recover q' pred k = Some (data', q') \<and>
    (f64_finite data \<and> f64_finite data' \<and> f64_finite (error_bound q) \<and> \<bar>val data' - val data\<bar> \<le> f64_big \<longrightarrow>
     \<bar>val data' - val data\<bar> * (1 - 1 / 2 ^ 53) \<le> val (error_bound q) + 1 / 2 / real one_units)"
proof -
  obtain new where new: "q' = q\<lparr>unpred := unpred q @ new\<rparr>" "quantized q data pred k data' new"
    by (rule quantize_some [OF assms])
  show ?thesis
    using new(2) unfolding quantized_def
  proof (elim disjE conjE)
    assume "k = 0" "data' = data" "new = [data]"
    then show ?thesis using new(1) by simp
  next
    assume k: "0 < k" "k < 2 * radius q" "recover_pred q pred k = Some data'" "new = []"
      "\<not> f64_lt (error_bound q) (f64_abs (f64_sub data' data))"
    then have "q' = q" using new(1) by simp
    then show ?thesis
      using k accepted_error [of data data' "error_bound q"] by (simp add: recover_def)
  qed
qed

lemma zero_ops: "f64_abs 0 = 0" "f64_sub 0 0 = 0" "f64_mul 0 lit_1 = 0" "f64_of_int 0 = 0" "f64_add 0 0 = 0"
  "f64_to_int 64 0 = Some 0"
  using finite_cases [OF lit_1_val(1)]
  by (simp_all add: f64_abs_def f64_sub_def f64_add_def f64_mul_def f64_of_int_def f64_to_int_def f64_trunc_def
      zero_facts f64_nan_def f64_is_inf_def inf_mag_def sunits_def units_def lit_1_val Let_def)

lemma quantize_zero:
  "quantize_and_overwrite LinearQuantizer_default 0 0 = Some (32768, 0, LinearQuantizer_default)"
proof -
  have "\<not> f64_lt 0 0" "\<not> f64_lt lit_1 0"
    using zero_facts lit_1_val by (simp_all add: lt_val)
  then show ?thesis
    by (simp add: quantize_and_overwrite_def LinearQuantizer_default_def zero_ops int_expr_def)
qed

lemma default_ok: "quantizer_ok LinearQuantizer_default"
  by (simp add: quantizer_ok_def LinearQuantizer_default_def lit_1_val)

text \<open>Witness of C26: the default quantiser on 0.\<close>

theorem sz3_quantize_recover_witness:
  "32768 = (0 :: int) \<and> 0 = (0 :: double) \<and>
     LinearQuantizer_default = LinearQuantizer_default\<lparr>unpred := unpred LinearQuantizer_default @ [0]\<rparr> \<or>
   0 < (32768 :: int) \<and> 32768 < 2 * radius LinearQuantizer_default \<and>
     LinearQuantizer_default = LinearQuantizer_default \<and>
     recover LinearQuantizer_default 0 32768 = Some (0, LinearQuantizer_default) \<and>
     (f64_finite 0 \<and> f64_finite 0 \<and> f64_finite (error_bound LinearQuantizer_default) \<and>
        \<bar>val 0 - val 0\<bar> \<le> f64_big \<longrightarrow>
      \<bar>val 0 - val 0\<bar> * (1 - 1 / 2 ^ 53) \<le> val (error_bound LinearQuantizer_default) + 1 / 2 / real one_units)"
  by (rule sz3_quantize_recover [OF default_ok quantize_zero])

lemma reciprocal_not_neg: "\<not> neg eb \<Longrightarrow> \<not> neg (f64_div lit_1 eb)"
proof -
  assume "\<not> neg eb"
  moreover have "\<not> neg qnan" "\<not> neg (pack False inf_mag)" "\<not> neg (pack False 0)"
    by (simp_all add: neg_def qnan_def inf_mag_def pack_def)
  ultimately show ?thesis
    using lit_1_val(3) neg_pack [OF round_units_less] by (simp add: f64_div_def Let_def)
qed

text \<open>C27: A series quantised without prediction is restored from the indices and the saved quantiser:
  if no quotient overflows the cast to \<open>int64_t\<close>, saving the quantiser and loading it into any other
  one, then recovering the indices, gives exactly the values that compression left in the data, one per
  input, each equal to the input or accepted by the comparison with the bound; the indices are between
  0 and \<open>2 * r - 1\<close>.\<close>

theorem nopred_roundtrip:
  assumes "LinearQuantizer eb r = Some q" "0 < r" "r < 2 ^ 30" "\<not> neg eb"
    "nopred_compress q data = Some (ks, data', q')" "length data < 2 ^ 60"
    "p + 21 + 8 * length data \<le> length mem"
  shows "\<exists>mem' e q2 q3. quantizer_save q' (mem, p) = Some (mem', e) \<and>
    quantizer_load q0 (drop p mem') (length mem - p) = Some (q2, drop e mem, length mem - p - 1) \<and>
    nopred_decompress q2 ks (length data) = Some (data', q3) \<and>
    list_all2 (\<lambda>x y. y = x \<or> \<not> f64_lt eb (f64_abs (f64_sub y x))) data data' \<and>
    list_all (\<lambda>k. 0 \<le> k \<and> k < 2 * r) ks"
proof -
  have q: "unpred q = []" "error_bound q = eb" "radius q = r" "error_bound_reciprocal q = f64_div lit_1 eb"
    using assms(1) by (auto simp: LinearQuantizer_def split: if_splits)
  then have "quantizer_ok q" using assms reciprocal_not_neg by (simp add: quantizer_ok_def)
  then obtain news where news: "quantized_all q data ks data' news" "q' = q\<lparr>unpred := news\<rparr>"
    using nopred_compress_quantized [OF _ assms(5)] q(1) by auto
  note acc = quantized_all_accepted [OF news(1)]
  have room: "p + length (quantizer_bytes q') \<le> length mem" "13 < length mem - p"
    using acc assms(7) news(2) by (simp_all add: length_quantizer_bytes)
  obtain mem' where save: "quantizer_save q' (mem, p) = Some (mem', p + length (quantizer_bytes q'))"
    "drop p mem' = quantizer_bytes q' @ drop (p + length (quantizer_bytes q')) mem"
    using emits_drop [OF quantizer_save_emits room(1)] by blast
  let ?q2 = "q0\<lparr>error_bound := error_bound q', error_bound_reciprocal := f64_div lit_1 (error_bound q'),
            radius := radius q', unpred := unpred q', index := 0\<rparr>"
  have load: "quantizer_load q0 (drop p mem') (length mem - p) =
      Some (?q2, drop (p + length (quantizer_bytes q')) mem, length mem - p - 1)"
    unfolding save(2) using assms acc news(2) q room by (intro quantizer_load_bytes) simp_all
  have "\<exists>q3. nopred_decompress ?q2 ks (length data) = Some (data', q3)"
    by (rule nopred_decompress_quantized [OF news(1), of _ "[]"]) (simp_all add: news(2))
  then show ?thesis
    using save(1) load acc q assms(2) by blast
qed

lemma reciprocal_one: "f64_finite (f64_div lit_1 lit_1)" "\<not> neg (f64_div lit_1 lit_1)" "\<not> f64_eq lit_1 0"
proof -
  have "near (f64_div lit_1 lit_1) (val lit_1 / val lit_1)"
    by (rule div_near) (simp_all add: lit_1_val f64_big_def)
  then show "f64_finite (f64_div lit_1 lit_1)" by (rule nearD)
  show "\<not> neg (f64_div lit_1 lit_1)" by (rule reciprocal_not_neg [OF lit_1_val(3)])
  have "val lit_1 \<noteq> val 0" by (simp add: lit_1_val zero_facts)
  then show "\<not> f64_eq lit_1 0" by (auto simp: f64_eq_def val_def)
qed

lemma mul_zero: "f64_finite y \<Longrightarrow> \<not> neg y \<Longrightarrow> f64_mul 0 y = 0"
  using finite_cases [of y] finite_cases [of 0]
  by (simp add: f64_mul_def zero_facts units_def)

text \<open>Witness of C27: the series 0 with the bound 1.\<close>

theorem nopred_roundtrip_witness:
  "\<exists>q q' mem' e q2 q3. LinearQuantizer lit_1 4 = Some q \<and> nopred_compress q [0] = Some ([4], [0], q') \<and>
    quantizer_save q' (replicate 50 0, 0) = Some (mem', e) \<and>
    quantizer_load LinearQuantizer_default (drop 0 mem') (length (replicate 50 (0 :: u8)) - 0) =
      Some (q2, drop e (replicate 50 0), length (replicate 50 (0 :: u8)) - 0 - 1) \<and>
    nopred_decompress q2 [4] (length [0 :: double]) = Some ([0], q3) \<and>
    list_all2 (\<lambda>x y. y = x \<or> \<not> f64_lt lit_1 (f64_abs (f64_sub y x))) [0] [0] \<and>
    list_all (\<lambda>k. 0 \<le> k \<and> k < 2 * 4) [4 :: int]"
proof -
  let ?q = "\<lparr>unpred = [], index = 0, error_bound = lit_1, error_bound_reciprocal = f64_div lit_1 lit_1, radius = 4\<rparr>"
  have q: "LinearQuantizer lit_1 4 = Some ?q"
    using reciprocal_one(3) by (simp add: LinearQuantizer_def)
  have "\<not> f64_lt 0 0" "\<not> f64_lt lit_1 0"
    using zero_facts lit_1_val by (simp_all add: lt_val)
  then have c: "nopred_compress ?q [0] = Some ([4], [0], ?q)"
    using mul_zero [OF reciprocal_one(1,2)]
    by (simp add: quantize_and_overwrite_def zero_ops int_expr_def)
  from nopred_roundtrip [OF q _ _ lit_1_val(3) c, of 0 "replicate 50 0" LinearQuantizer_default]
  show ?thesis using q c by auto
qed

end
