(* ===== verification/Sz3_Config.thy ===== *)
theory Sz3_Config
  imports Sz3_Bytes Ieee_Double
begin

text \<open>
  The configuration of SZ3: the class \<open>Config\<close> of \<open>SZ3/utils/Config.hpp\<close> with its serialisation, the
  version numbers of \<open>SZ3/version.hpp\<close>, the error bound modes of \<open>SZ3/utils/Statistic.hpp\<close>, and the
  configuration that the C interface \<open>tools/sz3c/src/sz3c.cpp\<close> builds from its arguments.

  Exceptions, calls of \<open>exit\<close> and undefined behaviour are the left values of a sum.  The functions
  \<open>log10\<close>, \<open>pow\<close> and \<open>sqrt\<close> of the mathematical library are arguments.
\<close>

datatype sz_error = Invalid_argument string | Length_error | Exit string | Undefined

section \<open>Versions\<close>

definition SZ3_MAGIC_NUMBER :: u32 where
  "SZ3_MAGIC_NUMBER = 0xF342F310"

definition SZ3_DATA_VER :: string where
  "SZ3_DATA_VER = ''3.2.0''"

definition is_digit :: "char \<Rightarrow> bool" where
  "is_digit c \<longleftrightarrow> c \<in> set ''0123456789''"

text \<open>\<open>ss >> major\<close> for an unsigned number, \<open>None\<close> when the stream fails.\<close>

definition read_uint :: "string \<Rightarrow> (u32 \<times> string) option" where
  "read_uint s =
     (let ds = takeWhile is_digit s;
          n = foldl (\<lambda>n c. 10 * n + (of_char c - 48)) (0 :: nat) ds
      in if ds = [] \<or> 2 ^ 32 \<le> n then None else Some (of_nat n, dropWhile is_digit s))"

definition versionInt :: "string \<Rightarrow> u32 option" where
  "versionInt version = do {
     (major, s) \<leftarrow> read_uint version;
     (minor, s) \<leftarrow> (case s of [] \<Rightarrow> None | dot # s \<Rightarrow> read_uint s);
     (patch, s) \<leftarrow> (case s of [] \<Rightarrow> None | dot # s \<Rightarrow> read_uint s);
     Some (push_bit 24 major OR push_bit 16 minor OR push_bit 8 patch) }"

fun to_string :: "nat \<Rightarrow> string" where
  "to_string n = (if n < 10 then [char_of (n + 48)] else to_string (n div 10) @ [char_of (n mod 10 + 48)])"

declare to_string.simps [simp del]

definition versionStr :: "u32 \<Rightarrow> string" where
  "versionStr version =
     (let major = drop_bit 24 version AND 0xFF;
          minor = drop_bit 16 version AND 0xFF;
          patch = drop_bit 8 version AND 0xFF
      in to_string (unat major) @ ''.'' @ to_string (unat minor) @ ''.'' @ to_string (unat patch))"

section \<open>The configuration\<close>

datatype EB = EB_ABS | EB_REL | EB_PSNR | EB_L2NORM | EB_ABS_AND_REL | EB_ABS_OR_REL

datatype ALGO = ALGO_LORENZO_REG | ALGO_INTERP_LORENZO | ALGO_INTERP | ALGO_NOPRED

datatype INTERP_ALGO = INTERP_ALGO_LINEAR | INTERP_ALGO_CUBIC

text \<open>The members of type \<open>uint8_t\<close> hold the numbers of the enumerators.\<close>

definition EB_num :: "EB \<Rightarrow> u8" where
  "EB_num e = (case e of EB_ABS \<Rightarrow> 0 | EB_REL \<Rightarrow> 1 | EB_PSNR \<Rightarrow> 2 | EB_L2NORM \<Rightarrow> 3
                 | EB_ABS_AND_REL \<Rightarrow> 4 | EB_ABS_OR_REL \<Rightarrow> 5)"

definition ALGO_num :: "ALGO \<Rightarrow> u8" where
  "ALGO_num a = (case a of ALGO_LORENZO_REG \<Rightarrow> 0 | ALGO_INTERP_LORENZO \<Rightarrow> 1 | ALGO_INTERP \<Rightarrow> 2
                   | ALGO_NOPRED \<Rightarrow> 3)"

definition INTERP_num :: "INTERP_ALGO \<Rightarrow> u8" where
  "INTERP_num i = (case i of INTERP_ALGO_LINEAR \<Rightarrow> 0 | INTERP_ALGO_CUBIC \<Rightarrow> 1)"

record config =
  sz3MagicNumber :: u32
  sz3DataVer :: u32
  N :: "8 word"
  dims :: "u64 list"
  num :: u64
  cmprAlgo :: u8
  errorBoundMode :: u8
  absErrorBound :: double
  relErrorBound :: double
  psnrErrorBound :: double
  l2normErrorBound :: double
  lorenzo :: bool
  lorenzo2 :: bool
  regression :: bool
  regression2 :: bool
  openmp :: bool
  dataType :: u8
  lossless :: u8
  encoder :: u8
  interpAlgo :: u8
  interpDirection :: u8
  interpBlockSize :: int32
  quantbinCnt :: int32
  blockSize :: int32
  stride :: int32
  pred_dim :: int32

text \<open>The default member initialisers; \<open>1e-3\<close> is its pattern.\<close>

definition config_init :: config where
  "config_init =
     \<lparr>sz3MagicNumber = SZ3_MAGIC_NUMBER, sz3DataVer = the (versionInt SZ3_DATA_VER), N = 0, dims = [], num = 0,
      cmprAlgo = ALGO_num ALGO_INTERP_LORENZO, errorBoundMode = EB_num EB_ABS,
      absErrorBound = 0x3F50624DD2F1A9FC, relErrorBound = 0, psnrErrorBound = 0, l2normErrorBound = 0,
      lorenzo = True, lorenzo2 = False, regression = True, regression2 = False, openmp = False,
      dataType = 0, lossless = 1, encoder = 1, interpAlgo = INTERP_num INTERP_ALGO_CUBIC, interpDirection = 0,
      interpBlockSize = 32, quantbinCnt = 65536, blockSize = 0, stride = 0, pred_dim = 0\<rparr>"

definition setDims :: "u64 list \<Rightarrow> config \<Rightarrow> config \<times> u64" where
  "setDims args conf =
     (let ds = filter (\<lambda>dim. 1 < dim) args;
          ds = (if ds = [] then [1] else ds);
          n = of_nat (length ds) :: 8 word;
          total = foldl (*) 1 ds;
          bs = (if n = 1 then 128 else if n = 2 then 16 else 6)
      in (conf\<lparr>dims := ds, N := n, num := total, pred_dim := scast n, blockSize := bs, stride := bs\<rparr>, total))"

definition Config :: "u64 list \<Rightarrow> config" where
  "Config args = fst (setDims args (config_init\<lparr>dims := args\<rparr>))"

text \<open>\<open>sizeof(Config)\<close> is 120 on x86-64.\<close>

definition config_size_est :: nat where
  "config_size_est = 120 + 8 * 5 + 32"

definition write_bool :: "bool \<Rightarrow> out_pos \<Rightarrow> out_pos option" where
  "write_bool b = write_var (of_bool b :: u8)"

definition config_write :: "config \<Rightarrow> out_pos \<Rightarrow> out_pos option" where
  "config_write conf c = do {
     c \<leftarrow> write_var (sz3MagicNumber conf) c;
     c \<leftarrow> write_var (sz3DataVer conf) c;
     c \<leftarrow> write_var (N conf) c;
     c \<leftarrow> write_array (dims conf) c;
     c \<leftarrow> write_var (num conf) c;
     c \<leftarrow> write_var (cmprAlgo conf) c;
     c \<leftarrow> write_var (errorBoundMode conf) c;
     c \<leftarrow> write_var (absErrorBound conf) c;
     c \<leftarrow> write_var (relErrorBound conf) c;
     c \<leftarrow> write_bool (lorenzo conf) c;
     c \<leftarrow> write_bool (lorenzo2 conf) c;
     c \<leftarrow> write_bool (regression conf) c;
     c \<leftarrow> write_bool (regression2 conf) c;
     c \<leftarrow> write_var (interpAlgo conf) c;
     c \<leftarrow> write_var (interpDirection conf) c;
     c \<leftarrow> write_var (interpBlockSize conf) c;
     c \<leftarrow> write_var (lossless conf) c;
     c \<leftarrow> write_var (encoder conf) c;
     c \<leftarrow> write_var (quantbinCnt conf) c;
     c \<leftarrow> write_var (blockSize conf) c;
     c \<leftarrow> write_var (stride conf) c;
     c \<leftarrow> write_var (pred_dim conf) c;
     c \<leftarrow> write_bool (openmp conf) c;
     write_var (dataType conf) c }"

definition config_save :: "config \<Rightarrow> out_pos \<Rightarrow> sz_error + out_pos" where
  "config_save conf c0 =
     (case config_write conf c0 of
        None \<Rightarrow> Inl Undefined
      | Some c \<Rightarrow>
          if config_size_est < snd c - snd c0
          then Inl (Invalid_argument ''Config saved size is larger than estimated size'')
          else Inr (fst c, snd c0 + config_size_est))"

text \<open>A byte that is neither 0 nor 1 is no value of type \<open>bool\<close>.\<close>

definition read_bool :: "u8 list \<Rightarrow> (bool \<times> u8 list) option" where
  "read_bool c = do {
     (b :: u8, c) \<leftarrow> read_var c;
     if b = 0 then Some (False, c) else if b = 1 then Some (True, c) else None }"

definition config_read :: "config \<Rightarrow> u8 list \<Rightarrow> (config \<times> u8 list) option" where
  "config_read conf c = do {
     (v, c) \<leftarrow> read_elems (unat (N conf)) c; let conf = conf\<lparr>dims := v\<rparr>;
     (v, c) \<leftarrow> read_var c; let conf = conf\<lparr>num := v\<rparr>;
     (v, c) \<leftarrow> read_var c; let conf = conf\<lparr>cmprAlgo := v\<rparr>;
     (v, c) \<leftarrow> read_var c; let conf = conf\<lparr>errorBoundMode := v\<rparr>;
     (v, c) \<leftarrow> read_var c; let conf = conf\<lparr>absErrorBound := v\<rparr>;
     (v, c) \<leftarrow> read_var c; let conf = conf\<lparr>relErrorBound := v\<rparr>;
     (v, c) \<leftarrow> read_bool c; let conf = conf\<lparr>lorenzo := v\<rparr>;
     (v, c) \<leftarrow> read_bool c; let conf = conf\<lparr>lorenzo2 := v\<rparr>;
     (v, c) \<leftarrow> read_bool c; let conf = conf\<lparr>regression := v\<rparr>;
     (v, c) \<leftarrow> read_bool c; let conf = conf\<lparr>regression2 := v\<rparr>;
     (v, c) \<leftarrow> read_var c; let conf = conf\<lparr>interpAlgo := v\<rparr>;
     (v, c) \<leftarrow> read_var c; let conf = conf\<lparr>interpDirection := v\<rparr>;
     (v, c) \<leftarrow> read_var c; let conf = conf\<lparr>interpBlockSize := v\<rparr>;
     (v, c) \<leftarrow> read_var c; let conf = conf\<lparr>lossless := v\<rparr>;
     (v, c) \<leftarrow> read_var c; let conf = conf\<lparr>encoder := v\<rparr>;
     (v, c) \<leftarrow> read_var c; let conf = conf\<lparr>quantbinCnt := v\<rparr>;
     (v, c) \<leftarrow> read_var c; let conf = conf\<lparr>blockSize := v\<rparr>;
     (v, c) \<leftarrow> read_var c; let conf = conf\<lparr>stride := v\<rparr>;
     (v, c) \<leftarrow> read_var c; let conf = conf\<lparr>pred_dim := v\<rparr>;
     (v, c) \<leftarrow> read_bool c; let conf = conf\<lparr>openmp := v\<rparr>;
     (v, c) \<leftarrow> read_var c; let conf = conf\<lparr>dataType := v\<rparr>;
     Some (conf, c) }"

text \<open>\<open>dims.resize(N)\<close> converts a negative \<open>char\<close> to a length no vector can have.\<close>

definition config_load :: "config \<Rightarrow> u8 list \<Rightarrow> sz_error + config \<times> u8 list" where
  "config_load conf c0 =
     (case do {
        (magic, c) \<leftarrow> read_var c0;
        (ver, c) \<leftarrow> read_var c;
        (n, c) \<leftarrow> read_var c;
        Some (conf\<lparr>sz3MagicNumber := magic, sz3DataVer := ver, N := n\<rparr>, c) } of
        None \<Rightarrow> Inl Undefined
      | Some (conf, c) \<Rightarrow>
          if sint (N conf) < 0 then Inl Length_error
          else
            (case config_read conf c of
               None \<Rightarrow> Inl Undefined
             | Some (conf, c) \<Rightarrow>
                 if config_size_est < length c0 - length c
                 then Inl (Invalid_argument ''Config loaded size is larger than estimated size'')
                 else Inr (conf, drop config_size_est c0)))"

section \<open>Error bounds\<close>

fun data_range_loop :: "double \<Rightarrow> double \<Rightarrow> double list \<Rightarrow> double \<times> double" where
  "data_range_loop mx mn [] = (mx, mn)"
| "data_range_loop mx mn (x # data) =
     data_range_loop (if f64_lt mx x then x else mx) (if f64_lt x mn then x else mn) data"

definition data_range :: "double list \<Rightarrow> double option" where
  "data_range data =
     (case data of
        [] \<Rightarrow> None
      | x # data \<Rightarrow> let (mx, mn) = data_range_loop x x data in Some (f64_sub mx mn))"

definition lit_2_3 :: double where
  "lit_2_3 = f64_div lit_2 (f64_of_int 3)"

definition computeABSErrBoundFromPSNR ::
  "(double \<Rightarrow> double) \<Rightarrow> (double \<Rightarrow> double \<Rightarrow> double) \<Rightarrow> double \<Rightarrow> double \<Rightarrow> double \<Rightarrow> double" where
  "computeABSErrBoundFromPSNR log10 pow psnr threshold value_range =
     (let v1 = f64_add psnr (f64_mul (f64_of_int 10) (log10 (f64_sub (f64_of_int 1) (f64_mul lit_2_3 threshold))));
          v2 = f64_div v1 (f64_of_int (- 20));
          v3 = pow (f64_of_int 10) v2
      in f64_mul value_range v3)"

definition std_min :: "double \<Rightarrow> double \<Rightarrow> double" where
  "std_min a b = (if f64_lt b a then b else a)"

definition std_max :: "double \<Rightarrow> double \<Rightarrow> double" where
  "std_max a b = (if f64_lt a b then b else a)"

text \<open>The range, when needed, is the argument if positive and otherwise that of the data; \<open>0.99\<close> is its
  pattern.\<close>

definition calAbsErrorBound :: "libm \<Rightarrow> config \<Rightarrow> double list \<Rightarrow> double \<Rightarrow> sz_error + config" where
  "calAbsErrorBound m conf data rng =
     (let with_range = (\<lambda>f. case (if f64_lt 0 rng then Some rng else data_range data) of
                              None \<Rightarrow> Inl Undefined
                            | Some r \<Rightarrow> Inr (conf\<lparr>errorBoundMode := EB_num EB_ABS, absErrorBound := f r\<rparr>))
      in if errorBoundMode conf = EB_num EB_ABS then Inr conf
         else if errorBoundMode conf = EB_num EB_REL
         then with_range (\<lambda>r. f64_mul (relErrorBound conf) r)
         else if errorBoundMode conf = EB_num EB_PSNR
         then with_range (\<lambda>r. computeABSErrBoundFromPSNR (m_log10 m) (m_pow m) (psnrErrorBound conf)
                                0x3FEFAE147AE147AE r)
         else if errorBoundMode conf = EB_num EB_L2NORM
         then Inr (conf\<lparr>errorBoundMode := EB_num EB_ABS,
                        absErrorBound := f64_mul (m_sqrt m (f64_div (f64_of_int 3) (f64_of_int (uint (num conf)))))
                                           (l2normErrorBound conf)\<rparr>)
         else if errorBoundMode conf = EB_num EB_ABS_AND_REL
         then with_range (\<lambda>r. std_min (absErrorBound conf) (f64_mul (relErrorBound conf) r))
         else if errorBoundMode conf = EB_num EB_ABS_OR_REL
         then with_range (\<lambda>r. std_max (absErrorBound conf) (f64_mul (relErrorBound conf) r))
         else Inl (Exit ''Error, error bound mode not supported''))"

section \<open>The C interface\<close>

definition sz3c_config ::
  "int \<Rightarrow> double \<Rightarrow> double \<Rightarrow> u64 \<Rightarrow> u64 \<Rightarrow> u64 \<Rightarrow> u64 \<Rightarrow> u64 \<Rightarrow> sz_error + config" where
  "sz3c_config errBoundMode absErrBound relBoundRatio r5 r4 r3 r2 r1 =
     (let conf = (if r2 = 0 then Config [r1]
                  else if r3 = 0 then Config [r2, r1]
                  else if r4 = 0 then Config [r3, r2, r1]
                  else if r5 = 0 then Config [r4, r3, r2, r1]
                  else Config [r5 * r4, r3, r2, r1]);
          conf = conf\<lparr>absErrorBound := absErrBound, relErrorBound := relBoundRatio\<rparr>
      in if errBoundMode = 0 then Inr (conf\<lparr>errorBoundMode := EB_num EB_ABS\<rparr>)
         else if errBoundMode = 1 then Inr (conf\<lparr>errorBoundMode := EB_num EB_REL\<rparr>)
         else if errBoundMode = 2 then Inr (conf\<lparr>errorBoundMode := EB_num EB_ABS_AND_REL\<rparr>)
         else if errBoundMode = 3 then Inr (conf\<lparr>errorBoundMode := EB_num EB_ABS_OR_REL\<rparr>)
         else Inl (Exit ''errBoundMode not support''))"

definition sz3c_count :: "u64 \<Rightarrow> u64 \<Rightarrow> u64 \<Rightarrow> u64 \<Rightarrow> u64 \<Rightarrow> u64" where
  "sz3c_count r5 r4 r3 r2 r1 =
     (if r2 = 0 then r1
      else if r3 = 0 then r1 * r2
      else if r4 = 0 then r1 * r2 * r3
      else if r5 = 0 then r1 * r2 * r3 * r4
      else r1 * r2 * r3 * r4 * r5)"

section \<open>Serialisation\<close>

definition bool_bytes :: "bool \<Rightarrow> u8 list" where
  "bool_bytes b = [of_bool b]"

definition config_bytes :: "config \<Rightarrow> u8 list" where
  "config_bytes conf =
     le_bytes 4 (sz3MagicNumber conf) @ le_bytes 4 (sz3DataVer conf) @ [N conf] @
     array_bytes 8 (dims conf) @ le_bytes 8 (num conf) @
     [cmprAlgo conf] @ [errorBoundMode conf] @
     le_bytes 8 (absErrorBound conf) @ le_bytes 8 (relErrorBound conf) @
     bool_bytes (lorenzo conf) @ bool_bytes (lorenzo2 conf) @
     bool_bytes (regression conf) @ bool_bytes (regression2 conf) @
     [interpAlgo conf] @ [interpDirection conf] @ le_bytes 4 (interpBlockSize conf) @
     [lossless conf] @ [encoder conf] @ le_bytes 4 (quantbinCnt conf) @
     le_bytes 4 (blockSize conf) @ le_bytes 4 (stride conf) @ le_bytes 4 (pred_dim conf) @
     bool_bytes (openmp conf) @ [dataType conf]"

lemma length_bool_bytes [simp]: "length (bool_bytes b) = 1"
  by (simp add: bool_bytes_def)

lemma length_config_bytes: "length (config_bytes conf) = 65 + 8 * length (dims conf)"
  by (simp add: config_bytes_def)

lemma le_bytes_1: "le_bytes 1 (a :: u8) = [a]"
  by (simp add: le_bytes_def)

lemma emits_words:
  "emits (write_var (a :: u8)) [a]" "emits (write_var (b :: u32)) (le_bytes 4 b)"
  "emits (write_var (d :: u64)) (le_bytes 8 d)" "emits (write_array (e :: u64 list)) (array_bytes 8 e)"
  "emits (write_bool f) (bool_bytes f)"
  using emits_var [of a] emits_var [of b] emits_var [of d] emits_array [of e] emits_var [of "of_bool f :: u8"]
  by (simp_all add: write_bool_def bool_bytes_def flip: le_bytes_1)

lemma config_write_emits: "emits (config_write conf) (config_bytes conf)"
  unfolding config_write_def [abs_def] config_bytes_def
  by (intro emits_bind emits_words)

lemma read_words:
  "read_var ((a :: u8) # c) = Some (a, c)" "read_var (le_bytes 4 (b :: u32) @ c) = Some (b, c)"
  "read_var (le_bytes 8 (d :: u64) @ c) = Some (d, c)"
  "length e = n \<Longrightarrow> read_elems n (array_bytes 8 (e :: u64 list) @ c) = Some (e, c)"
  using read_var_write [of a c] read_var_write [of b c] read_var_write [of d c] read_elems_write [of n e c]
  by (simp_all add: le_bytes_1 [simplified])

lemma read_bool_bytes: "read_bool (bool_bytes f @ c) = Some (f, c)"
  by (simp add: read_bool_def bool_bytes_def read_words)

lemma config_load_bytes:
  assumes "length (dims conf) \<le> 15" "N conf = of_nat (length (dims conf))"
  shows "config_load conf0 (config_bytes conf @ rest) =
    Inr (conf\<lparr>psnrErrorBound := psnrErrorBound conf0, l2normErrorBound := l2normErrorBound conf0\<rparr>,
         drop config_size_est (config_bytes conf @ rest))"
proof -
  let ?n = "length (dims conf)"
  have u: "unat (N conf) = ?n"
    using assms by (simp add: unat_of_nat take_bit_nat_eq_self)
  have s: "sint (of_nat ?n :: 8 word) = int ?n"
    using assms(1) by transfer (simp add: signed_take_bit_int_eq_self)
  have len: "\<not> config_size_est < length (config_bytes conf @ rest) - length rest"
    using assms(1) by (simp add: length_config_bytes config_size_est_def)
  have "do {
        (magic, c) \<leftarrow> read_var (config_bytes conf @ rest);
        (ver, c) \<leftarrow> read_var c;
        (n, c) \<leftarrow> read_var c;
        Some (conf0\<lparr>sz3MagicNumber := magic, sz3DataVer := ver, N := n\<rparr>, c) } =
     Some (conf0\<lparr>sz3MagicNumber := sz3MagicNumber conf, sz3DataVer := sz3DataVer conf, N := N conf\<rparr>,
       drop 9 (config_bytes conf @ rest))"
    by (simp add: config_bytes_def read_words)
  moreover have "config_read (conf0\<lparr>sz3MagicNumber := sz3MagicNumber conf, sz3DataVer := sz3DataVer conf, N := N conf\<rparr>)
       (drop 9 (config_bytes conf @ rest)) =
     Some (conf\<lparr>psnrErrorBound := psnrErrorBound conf0, l2normErrorBound := l2normErrorBound conf0\<rparr>, rest)"
    by (simp add: config_read_def config_bytes_def read_words read_bool_bytes u Let_def)
  ultimately show ?thesis
    using len by (simp add: config_load_def assms(2) s)
qed

lemma config_saved:
  assumes "length (dims conf) \<le> 15" "p + config_size_est \<le> length mem"
  obtains mem' where "config_save conf (mem, p) = Inr (mem', p + config_size_est)"
    "drop p mem' = config_bytes conf @ drop (p + length (config_bytes conf)) mem"
    "drop (p + config_size_est) mem' = drop (p + config_size_est) mem" "length mem' = length mem"
proof -
  have len: "length (config_bytes conf) \<le> config_size_est"
    using assms(1) by (simp add: length_config_bytes config_size_est_def)
  let ?mem = "mem_write mem p (config_bytes conf)"
  have fits: "p + length (config_bytes conf) \<le> length mem" using len assms(2) by simp
  have "config_write conf (mem, p) = Some (?mem, p + length (config_bytes conf))"
    using fits by (intro emitsD [OF config_write_emits])
  then have "config_save conf (mem, p) = Inr (?mem, p + config_size_est)"
    using len by (simp add: config_save_def)
  moreover note d = drop_mem_write [OF fits]
  moreover have "drop (p + config_size_est) ?mem = drop config_size_est (drop p ?mem)" by (simp add: add.commute)
  then have "drop (p + config_size_est) ?mem = drop (p + config_size_est) mem"
    unfolding d using len by (simp add: add.commute)
  ultimately show thesis using that [of ?mem] fits by simp
qed

section \<open>Dimensions and ranges\<close>

lemma foldl_times: "foldl (*) (a :: u64) ds = a * prod_list ds"
  by (induction ds arbitrary: a) (simp_all add: mult.assoc)

lemma prod_list_filter: "0 \<notin> set ds \<Longrightarrow> prod_list (filter (\<lambda>dim. 1 < dim) ds) = (prod_list ds :: u64)"
proof (induction ds)
  case (Cons d ds)
  have "d = 1" if "\<not> 1 < d" "d \<noteq> 0"
  proof -
    have "unat d \<noteq> 0" using that(2) by (simp add: unat_eq_0)
    moreover have "\<not> 1 < unat d" using that(1) by (simp add: word_less_nat_alt)
    ultimately have "unat d = unat (1 :: u64)" by simp
    then show ?thesis by (simp only: word_unat_eq_iff)
  qed
  then show ?case using Cons by auto
qed simp

lemma Config_fields:
  "dims (Config args) = (if filter (\<lambda>dim. 1 < dim) args = [] then [1] else filter (\<lambda>dim. 1 < dim) args)"
  "N (Config args) = of_nat (length (dims (Config args)))"
  "num (Config args) = prod_list (dims (Config args))"
  by (simp_all add: Config_def setDims_def Let_def foldl_times)

lemma Config_num: "0 \<notin> set args \<Longrightarrow> num (Config args) = prod_list args"
  using prod_list_filter [of args] by (auto simp: Config_fields)

lemma Config_dims_length: "args \<noteq> [] \<Longrightarrow> length (dims (Config args)) \<le> length args"
  by (simp add: Config_fields Suc_le_eq)

text \<open>The loop of \<open>data_range\<close> finds the extreme values.\<close>

lemma data_range_loop_spec:
  assumes "data_range_loop mx mn data = (a, b)" "\<forall>x \<in> set data \<union> {mx, mn}. f64_finite x"
  shows "a \<in> set data \<union> {mx} \<and> b \<in> set data \<union> {mn} \<and> (\<forall>x \<in> set data \<union> {mx}. val x \<le> val a) \<and>
    (\<forall>x \<in> set data \<union> {mn}. val b \<le> val x)"
  using assms
proof (induction data arbitrary: mx mn)
  case (Cons y data)
  let ?mx = "if f64_lt mx y then y else mx" and ?mn = "if f64_lt y mn then y else mn"
  have fin: "f64_finite mx" "f64_finite mn" "f64_finite y" using Cons.prems(2) by auto
  have "a \<in> set data \<union> {?mx} \<and> b \<in> set data \<union> {?mn} \<and> (\<forall>x \<in> set data \<union> {?mx}. val x \<le> val a) \<and>
    (\<forall>x \<in> set data \<union> {?mn}. val b \<le> val x)"
    using Cons.prems by (intro Cons.IH) auto
  then show ?case using fin by (auto simp: lt_val split: if_splits)
qed auto

section \<open>Properties\<close>

text \<open>C28: A configuration with at most 15 dimensions is saved in exactly \<open>size_est()\<close> bytes, and loading
  them into any configuration object gives it back, except for the two bounds \<open>psnrErrorBound\<close> and
  \<open>l2normErrorBound\<close>, which are not written and keep the value they had.\<close>

theorem config_save_load:
  assumes "length (dims conf) \<le> 15" "N conf = of_nat (length (dims conf))" "p + config_size_est \<le> length mem"
  shows "\<exists>mem'. config_save conf (mem, p) = Inr (mem', p + config_size_est) \<and>
    config_load conf0 (drop p mem') =
      Inr (conf\<lparr>psnrErrorBound := psnrErrorBound conf0, l2normErrorBound := l2normErrorBound conf0\<rparr>,
           drop (p + config_size_est) mem)"
proof -
  obtain mem' where w: "config_save conf (mem, p) = Inr (mem', p + config_size_est)"
    "drop p mem' = config_bytes conf @ drop (p + length (config_bytes conf)) mem"
    "drop (p + config_size_est) mem' = drop (p + config_size_est) mem"
    by (rule config_saved [OF assms(1,3)]) (rule that, assumption+)
  moreover have "drop config_size_est (drop p mem') = drop (p + config_size_est) mem"
    using w(3) by (simp add: add.commute)
  ultimately show ?thesis
    using config_load_bytes [OF assms(1,2), of conf0 "drop (p + length (config_bytes conf)) mem"] w(2) by simp
qed

text \<open>Witness of C28: a vector of 1000 values.\<close>

theorem config_save_load_witness:
  "\<exists>mem'. config_save (Config [1000]) (replicate 200 7, 5) = Inr (mem', 5 + config_size_est) \<and>
    config_load config_init (drop 5 mem') =
      Inr ((Config [1000])\<lparr>psnrErrorBound := psnrErrorBound config_init,
             l2normErrorBound := l2normErrorBound config_init\<rparr>,
           drop (5 + config_size_est) (replicate 200 7))"
  by (rule config_save_load) (simp_all add: Config_fields config_size_est_def)

text \<open>With 16 dimensions or more the reserved size is exceeded: \<open>save\<close> throws, after it has written
  the whole record.\<close>

theorem config_save_too_many_dims:
  assumes "p + 65 + 8 * length (dims conf) \<le> length mem"
  shows "config_save conf (mem, p) = Inl (Invalid_argument ''Config saved size is larger than estimated size'') \<longleftrightarrow>
    15 < length (dims conf)"
proof -
  have "config_write conf (mem, p) = Some (mem_write mem p (config_bytes conf), p + length (config_bytes conf))"
    using assms by (intro emitsD [OF config_write_emits]) (simp add: length_config_bytes)
  then show ?thesis
    by (auto simp: config_save_def length_config_bytes config_size_est_def)
qed

text \<open>An instance: 16 dimensions of size 2.\<close>

theorem config_save_too_many_dims_witness:
  "config_save (Config (replicate 16 2)) (replicate 200 0, 0) =
     Inl (Invalid_argument ''Config saved size is larger than estimated size'') \<longleftrightarrow>
   15 < length (dims (Config (replicate 16 2)))"
  by (rule config_save_too_many_dims) (simp add: Config_fields)

text \<open>C29: The C interface: for sizes that are not 0 (the product \<open>r5 * r4\<close> taken modulo \<open>2 ^ 64\<close>), the
  number of values that compression handles is the number of values for which decompression allocates
  memory, modulo \<open>2 ^ 64\<close>; the configuration has between 1 and 4 dimensions, recorded in \<open>N\<close>.\<close>

theorem sz3c_same_count:
  assumes "sz3c_config mode abs_bound rel r5 r4 r3 r2 r1 = Inr conf" "r1 \<noteq> 0" "r5 * r4 \<noteq> 0 \<or> r5 = 0 \<or> r4 = 0"
  shows "num conf = sz3c_count r5 r4 r3 r2 r1 \<and> 1 \<le> length (dims conf) \<and> length (dims conf) \<le> 4 \<and>
    N conf = of_nat (length (dims conf))"
proof -
  define args where "args = (if r2 = 0 then [r1] else if r3 = 0 then [r2, r1] else if r4 = 0 then [r3, r2, r1]
    else if r5 = 0 then [r4, r3, r2, r1] else [r5 * r4, r3, r2, r1])"
  have c: "num conf = num (Config args)" "dims conf = dims (Config args)" "N conf = N (Config args)"
    using assms(1) by (auto simp: sz3c_config_def args_def Let_def split: if_splits)
  have "0 \<notin> set args" using assms(2,3) by (auto simp: args_def)
  then have "num conf = prod_list args" using c(1) Config_num by simp
  also have "\<dots> = sz3c_count r5 r4 r3 r2 r1"
    by (simp add: args_def sz3c_count_def ac_simps)
  finally have n: "num conf = sz3c_count r5 r4 r3 r2 r1" .
  have "args \<noteq> []" "length args \<le> 4" by (simp_all add: args_def)
  then have "length (dims conf) \<le> 4" using Config_dims_length [of args] c(2) by simp
  moreover have "1 \<le> length (dims conf)" by (simp add: c(2) Config_fields Suc_le_eq)
  ultimately show ?thesis using n c by (simp add: Config_fields(2))
qed

text \<open>Witness of C29: a matrix of 3 by 1000.\<close>

theorem sz3c_same_count_witness:
  "\<exists>conf. sz3c_config 1 0 0 0 0 0 3 1000 = Inr conf \<and> num conf = sz3c_count 0 0 0 3 1000 \<and>
    1 \<le> length (dims conf) \<and> length (dims conf) \<le> 4 \<and> N conf = of_nat (length (dims conf))"
proof -
  obtain conf where c: "sz3c_config 1 0 0 0 0 0 3 1000 = Inr conf"
    by (simp add: sz3c_config_def Let_def)
  show ?thesis using c sz3c_same_count [OF c] by simp
qed

text \<open>A size of 0 is dropped like a size of 1: for an empty vector the configuration counts one
  value, which compression reads, while decompression allocates none.\<close>

theorem sz3c_empty:
  "\<exists>conf. sz3c_config 0 abs_bound rel 0 0 0 0 0 = Inr conf \<and> num conf = 1 \<and> sz3c_count 0 0 0 0 0 = 0"
  by (simp add: sz3c_config_def sz3c_count_def Config_fields Let_def)

text \<open>Computing the absolute bound is idempotent, for any mode, data, range and mathematical library:
  a configuration that went through \<open>calAbsErrorBound\<close> is in mode \<open>EB_ABS\<close>, and a second call, as the
  dispatcher and the algorithms make it, leaves it alone.\<close>

theorem calAbsErrorBound_idempotent:
  assumes "calAbsErrorBound m conf data rng = Inr conf'"
  shows "errorBoundMode conf' = EB_num EB_ABS \<and> calAbsErrorBound m' conf' data' rng' = Inr conf' \<and>
    num conf' = num conf \<and> dims conf' = dims conf"
proof -
  have "errorBoundMode conf' = EB_num EB_ABS \<and> num conf' = num conf \<and> dims conf' = dims conf"
    using assms by (auto simp: calAbsErrorBound_def Let_def split: if_splits option.splits)
  then show ?thesis by (simp add: calAbsErrorBound_def)
qed

text \<open>An instance: relative mode on two values.\<close>

theorem calAbsErrorBound_idempotent_witness:
  "\<exists>conf'. calAbsErrorBound \<lparr>m_log10 = id, m_pow = f64_add, m_sqrt = id\<rparr> ((Config [2])\<lparr>errorBoundMode := EB_num EB_REL\<rparr>)
      [0, lit_1] 0 = Inr conf' \<and>
    errorBoundMode conf' = EB_num EB_ABS"
proof -
  obtain conf' where c: "calAbsErrorBound \<lparr>m_log10 = id, m_pow = f64_add, m_sqrt = id\<rparr> ((Config [2])\<lparr>errorBoundMode := EB_num EB_REL\<rparr>) [0, lit_1] 0 = Inr conf'"
    by (simp add: calAbsErrorBound_def EB_num_def data_range_def f64_lt_def Let_def split: prod.split)
  show ?thesis using c calAbsErrorBound_idempotent [OF c] by simp
qed

text \<open>\<open>data_range\<close> returns, for finite data, the rounded difference of its greatest and least values.\<close>

theorem data_range_extremes:
  assumes "data \<noteq> []" "\<forall>x \<in> set data. f64_finite x"
  shows "\<exists>mx mn. data_range data = Some (f64_sub mx mn) \<and> mx \<in> set data \<and> mn \<in> set data \<and>
    (\<forall>x \<in> set data. val mn \<le> val x \<and> val x \<le> val mx)"
proof -
  obtain x xs where d: "data = x # xs" using assms(1) by (cases data) auto
  obtain a b where l: "data_range_loop x x xs = (a, b)" by fastforce
  from data_range_loop_spec [OF l] assms(2) d show ?thesis
    by (intro exI [of _ a] exI [of _ b]) (auto simp: data_range_def l)
qed

text \<open>An instance: the values 0, 1 and 0.\<close>

theorem data_range_extremes_witness:
  "\<exists>mx mn. data_range [0, lit_1, 0] = Some (f64_sub mx mn) \<and> mx \<in> set [0, lit_1, 0] \<and> mn \<in> set [0, lit_1, 0] \<and>
    (\<forall>x \<in> set [0, lit_1, 0]. val mn \<le> val x \<and> val x \<le> val mx)"
  by (rule data_range_extremes) (simp_all add: zero_facts lit_1_val)

end
