(* ===== verification/Sz3_Huffman.thy ===== *)
theory Sz3_Huffman
  imports Sz3_Bytes Huffman_Tree
begin

text \<open>
  The Huffman encoder of SZ3, \<open>SZ3/encoder/HuffmanEncoder.hpp\<close>, on vectors of \<open>int\<close>: the priority queue,
  the tree, the codes, their packing into bytes, the serialised tree, and decoding.

  A pointer \<open>node\<close> is \<open>Null\<close> or the structure it points to.  The queue \<open>qq[1 .. qend - 1]\<close> is the list of
  its elements.  Three things the language leaves open are arguments: \<open>ord\<close>, the iteration order of the
  hash map; \<open>rl\<close>, whether the arguments \<open>qremove(), qremove()\<close> are evaluated from right to left; and
  \<open>undef\<close>, the result of a shift by 64 or more.  \<open>None\<close> is an access outside an array, a null pointer, a
  signed overflow, or the use of an uninitialised variable.
\<close>

section \<open>The tree and the queue\<close>

datatype node = Null | node_t (left: node) (right: node) (freq: nat) (t: u8) (c: int32)

record HuffmanTree =
  stateNum :: nat
  allNodes :: nat
  n_nodes :: nat
  qq :: "node list"
  code :: "(u64 \<times> u64) option list"
  cout :: "u8 list"
  n_inode :: nat

definition createHuffmanTree :: "nat \<Rightarrow> HuffmanTree" where
  "createHuffmanTree n =
     \<lparr>stateNum = n, allNodes = 2 * n, n_nodes = 0, qq = [], code = replicate n None, cout = replicate n 0,
      n_inode = 0\<rparr>"

definition new_node :: "nat \<Rightarrow> int32 \<Rightarrow> node \<Rightarrow> node \<Rightarrow> HuffmanTree \<Rightarrow> (node \<times> HuffmanTree) option" where
  "new_node f x a b h =
     (if n_nodes h < 2 * allNodes h
      then let h' = h\<lparr>n_nodes := n_nodes h + 1\<rparr>
           in if f \<noteq> 0 then Some (node_t Null Null f 1 x, h')
              else if a = Null \<or> b = Null then None
              else Some (node_t a b ((freq a + freq b) mod 2 ^ 64) 0 0, h')
      else None)"

definition new_node2 :: "int32 \<Rightarrow> u8 \<Rightarrow> HuffmanTree \<Rightarrow> (node \<times> HuffmanTree) option" where
  "new_node2 x ty h =
     (if n_nodes h < 2 * allNodes h then Some (node_t Null Null 0 ty x, h\<lparr>n_nodes := n_nodes h + 1\<rparr>) else None)"

text \<open>Positions count from 1, as in \<open>qq = qqq - 1\<close>.\<close>

fun qinsert_loop :: "node list \<Rightarrow> node \<Rightarrow> nat \<Rightarrow> node list" where
  "qinsert_loop q n i =
     (let j = i div 2
      in if j = 0 then q[i - 1 := n]
         else if freq (q ! (j - 1)) \<le> freq n then q[i - 1 := n]
         else qinsert_loop (q[i - 1 := q ! (j - 1)]) n j)"

declare qinsert_loop.simps [simp del]

definition qinsert :: "node \<Rightarrow> node list \<Rightarrow> node list" where
  "qinsert n q = qinsert_loop (q @ [n]) n (length q + 1)"

function qremove_loop :: "node list \<Rightarrow> nat \<Rightarrow> node list" where
  "qremove_loop q i =
     (let l = 2 * i; qend = length q + 1
      in if i = 0 \<or> \<not> l < qend then q
         else let l = (if l + 1 < qend \<and> freq (q ! l) < freq (q ! (l - 1)) then l + 1 else l)
              in if freq (q ! (l - 1)) < freq (q ! (i - 1))
                 then qremove_loop (q[i - 1 := q ! (l - 1), l - 1 := q ! (i - 1)]) l
                 else q)"
  by pat_completeness auto
termination
  by (relation "measure (\<lambda>(q, i). 2 * length q + 2 - i)") (auto simp: Let_def split: if_splits)

declare qremove_loop.simps [simp del]

definition qremove :: "node list \<Rightarrow> node \<times> node list" where
  "qremove q =
     (if q = [] then (Null, q)
      else let n = q ! 0; last_n = last q; q = butlast q
           in (n, if q = [] then q else qremove_loop (q[0 := last_n]) 1))"

section \<open>Codes\<close>

definition shl64 :: "u64 \<Rightarrow> u64 \<Rightarrow> nat \<Rightarrow> u64" where
  "shl64 undef x n = (if n < 64 then push_bit n x else undef)"

type_synonym code_table = "(u64 \<times> u64) option list \<times> u8 list"

fun build_code :: "u64 \<Rightarrow> node \<Rightarrow> nat \<Rightarrow> u64 \<Rightarrow> u64 \<Rightarrow> code_table \<Rightarrow> code_table option" where
  "build_code undef Null len out1 out2 tab = None"
| "build_code undef (node_t l r f ty x) len out1 out2 tab =
     (if ty \<noteq> 0
      then if unat x < length (fst tab) \<and> unat x < length (snd tab)
           then let w = (if len \<le> 64 then (shl64 undef out1 (64 - len), out2)
                         else (out1, if len \<le> 128 then shl64 undef out2 (128 - len) else undef))
                in Some ((fst tab)[unat x := Some w], (snd tab)[unat x := of_nat len])
           else None
      else if len div 64 = 0
      then do {
        let out1 = push_bit 1 out1;
        tab \<leftarrow> build_code undef l (len + 1) out1 0 tab;
        let out1 = out1 OR 1;
        build_code undef r (len + 1) out1 0 tab }
      else do {
        let out2 = (if len mod 64 \<noteq> 0 then push_bit 1 out2 else out2);
        tab \<leftarrow> build_code undef l (len + 1) out1 out2 tab;
        let out2 = out2 OR 1;
        build_code undef r (len + 1) out1 out2 tab })"

section \<open>Building the tree from the data\<close>

definition key_bounds :: "int32 \<Rightarrow> int32 list \<Rightarrow> int32 \<times> int32" where
  "key_bounds s0 keys =
     foldl (\<lambda>(mx, off) k. (if sint mx < sint k then k else mx, if sint k < sint off then k else off))
       (s0, s0) keys"

fun insert_leaves :: "int32 \<Rightarrow> (int32 \<times> nat) list \<Rightarrow> HuffmanTree \<Rightarrow> HuffmanTree option" where
  "insert_leaves off [] h = Some h"
| "insert_leaves off ((v, n) # fs) h = do {
     (nd, h) \<leftarrow> new_node n (v - off) Null Null h;
     insert_leaves off fs (h\<lparr>qq := qinsert nd (qq h)\<rparr>) }"

text \<open>The loop \<open>while (qend > 2)\<close>; every pass shortens the queue by one, so its length is enough fuel.\<close>

fun merge_loop :: "bool \<Rightarrow> nat \<Rightarrow> HuffmanTree \<Rightarrow> HuffmanTree option" where
  "merge_loop rl 0 h = (if 1 < length (qq h) then None else Some h)"
| "merge_loop rl (Suc n) h =
     (if 1 < length (qq h)
      then do {
        let (x, q) = qremove (qq h);
        let (y, q) = qremove q;
        (nd, h) \<leftarrow> (if rl then new_node 0 0 y x (h\<lparr>qq := q\<rparr>) else new_node 0 0 x y (h\<lparr>qq := q\<rparr>));
        merge_loop rl n (h\<lparr>qq := qinsert nd (qq h)\<rparr>) }
      else Some h)"

record huffman_encoder =
  huffmanTree :: HuffmanTree
  treeRoot :: node
  nodeCount :: nat
  offset :: int32
  loaded :: bool

definition isLoaded :: "huffman_encoder \<Rightarrow> bool" where
  "isLoaded e = loaded e"

definition HuffmanEncoder_init ::
  "u64 \<Rightarrow> bool \<Rightarrow> ((int32 \<times> nat) list \<Rightarrow> (int32 \<times> nat) list) \<Rightarrow> int32 list \<Rightarrow> huffman_encoder option" where
  "HuffmanEncoder_init undef rl ord s =
     (if s = [] then None
      else do {
        let frequency = ord (count_freq s);
        let (mx, off) = key_bounds (s ! 0) (map fst frequency);
        let states = sint mx - sint off + 2;
        (if states < 2 ^ 31 then Some () else None);
        let h = createHuffmanTree (nat states);
        h \<leftarrow> insert_leaves off frequency h;
        h \<leftarrow> merge_loop rl (length (qq h)) h;
        let root = qq h ! 0;
        (cs, ls) \<leftarrow> build_code undef root 0 0 0 (code h, cout h);
        Some \<lparr>huffmanTree = h\<lparr>code := cs, cout := ls\<rparr>, treeRoot = root, nodeCount = 0, offset = off, loaded = False\<rparr> })"

definition HuffmanEncoder_preprocess_encode ::
  "u64 \<Rightarrow> bool \<Rightarrow> ((int32 \<times> nat) list \<Rightarrow> (int32 \<times> nat) list) \<Rightarrow> int32 list \<Rightarrow> huffman_encoder option" where
  "HuffmanEncoder_preprocess_encode undef rl ord bins = do {
     e \<leftarrow> HuffmanEncoder_init undef rl ord bins;
     let cnt = length (filter (\<lambda>w. w \<noteq> None) (code (huffmanTree e)));
     Some (e\<lparr>nodeCount := cnt * 2 - 1\<rparr>) }"

section \<open>Packing the codes\<close>

record packer =
  pk_mem :: "u8 list"
  pk_p :: nat
  lackBits :: nat
  outSize :: nat
  byteSize :: "nat option"

definition ceil8 :: "nat \<Rightarrow> nat" where
  "ceil8 n = (if n mod 8 = 0 then n div 8 else n div 8 + 1)"

definition lack8 :: "nat \<Rightarrow> nat" where
  "lack8 n = (if n mod 8 = 0 then 0 else 8 - n mod 8)"

definition or_byte :: "u8 list \<Rightarrow> nat \<Rightarrow> u64 \<Rightarrow> u8 list option" where
  "or_byte mem p w = (if p < length mem then Some (mem[p := mem ! p OR ucast w]) else None)"

definition encode_word :: "u64 \<Rightarrow> u64 \<Rightarrow> nat \<Rightarrow> packer \<Rightarrow> packer option" where
  "encode_word c0 c1 bitSize s =
     (let mem = pk_mem s; p = pk_p s; lack = lackBits s
      in if lack = 0
         then do {
           mem \<leftarrow> store mem p (int64ToBytes_bigEndian c0);
           (mem, p) \<leftarrow> (if ceil8 bitSize \<le> 8 then Some (mem, p + bitSize div 8)
                       else map_option (\<lambda>mem. (mem, p + 8 + (bitSize div 8 - 8)))
                              (store mem (p + 8) (int64ToBytes_bigEndian c1)));
           Some (s\<lparr>pk_mem := mem, pk_p := p, lackBits := lack8 bitSize, outSize := outSize s + ceil8 bitSize,
                   byteSize := Some (ceil8 bitSize)\<rparr>) }
         else do {
           mem \<leftarrow> or_byte mem p (drop_bit (64 - lack) c0);
           if lack < bitSize
           then do {
             let p = p + 1;
             mem \<leftarrow> store mem p (int64ToBytes_bigEndian (push_bit lack c0));
             if bitSize \<le> 64
             then do {
               let bitSize = bitSize - lack;
               Some (s\<lparr>pk_mem := mem, pk_p := p + bitSize div 8, lackBits := lack8 bitSize,
                       outSize := outSize s + ceil8 bitSize, byteSize := Some (ceil8 bitSize)\<rparr>) }
             else do {
               let p = p + 7;
               b \<leftarrow> byteSize s;
               let bitSize = bitSize - 64;
               if lack < bitSize
               then do {
                 mem \<leftarrow> or_byte mem p (drop_bit (64 - lack) c0);
                 let p = p + 1;
                 mem \<leftarrow> store mem p (int64ToBytes_bigEndian (push_bit lack c1));
                 let bitSize = bitSize - lack;
                 Some (s\<lparr>pk_mem := mem, pk_p := p + bitSize div 8, lackBits := lack8 bitSize,
                         outSize := outSize s + b + ceil8 bitSize, byteSize := Some (ceil8 bitSize)\<rparr>) }
               else do {
                 mem \<leftarrow> or_byte mem p (drop_bit (64 - bitSize) c0);
                 Some (s\<lparr>pk_mem := mem, pk_p := p, lackBits := lack - bitSize, outSize := outSize s + b\<rparr>) } } }
           else
             (let lack = lack - bitSize
              in Some (s\<lparr>pk_mem := mem, pk_p := (if lack = 0 then p + 1 else p), lackBits := lack\<rparr>)) })"

fun encode_loop :: "huffman_encoder \<Rightarrow> int32 list \<Rightarrow> packer \<Rightarrow> packer option" where
  "encode_loop e [] s = Some s"
| "encode_loop e (b # bins) s = do {
     let state = unat (b - offset e);
     let h = huffmanTree e;
     (if state < length (cout h) \<and> state < length (code h) then Some () else None);
     (c0, c1) \<leftarrow> code h ! state;
     s \<leftarrow> encode_word c0 c1 (unat (cout h ! state)) s;
     encode_loop e bins s }"

definition HuffmanEncoder_encode :: "huffman_encoder \<Rightarrow> int32 list \<Rightarrow> out_pos \<Rightarrow> out_pos option" where
  "HuffmanEncoder_encode e bins pos =
     (case pos of (mem, bytes) \<Rightarrow> do {
        s \<leftarrow> encode_loop e bins
               \<lparr>pk_mem = mem, pk_p = bytes + 8, lackBits = 0, outSize = 0, byteSize = None\<rparr>;
        mem \<leftarrow> store (pk_mem s) bytes (le_bytes 8 (of_nat (outSize s) :: u64));
        Some (mem, bytes + 8 + outSize s) })"

section \<open>The serialised tree\<close>

text \<open>The arrays of \<open>pad_tree\<close>; an entry of \<open>L\<close> or \<open>R\<close> is stored in the type \<open>T1\<close> of \<open>w\<close> bytes.\<close>

record pad_arrays =
  arr_L :: "nat list"
  arr_R :: "nat list"
  arr_C :: "int32 list"
  arr_t :: "u8 list"

definition set_at :: "nat \<Rightarrow> 'a \<Rightarrow> 'a list \<Rightarrow> 'a list option" where
  "set_at i x xs = (if i < length xs then Some (xs[i := x]) else None)"

fun pad_tree :: "nat \<Rightarrow> nat \<Rightarrow> node \<Rightarrow> pad_arrays \<times> nat \<Rightarrow> (pad_arrays \<times> nat) option" where
  "pad_tree w i Null s = None"
| "pad_tree w i (node_t l r f ty x) (a, inode) = do {
     C \<leftarrow> set_at i x (arr_C a);
     T \<leftarrow> set_at i ty (arr_t a);
     let a = a\<lparr>arr_C := C, arr_t := T\<rparr>;
     (a, inode) \<leftarrow>
       (if l \<noteq> Null
        then do {
          let inode = inode + 1;
          L \<leftarrow> set_at i (inode mod 2 ^ (8 * w)) (arr_L a);
          pad_tree w inode l (a\<lparr>arr_L := L\<rparr>, inode) }
        else Some (a, inode));
     (if r \<noteq> Null
      then do {
        let inode = inode + 1;
        R \<leftarrow> set_at i (inode mod 2 ^ (8 * w)) (arr_R a);
        pad_tree w inode r (a\<lparr>arr_R := R\<rparr>, inode) }
      else Some (a, inode)) }"

definition index_bytes :: "nat \<Rightarrow> nat list \<Rightarrow> u8 list" where
  "index_bytes w ns = array_bytes w (map (of_nat :: nat \<Rightarrow> u32) ns)"

definition convert_HuffTree_to_bytes_anyStates :: "nat \<Rightarrow> nat \<Rightarrow> node \<Rightarrow> nat \<Rightarrow> (u8 list \<times> nat) option" where
  "convert_HuffTree_to_bytes_anyStates w cnt root inode = do {
     (a, inode) \<leftarrow> pad_tree w 0 root
       (\<lparr>arr_L = replicate cnt 0, arr_R = replicate cnt 0, arr_C = replicate cnt 0, arr_t = replicate cnt 0\<rparr>, inode);
     Some ([0] @ index_bytes w (arr_L a) @ index_bytes w (arr_R a) @ array_bytes 4 (arr_C a) @ arr_t a, inode) }"

definition index_width :: "nat \<Rightarrow> nat" where
  "index_width cnt = (if cnt \<le> 256 then 1 else if cnt \<le> 65536 then 2 else 4)"

text \<open>The counter \<open>n_inode\<close> of the tree keeps the number of the last node.\<close>

definition HuffmanEncoder_save :: "huffman_encoder \<Rightarrow> out_pos \<Rightarrow> (huffman_encoder \<times> out_pos) option" where
  "HuffmanEncoder_save e pos = do {
     pos \<leftarrow> write_var (offset e) pos;
     pos \<leftarrow> write_bytes (int32ToBytes_bigEndian (of_nat (nodeCount e))) pos;
     pos \<leftarrow> write_bytes (int32ToBytes_bigEndian (of_nat (stateNum (huffmanTree e) div 2))) pos;
     (bs, inode) \<leftarrow> convert_HuffTree_to_bytes_anyStates (index_width (nodeCount e)) (nodeCount e)
                      (qq (huffmanTree e) ! 0) (n_inode (huffmanTree e));
     pos \<leftarrow> write_bytes bs pos;
     Some (e\<lparr>huffmanTree := (huffmanTree e)\<lparr>n_inode := inode\<rparr>\<rparr>, pos) }"

definition HuffmanEncoder_size_est :: "nat \<Rightarrow> nat" where
  "HuffmanEncoder_size_est cnt = 1 + 2 * cnt * index_width cnt + cnt * 1 + cnt * 4 + 4 + 4 + 4"

text \<open>Recreating the nodes; every call of \<open>new_node2\<close> takes an element of the pool, so the size of the
  pool is enough fuel.\<close>

fun unpad_tree :: "nat \<Rightarrow> pad_arrays \<Rightarrow> nat \<Rightarrow> node \<Rightarrow> HuffmanTree \<Rightarrow> (node \<times> HuffmanTree) option" where
  "unpad_tree 0 a i root h = None"
| "unpad_tree (Suc n) a i root h =
     (if t root = 0
      then do {
        (if i < length (arr_L a) \<and> i < length (arr_R a) then Some () else None);
        let l = arr_L a ! i;
        (lc, h) \<leftarrow>
          (if l \<noteq> 0
           then do {
             (if l < length (arr_C a) \<and> l < length (arr_t a) then Some () else None);
             (lroot, h) \<leftarrow> new_node2 (arr_C a ! l) (arr_t a ! l) h;
             unpad_tree n a l lroot h }
           else Some (left root, h));
        let r = arr_R a ! i;
        (rc, h) \<leftarrow>
          (if r \<noteq> 0
           then do {
             (if r < length (arr_C a) \<and> r < length (arr_t a) then Some () else None);
             (rroot, h) \<leftarrow> new_node2 (arr_C a ! r) (arr_t a ! r) h;
             unpad_tree n a r rroot h }
           else Some (right root, h));
        Some (node_t lc rc (freq root) (t root) (c root), h) }
      else Some (root, h))"

definition read_index :: "nat \<Rightarrow> nat \<Rightarrow> u8 list \<Rightarrow> (nat list \<times> u8 list) option" where
  "read_index w n bs = map_option (\<lambda>(ws :: u32 list, bs). (map unat ws, bs)) (read_array w n bs)"

definition reconstruct_HuffTree_from_bytes_anyStates ::
  "u8 list \<Rightarrow> nat \<Rightarrow> HuffmanTree \<Rightarrow> (node \<times> HuffmanTree) option" where
  "reconstruct_HuffTree_from_bytes_anyStates bytes cnt h = do {
     let w = index_width cnt;
     (L, bs) \<leftarrow> read_index w cnt (drop 1 bytes);
     (R, bs) \<leftarrow> read_index w cnt bs;
     (C, bs) \<leftarrow> read_array 4 cnt bs;
     (T, bs) \<leftarrow> read_array 1 cnt bs;
     (root, h) \<leftarrow>
       (if cnt \<le> 256
        then if cnt = 0 then None else new_node2 (C ! 0) (T ! 0) h
        else new_node2 0 0 h);
     unpad_tree (2 * allNodes h + 1) \<lparr>arr_L = L, arr_R = R, arr_C = C, arr_t = T\<rparr> 0 root h }"

definition HuffmanEncoder_load :: "u8 list \<Rightarrow> nat \<Rightarrow> (huffman_encoder \<times> u8 list \<times> nat) option" where
  "HuffmanEncoder_load bs remaining_length = do {
     (off, bs, remaining_length) \<leftarrow> read_var_rem bs remaining_length;
     cnt \<leftarrow> bytesToInt32_bigEndian bs;
     half \<leftarrow> bytesToInt32_bigEndian (drop 4 bs);
     let h = createHuffmanTree (unat (half * 2));
     let start = 1 + 2 * unat cnt * index_width (unat cnt) + unat cnt + unat cnt * 4;
     (root, h) \<leftarrow> reconstruct_HuffTree_from_bytes_anyStates (drop 8 bs) (unat cnt) h;
     Some (\<lparr>huffmanTree = h, treeRoot = root, nodeCount = unat cnt, offset = off, loaded = True\<rparr>,
           drop (8 + start) bs, remaining_length) }"

section \<open>Decoding\<close>

definition stream_bit :: "u8 list \<Rightarrow> nat \<Rightarrow> bool" where
  "stream_bit bytes i = bit (bytes ! (i div 8)) (7 - i mod 8)"

function decode_loop :: "node \<Rightarrow> int32 \<Rightarrow> u8 list \<Rightarrow> node \<Rightarrow> nat \<Rightarrow> nat \<Rightarrow> int32 list option" where
  "decode_loop root off bytes n i k =
     (if k = 0 then Some []
      else if length bytes \<le> i div 8 then None
      else
        let n' = (if stream_bit bytes i then right n else left n)
        in if n' = Null then None
           else if t n' \<noteq> 0
           then map_option (\<lambda>out. (c n' + off) # out) (decode_loop root off bytes root (i + 1) (k - 1))
           else decode_loop root off bytes n' (i + 1) k)"
  by pat_completeness auto
termination
  by (relation "measure (\<lambda>(_, _, bytes, _, i, _). 8 * length bytes - i)") auto

declare decode_loop.simps [simp del]

definition HuffmanEncoder_decode :: "huffman_encoder \<Rightarrow> u8 list \<Rightarrow> nat \<Rightarrow> (int32 list \<times> u8 list) option" where
  "HuffmanEncoder_decode e bytes targetLength =
     (let n = treeRoot e in do {
        (encodedLength :: u64, bytes) \<leftarrow> read_var bytes;
        if n = Null then None
        else if t n \<noteq> 0 then Some (replicate targetLength (c n + offset e), bytes)
        else do {
          out \<leftarrow> decode_loop n (offset e) bytes n 0 targetLength;
          Some (out, drop (unat encodedLength) bytes) } })"

end
