(* ===== verification/Sz3_Huffman_Build.thy ===== *)
theory Sz3_Huffman_Build
  imports Sz3_Huffman
begin

text \<open>
  Building the tree of \<open>HuffmanEncoder.hpp\<close>: the queue \<open>qinsert\<close> / \<open>qremove\<close> is a heap, merging it keeps the
  leaves and their order of frequencies, so the tree satisfies the height bound of a Huffman tree, and
  \<open>build_code\<close> enters the path of each leaf in the table.
\<close>

section \<open>The queue is a heap\<close>

definition node_key :: "node \<Rightarrow> int" where
  "node_key n = int (freq n)"

lemma node_key_less [simp]: "node_key x < node_key y \<longleftrightarrow> freq x < freq y"
  by (simp add: node_key_def)

lemma qinsert_loop_sift:
  "i < length q \<Longrightarrow> qinsert_loop q n (Suc i) = sift_up node_key (q[i := n]) i"
proof (induction i arbitrary: q rule: less_induct)
  case (less i)
  show ?case
  proof (cases "i = 0")
    case True
    then show ?thesis by (simp add: qinsert_loop.simps [of q] sift_up.simps [of node_key])
  next
    case False
    define p where "p = (i - 1) div 2"
    have p: "Suc i div 2 = Suc p" "p < i" using False by (auto simp: p_def)
    have "sift_up node_key (q[i := n]) i =
        (if freq n < freq (q ! p) then sift_up node_key (q[i := q ! p, p := n]) p else q[i := n])"
      unfolding sift_up.simps [of node_key "q[i := n]" i] Let_def p_def [symmetric]
      using less.prems False p(2) by (simp add: heap_swap_def)
    moreover have "qinsert_loop q n (Suc i) =
        (if freq n < freq (q ! p) then qinsert_loop (q[i := q ! p]) n (Suc p) else q[i := n])"
      unfolding qinsert_loop.simps [of q n "Suc i"] Let_def p(1) by (simp add: not_less)
    ultimately show ?thesis
      using less.prems p(2) less.IH [of p "q[i := q ! p]"] by simp
  qed
qed

lemma qremove_loop_sift: "qremove_loop q (Suc i) = sift_down node_key q i"
proof (induction "length q - i" arbitrary: q i rule: less_induct)
  case less
  define ch where "ch = smaller_child node_key q i"
  show ?case
  proof (cases "2 * i + 1 < length q")
    case False
    then have "\<not> ch < length q" by (auto simp: ch_def smaller_child_def)
    then show ?thesis
      using False by (simp add: qremove_loop.simps [of q] sift_down.simps [of node_key q] flip: ch_def)
  next
    case True
    have l: "(if 2 * Suc i + 1 < length q + 1 \<and> freq (q ! (2 * Suc i)) < freq (q ! (2 * Suc i - 1))
        then 2 * Suc i + 1 else 2 * Suc i) = Suc ch"
      by (simp add: ch_def smaller_child_def)
    have ch: "ch < length q" "i < ch" using True by (auto simp: ch_def smaller_child_def)
    have "qremove_loop q (Suc i) =
      (if freq (q ! ch) < freq (q ! i) then qremove_loop (heap_swap q i ch) (Suc ch) else q)"
      unfolding qremove_loop.simps [of q "Suc i"] Let_def l using True by (simp add: heap_swap_def)
    also have "\<dots> = sift_down node_key q i"
      using less.hyps [of "heap_swap q i ch" ch] ch
      by (simp add: sift_down.simps [of node_key q] flip: ch_def)
    finally show ?thesis .
  qed
qed

definition sz_queue :: "(node, node list) pq_ops" where
  "sz_queue = \<lparr>pq_empty = [], pq_size = length, pq_push = qinsert, pq_top = (\<lambda>q. q ! 0), pq_pop = (\<lambda>q. snd (qremove q))\<rparr>"

lemma sz_queue_heap: "sz_queue = heap_ops node_key"
proof -
  have "qinsert n q = sift_up node_key (q @ [n]) (length q)" for n q
    using qinsert_loop_sift [of "length q" "q @ [n]" n] by (simp add: qinsert_def)
  moreover have "snd (qremove q) = (if length q \<le> 1 then [] else sift_down node_key ((butlast q)[0 := last q]) 0)" for q
    using qremove_loop_sift [of _ 0] by (cases q) (auto simp: qremove_def Let_def)
  ultimately show ?thesis
    by (simp add: sz_queue_def heap_ops_def fun_eq_iff)
qed

interpretation sz_heap: priority_queue sz_queue node_key mset "is_heap node_key"
  unfolding sz_queue_heap by (rule heap.priority_queue_axioms)

section \<open>The tree\<close>

text \<open>Complete trees: leaves have type 1 and no children, inner nodes type 0 and two.\<close>

fun full :: "node \<Rightarrow> bool" where
  "full Null = False"
| "full (node_t l r f ty x) \<longleftrightarrow> (if ty = 0 then full l \<and> full r \<and> x = 0 else ty = 1 \<and> l = Null \<and> r = Null)"

fun absn :: "node \<Rightarrow> huf_tree" where
  "absn Null = HufLeaf 0 0"
| "absn (node_t l r f ty x) = (if ty = 0 then HufNode (int f) (absn l) (absn r) else HufLeaf x (int f))"

lemma absn_cnt: "full n \<Longrightarrow> huf_cnt (absn n) = node_key n"
  by (cases n) (simp_all add: node_key_def)

abbreviation leaf_node :: "int32 \<Rightarrow> int32 \<times> nat \<Rightarrow> node" where
  "leaf_node off f \<equiv> node_t Null Null (snd f) 1 (fst f - off)"

lemmas sz_heap_push = sz_heap.push_ok sz_heap.push_elems

lemma insert_leaves_ok:
  assumes "is_heap node_key (qq h)" "\<forall>(v, n) \<in> set fs. 0 < n" "n_nodes h + length fs \<le> 2 * allNodes h"
  shows "\<exists>q. insert_leaves off fs h = Some (h\<lparr>n_nodes := n_nodes h + length fs, qq := q\<rparr>) \<and>
    is_heap node_key q \<and> mset q = mset (qq h) + mset (map (leaf_node off) fs)"
  using assms
proof (induction fs arbitrary: h)
  case Nil
  then show ?case by (intro exI [of _ "qq h"]) simp
next
  case (Cons f fs)
  obtain v n where f: "f = (v, n)" by (cases f)
  let ?nd = "leaf_node off f"
  let ?h = "h\<lparr>n_nodes := n_nodes h + 1, qq := qinsert ?nd (qq h)\<rparr>"
  have push: "is_heap node_key (qinsert ?nd (qq h))" "mset (qinsert ?nd (qq h)) = add_mset ?nd (mset (qq h))"
    using sz_heap_push [OF Cons.prems(1), of ?nd] by (simp_all add: sz_queue_def)
  obtain q where "insert_leaves off fs ?h = Some (?h\<lparr>n_nodes := n_nodes ?h + length fs, qq := q\<rparr>)"
    "is_heap node_key q" "mset q = mset (qq ?h) + mset (map (leaf_node off) fs)"
    using Cons.IH [of ?h] push Cons.prems by auto
  then show ?case
    using Cons.prems push f by (intro exI [of _ q]) (simp add: new_node_def Let_def)
qed

definition merged :: "HuffmanTree \<Rightarrow> node \<Rightarrow> bool" where
  "merged h root \<longleftrightarrow> full root \<and> huf_ok (absn root) \<and>
     mset (tree_leaves (absn root)) = forest_leaves (image_mset absn (mset (qq h))) \<and>
     huf_cnt (absn root) = (\<Sum>t \<in># image_mset absn (mset (qq h)). huf_cnt t)"

lemma merged_single:
  assumes "qq h = [root]" "full root" "forest_ok (image_mset absn (mset (qq h)))"
  shows "h\<lparr>n_nodes := n_nodes h + length (qq h) - 1, qq := [root]\<rparr> = h \<and> merged h root"
  using assms by (cases h) (simp add: merged_def forest_ok_def forest_leaves_def)

lemma mset_add:
  assumes "mset p = add_mset x (mset q)"
  shows "length p = Suc (length q)" "set p = insert x (set q)"
  using arg_cong [OF assms, of size] arg_cong [OF assms, of set_mset] by simp_all

lemma queue_split:
  assumes "is_heap node_key q" "q \<noteq> []" "qremove q = (x, q1)"
  shows "is_heap node_key q1" "mset q = add_mset x (mset q1)" "length q = Suc (length q1)"
    "y \<in> set q \<Longrightarrow> freq x \<le> freq y"
proof -
  have ne: "mset q \<noteq> {#}" using assms(2) by simp
  have x: "q ! 0 = x" "snd (qremove q) = q1" using assms(2,3) by (simp_all add: qremove_def Let_def)
  show "is_heap node_key q1" using sz_heap.pop_ok [OF assms(1) ne] x by (simp add: sz_queue_def)
  show m: "mset q = add_mset x (mset q1)" using sz_heap.elems_split [OF assms(1) ne] x by (simp add: sz_queue_def)
  show "length q = Suc (length q1)" by (rule mset_add(1) [OF m])
  show "freq x \<le> freq y" if "y \<in> set q"
    using sz_heap.top_least [OF assms(1), of y] that x by (simp add: sz_queue_def node_key_def)
qed

lemma merge_loop_ok:
  assumes "is_heap node_key (qq h)" "qq h \<noteq> []" "\<forall>n \<in> set (qq h). full n"
    "forest_ok (image_mset absn (mset (qq h)))" "length (qq h) \<le> Suc fuel"
    "n_nodes h + length (qq h) \<le> Suc (2 * allNodes h)"
  shows "\<exists>root. merge_loop rl fuel h = Some (h\<lparr>n_nodes := n_nodes h + length (qq h) - 1, qq := [root]\<rparr>) \<and>
    merged h root"
  using assms
proof (induction fuel arbitrary: h)
  case 0
  then obtain root where r: "qq h = [root]" by (cases "qq h") auto
  then show ?case using merged_single [of h root] 0 by (intro exI [of _ root]) simp
next
  case (Suc fuel)
  show ?case
  proof (cases "1 < length (qq h)")
    case False
    then obtain root where r: "qq h = [root]" using Suc.prems(2) by (cases "qq h") auto
    then show ?thesis using merged_single [of h root] Suc.prems by (intro exI [of _ root]) simp
  next
    case True
    obtain x q1 where x: "qremove (qq h) = (x, q1)" by fastforce
    note s1 = queue_split [OF Suc.prems(1,2) x]
    have "q1 \<noteq> []" using True s1(3) by auto
    obtain y q2 where y: "qremove q1 = (y, q2)" by fastforce
    note s2 = queue_split [OF s1(1) \<open>q1 \<noteq> []\<close> y]
    note sets = mset_add(2) [OF s1(2)] mset_add(2) [OF s2(2)]
    define a b where "a = (if rl then y else x)" and "b = (if rl then x else y)"
    let ?M = "image_mset absn (mset q2)"
    have full: "full a" "full b" "\<forall>n \<in> set q2. full n"
      using Suc.prems(3) sets by (auto simp: a_def b_def)
    have M: "image_mset absn (mset (qq h)) = add_mset (absn a) (add_mset (absn b) ?M)"
      using s1(2) s2(2) by (auto simp: a_def b_def)
    have least: "huf_cnt (absn a) \<le> huf_cnt t \<and> huf_cnt (absn b) \<le> huf_cnt t" if "t \<in># ?M" for t
      using that full sets s1(4) s2(4) by (auto simp: absn_cnt node_key_def a_def b_def)
    note merge = forest_merge [OF Suc.prems(4) [unfolded M] least]
    let ?n = "node_t a b ((freq a + freq b) mod 2 ^ 64) 0 0"
    have "(freq a + freq b) mod 2 ^ 64 = freq a + freq b \<and> i32 (node_key a + node_key b) = int (freq a + freq b)"
    proof -
      have "huf_cnt (absn a) + huf_cnt (absn b) + (\<Sum>t \<in># ?M. huf_cnt t) < 2 ^ 31" "0 \<le> (\<Sum>t \<in># ?M. huf_cnt t)"
        using Suc.prems(4) forest_sum_nonneg [of ?M] unfolding M by (simp_all add: forest_ok_def)
      then have "int (freq a) + int (freq b) < 2 ^ 31" using full by (simp add: absn_cnt node_key_def)
      then show ?thesis by (simp add: node_key_def)
    qed
    then have n: "absn ?n = HufNode (i32 (huf_cnt (absn a) + huf_cnt (absn b))) (absn a) (absn b)"
      using full by (simp add: absn_cnt)
    let ?h = "h\<lparr>n_nodes := n_nodes h + 1, qq := qinsert ?n q2\<rparr>"
    have push: "is_heap node_key (qinsert ?n q2)" "mset (qinsert ?n q2) = add_mset ?n (mset q2)"
      using sz_heap_push [OF s2(1), of ?n] by (simp_all add: sz_queue_def)
    note len = mset_add(1) [OF push(2)] and set = mset_add(2) [OF push(2)]
    have M': "image_mset absn (mset (qq ?h)) = add_mset (absn ?n) ?M" using push(2) by simp
    have "full x" "full y" using Suc.prems(3) sets by auto
    then have ne: "x \<noteq> Null" "y \<noteq> Null" by auto
    have "n_nodes h < 2 * allNodes h" using Suc.prems(6) True by linarith
    then have step: "merge_loop rl (Suc fuel) h = merge_loop rl fuel ?h"
      using True x y ne by (simp add: new_node_def a_def b_def Let_def)
    have "qq ?h \<noteq> []" using len by auto
    moreover have "\<forall>n \<in> set (qq ?h). full n" using full set by simp
    moreover have "forest_ok (image_mset absn (mset (qq ?h)))" unfolding M' n using merge(1) .
    ultimately have "\<exists>root. merge_loop rl fuel ?h = Some (?h\<lparr>n_nodes := n_nodes ?h + length (qq ?h) - 1, qq := [root]\<rparr>) \<and>
        merged ?h root"
      using push(1) len s1(3) s2(3) Suc.prems(5,6) by (intro Suc.IH) simp_all
    then obtain root where root: "merge_loop rl fuel ?h = Some (?h\<lparr>n_nodes := n_nodes ?h + length (qq ?h) - 1, qq := [root]\<rparr>)"
      "merged ?h root" by blast
    have "merged h root"
      using root(2) merge(2,3) unfolding merged_def M' M n by simp
    then show ?thesis
      using root(1) step len s1(3) s2(3) by (intro exI [of _ root]) simp
  qed
qed

text \<open>Fewer than \<open>2 ^ 31\<close> values give codes of at most 44 bits.\<close>

lemma fib_47: "int (fib 47) = 2971215073"
proof -
  have "int (fib 47) = fib_from 47 0 1"
    using fib_from_fib [of 47 0, symmetric]
    by (simp only: add_0_right fib.simps(1,2)) (simp only: of_nat_0 of_nat_1 of_nat_simps)
  also have "\<dots> = 2971215073" by (simp add: fib_from_numeral)
  finally show ?thesis .
qed

lemma huf_ok_height31:
  assumes "huf_ok tr" "huf_cnt tr < 2 ^ 31"
  shows "tree_height tr \<le> 44"
proof (rule ccontr)
  assume "\<not> tree_height tr \<le> 44"
  then have "fib 47 \<le> fib (tree_height tr + 2)" by (intro fib_mono) simp
  then have "int (fib 47) \<le> int (fib (tree_height tr + 2))" by (simp only: of_nat_le_iff)
  then have "int (fib 47) \<le> huf_cnt tr" using huf_ok_fib [OF assms(1)] by (rule order_trans)
  then show False using assms(2) unfolding fib_47 by simp
qed

section \<open>Paths and codes\<close>

fun leaf_paths :: "node \<Rightarrow> (int32 \<times> bool list) list" where
  "leaf_paths Null = []"
| "leaf_paths (node_t l r f ty x) =
     (if ty = 0 then map (\<lambda>(v, bs). (v, False # bs)) (leaf_paths l) @ map (\<lambda>(v, bs). (v, True # bs)) (leaf_paths r)
      else [(x, [])])"

lemma leaf_paths_values: "full n \<Longrightarrow> map fst (leaf_paths n) = map fst (tree_leaves (absn n))"
proof (induction n)
  case (node_t l r f ty x)
  then show ?case by (simp add: comp_def case_prod_unfold split: if_splits)
qed simp

lemma leaf_paths_length:
  "full n \<Longrightarrow> (x, bs) \<in> set (leaf_paths n) \<Longrightarrow> length bs \<le> tree_height (absn n)"
proof (induction n arbitrary: bs)
  case (node_t l r f ty y)
  then show ?case by (auto split: if_splits) (fastforce simp: le_max_iff_disj)+
qed simp

lemma of_bits_snoc: "of_bits (bs @ [b]) = push_bit 1 (of_bits bs) OR of_bool b"
proof (rule bit_word_eqI)
  fix k :: nat
  assume "k < LENGTH(64)"
  then show "bit (of_bits (bs @ [b])) k \<longleftrightarrow> bit (push_bit 1 (of_bits bs) OR of_bool b) k"
    unfolding bit_or_iff bit_push_bit_iff bit_of_bits
    by (cases k) (auto simp: bit_simps nth_append)
qed

definition put_code :: "u64 \<Rightarrow> bool list \<Rightarrow> code_table \<Rightarrow> int32 \<times> bool list \<Rightarrow> code_table" where
  "put_code undef pre tab p =
     (let bs = pre @ snd p; i = unat (fst p)
      in ((fst tab)[i := Some (shl64 undef (of_bits bs) (64 - length bs), 0)], (snd tab)[i := of_nat (length bs)]))"

lemma put_code_nth:
  "unat x < length (fst tab) \<Longrightarrow> fst (put_code undef pre tab (x, bs)) ! unat x =
     Some (shl64 undef (of_bits (pre @ bs)) (64 - length (pre @ bs)), 0)"
  "unat x < length (snd tab) \<Longrightarrow> snd (put_code undef pre tab (x, bs)) ! unat x = of_nat (length (pre @ bs))"
  "length (fst (put_code undef pre tab p)) = length (fst tab)"
  "length (snd (put_code undef pre tab p)) = length (snd tab)"
  by (simp_all add: put_code_def Let_def)

lemma put_code_length [simp]:
  "length (fst (foldl (put_code undef pre) tab ps)) = length (fst tab)"
  "length (snd (foldl (put_code undef pre) tab ps)) = length (snd tab)"
  by (induction ps arbitrary: tab) (simp_all add: put_code_def Let_def)

lemma foldl_put_Cons:
  "foldl (put_code undef pre) tab (map (\<lambda>(v, bs). (v, b # bs)) ps) = foldl (put_code undef (pre @ [b])) tab ps"
proof -
  have "put_code undef pre tab (v, b # bs) = put_code undef (pre @ [b]) tab (v, bs)" for tab v bs
    by (simp add: put_code_def Let_def ac_simps)
  then show ?thesis by (induction ps arbitrary: tab) auto
qed

lemma build_code_paths:
  assumes "full n" "length pre + tree_height (absn n) \<le> 64"
    "\<forall>(x, bs) \<in> set (leaf_paths n). unat x < length (fst tab) \<and> unat x < length (snd tab)"
  shows "build_code undef n (length pre) (of_bits pre) 0 tab = Some (foldl (put_code undef pre) tab (leaf_paths n))"
  using assms
proof (induction n arbitrary: pre tab)
  case (node_t l r f ty x)
  show ?case
  proof (cases "ty = 0")
    case False
    then show ?thesis using node_t.prems by (simp add: put_code_def Let_def)
  next
    case True
    let ?tab = "foldl (put_code undef (pre @ [False])) tab (leaf_paths l)"
    have len: "length pre < 64" using node_t.prems(2) True by simp
    have l: "build_code undef l (length (pre @ [False])) (of_bits (pre @ [False])) 0 tab = Some ?tab"
      using node_t.prems True by (intro node_t.IH(1)) auto
    have r: "build_code undef r (length (pre @ [True])) (of_bits (pre @ [True])) 0 ?tab =
        Some (foldl (put_code undef (pre @ [True])) ?tab (leaf_paths r))"
      using node_t.prems True by (intro node_t.IH(2)) auto
    show ?thesis
      using l r len True by (simp add: of_bits_snoc foldl_put_Cons)
  qed
qed simp

lemma put_code_other:
  "i \<notin> (\<lambda>p. unat (fst p)) ` set ps \<Longrightarrow>
    fst (foldl (put_code undef pre) tab ps) ! i = fst tab ! i \<and> snd (foldl (put_code undef pre) tab ps) ! i = snd tab ! i"
  by (induction ps arbitrary: tab) (auto simp: put_code_def Let_def)

lemma put_code_found:
  assumes "distinct (map (\<lambda>p. unat (fst p)) ps)" "(x, bs) \<in> set ps" "unat x < length (fst tab)" "unat x < length (snd tab)"
  shows "fst (foldl (put_code undef pre) tab ps) ! unat x =
      Some (shl64 undef (of_bits (pre @ bs)) (64 - length (pre @ bs)), 0) \<and>
    snd (foldl (put_code undef pre) tab ps) ! unat x = of_nat (length (pre @ bs))"
  using assms
proof (induction ps arbitrary: tab)
  case (Cons p ps)
  show ?case
  proof (cases "(x, bs) = p")
    case True
    then have "unat x \<notin> (\<lambda>p. unat (fst p)) ` set ps"
      using Cons.prems(1) unfolding True [symmetric] by simp
    from put_code_other [OF this, of undef pre "put_code undef pre tab p"] show ?thesis
      using Cons.prems(3,4) unfolding True [symmetric] by (simp only: foldl.simps put_code_nth)
  next
    case False
    have "(x, bs) \<in> set ps" "distinct (map (\<lambda>p. unat (fst p)) ps)" using Cons.prems(1,2) False by simp_all
    from Cons.IH [OF this(2,1), of "put_code undef pre tab p"] show ?thesis
      using Cons.prems(3,4) by (simp only: foldl.simps put_code_nth)
  qed
qed simp

text \<open>The number of codes in the table.\<close>

lemma put_code_count:
  assumes "distinct (map (\<lambda>p. unat (fst p)) ps)" "\<forall>p \<in> set ps. unat (fst p) < n" "fst tab = replicate n None" "length (snd tab) = n"
  shows "length (filter (\<lambda>w. w \<noteq> None) (fst (foldl (put_code undef pre) tab ps))) = length ps"
proof -
  let ?cs = "fst (foldl (put_code undef pre) tab ps)"
  let ?I = "(\<lambda>p. unat (fst p)) ` set ps"
  have iff: "?cs ! i \<noteq> None \<longleftrightarrow> i \<in> ?I" if "i < n" for i
  proof (cases "i \<in> ?I")
    case True
    then obtain x bs where p: "(x, bs) \<in> set ps" "i = unat x" by auto
    have "unat x < n" using assms(2) p(1) by force
    then show ?thesis using put_code_found [OF assms(1) p(1), of tab undef pre] assms(3,4) True p(2) by simp
  next
    case False
    then show ?thesis using put_code_other [OF False, of undef pre tab] assms that by simp
  qed
  have "?I \<subseteq> {i. i < n}" "length ?cs = n" using assms(2,3) by auto
  then have "{i. i < length ?cs \<and> ?cs ! i \<noteq> None} = ?I" using iff by blast
  then have "length (filter (\<lambda>w. w \<noteq> None) ?cs) = card ?I" by (simp add: length_filter_conv_card)
  also have "\<dots> = length ps" using assms(1) by (metis distinct_card length_map list.set_map)
  finally show ?thesis .
qed

section \<open>Weights and depths\<close>

fun leaf_depths :: "huf_tree \<Rightarrow> (int32 \<times> int \<times> nat) list" where
  "leaf_depths (HufLeaf v w) = [(v, w, 0)]"
| "leaf_depths (HufNode w l r) = map (\<lambda>(v, w, d). (v, w, Suc d)) (leaf_depths l @ leaf_depths r)"

lemma leaf_depths_leaves: "map (\<lambda>(v, w, d). (v, w)) (leaf_depths tr) = tree_leaves tr"
  by (induction tr) (simp_all add: comp_def case_prod_unfold)

lemma leaf_depths_paths:
  "full n \<Longrightarrow> map (\<lambda>(v, w, d). (v, d)) (leaf_depths (absn n)) = map (\<lambda>(v, bs). (v, length bs)) (leaf_paths n)"
proof (induction n)
  case (node_t l r f ty x)
  show ?case
  proof (cases "ty = 0")
    case True
    have ds: "map (\<lambda>(v, w, d). (v, d)) (map (\<lambda>(v, w, d). (v, w, Suc d)) ds) =
        map (apsnd Suc) (map (\<lambda>(v, w, d). (v, d)) ds)" for ds :: "(int32 \<times> int \<times> nat) list"
      by (induction ds) auto
    have ps: "map (\<lambda>(v, bs). (v, length bs)) (map (\<lambda>(v, bs). (v, b # bs)) ps) =
        map (apsnd Suc) (map (\<lambda>(v, bs). (v, length bs)) ps)" for b and ps :: "(int32 \<times> bool list) list"
      by (induction ps) auto
    have "full l" "full r" using node_t.prems True by simp_all
    with node_t.IH show ?thesis
      by (simp only: True absn.simps leaf_depths.simps leaf_paths.simps refl if_True map_append ds ps)
  qed simp
qed simp

text \<open>A leaf of weight \<open>w\<close> at depth \<open>d\<close> lies in a tree of weight at least \<open>w * fib (d + 1)\<close>.\<close>

lemma leaf_depth_weight:
  "huf_ok tr \<Longrightarrow> (v, w, d) \<in> set (leaf_depths tr) \<Longrightarrow> 1 \<le> w \<and> w * int (fib (Suc d)) \<le> huf_cnt tr"
proof (induction tr arbitrary: d rule: measure_induct_rule [of tree_nodes])
  case (less tr)
  show ?case
  proof (cases tr)
    case (HufLeaf x n)
    with less.prems show ?thesis by simp
  next
    case (HufNode n l r)
    then obtain s u d1 where su: "{s, u} = {l, r}" "(v, w, d1) \<in> set (leaf_depths s)" "d = Suc d1"
      using less.prems(2) by auto
    have ok: "huf_ok s" "huf_ok u" "children_le s (huf_cnt u)" "huf_cnt tr = huf_cnt s + huf_cnt u" "tree_nodes s < tree_nodes tr"
      using less.prems(1) su(1) HufNode by (auto simp: doubleton_eq_iff)
    have s: "1 \<le> w" "w * int (fib (Suc d1)) \<le> huf_cnt s" using less.IH [OF ok(5,1) su(2)] by auto
    have "w * int (fib d1) \<le> huf_cnt u"
    proof (cases s)
      case (HufLeaf x m)
      then show ?thesis using su(2) huf_ok_pos [OF ok(2)] by simp
    next
      case sn: (HufNode m a b)
      then obtain e d2 where e: "e = a \<or> e = b" "(v, w, d2) \<in> set (leaf_depths e)" "d1 = Suc d2" using su(2) by auto
      have "huf_ok e" "tree_nodes e < tree_nodes tr" "huf_cnt e \<le> huf_cnt u" using ok sn e(1) by auto
      then show ?thesis using less.IH [of e d2] e(2,3) by auto
    qed
    then show ?thesis using s ok(4) su(3) by (simp add: distrib_left)
  qed
qed

lemma fib_ge: "d \<le> fib (Suc d)"
proof (induction d rule: fib.induct)
  case (3 n)
  then show ?case using fib_mono [of 1 "Suc n"] by simp
qed simp_all

end
