(* ===== verification/Sz3_Huffman_Pack.thy ===== *)
theory Sz3_Huffman_Pack
  imports Sz3_Huffman_Build
begin

text \<open>
  Packing the codes of \<open>HuffmanEncoder::encode\<close>: after every element the bytes written so far hold exactly the
  concatenated codes, most significant bit first, with zeros up to the end of the last byte.
\<close>

section \<open>Counting bits\<close>

lemma lack8_mult [simp]: "lack8 (8 * m + x) = lack8 x"
  and ceil8_mult [simp]: "ceil8 (8 * m + x) = m + ceil8 x"
  by (simp_all add: lack8_def ceil8_def)

lemma ceil8_bound: "x \<le> 8 * ceil8 x" "ceil8 x \<le> x div 8 + 1"
  by (auto simp: ceil8_def)

lemma ceil8_alt: "ceil8 x = (x + 7) div 8"
proof -
  have "ceil8 (8 * m + r) = (8 * m + r + 7) div 8" if "r < 8" for m r
  proof (cases "r = 0")
    case True
    then show ?thesis using ceil8_mult [of m 0] by (simp add: ceil8_def)
  next
    case False
    then have "(r + 7) div 8 = 1" using that by (intro div_nat_eqI) simp_all
    then have "(8 * m + (r + 7)) div 8 = m + 1" by simp
    moreover have "ceil8 r = 1" using False that by (simp add: ceil8_def)
    ultimately show ?thesis by (simp add: add.assoc)
  qed
  from this [of "x mod 8" "x div 8"] show ?thesis by simp
qed

lemma ceil8_mono: "x \<le> y \<Longrightarrow> ceil8 x \<le> ceil8 y"
  by (simp add: ceil8_alt div_le_mono)

lemma ceil8_small: "0 < x \<Longrightarrow> x \<le> 8 \<Longrightarrow> ceil8 x = 1"
  by (cases "x = 8") (simp_all add: ceil8_def)

text \<open>A code, left aligned in a word.\<close>

definition left_aligned :: "u64 \<Rightarrow> bool list \<Rightarrow> bool" where
  "left_aligned z cs \<longleftrightarrow> length cs \<le> 64 \<and> (\<forall>j < 64. bit z (63 - j) = (j < length cs \<and> cs ! j))"

lemma left_aligned_code:
  assumes "length cs \<le> 64"
  shows "left_aligned (push_bit (64 - length cs) (of_bits cs)) cs"
  using assms by (auto simp: left_aligned_def bit_push_bit_iff bit_of_bits)

lemma left_aligned_push:
  assumes "left_aligned z cs" "l \<le> length cs"
  shows "left_aligned (push_bit l z) (drop l cs)"
proof -
  have "bit (push_bit l z) (63 - j) = (j < length (drop l cs) \<and> drop l cs ! j)" if "j < 64" for j
  proof (cases "l + j < 64")
    case True
    then have "bit z (63 - (l + j)) = (l + j < length cs \<and> cs ! (l + j))"
      using assms(1) by (simp add: left_aligned_def)
    moreover have "63 - j - l = 63 - (l + j)" "l \<le> 63 - j" using True by simp_all
    ultimately show ?thesis using assms that by (auto simp: bit_push_bit_iff)
  next
    case False
    then show ?thesis using assms that by (auto simp: bit_push_bit_iff left_aligned_def)
  qed
  moreover have "length (drop l cs) \<le> 64" using assms(1) by (auto simp: left_aligned_def)
  ultimately show ?thesis by (simp add: left_aligned_def)
qed

text \<open>The bits at \<open>base\<close>, with zeros up to the end of the last byte.\<close>

definition packed_bits :: "nat \<Rightarrow> bool list \<Rightarrow> u8 list \<Rightarrow> bool" where
  "packed_bits base bs mem \<longleftrightarrow> base + ceil8 (length bs) \<le> length mem \<and>
     (\<forall>i < 8 * ceil8 (length bs). stream_bit (drop base mem) i = (i < length bs \<and> bs ! i))"

lemma int64_bit:
  assumes "m < 8" "r < 8"
  shows "bit (int64ToBytes_bigEndian z ! m) (7 - r) = bit z (63 - (8 * m + r))"
proof -
  have "8 * (7 - m) + (7 - r) = 63 - (8 * m + r)" using assms by auto
  moreover have "[0..<8] ! (7 - m) = 7 - m" by simp
  ultimately show ?thesis
    using assms by (auto simp: bigEndian_rev rev_nth le_bytes_def bit_simps)
qed

lemma stream_store:
  assumes "base + q + 8 \<le> length mem" "i < 8 * (q + 8)"
  shows "stream_bit (drop base (mem_write mem (base + q) (int64ToBytes_bigEndian z))) i =
    (if i < 8 * q then stream_bit (drop base mem) i else bit z (63 - (i - 8 * q)))"
proof (cases "i < 8 * q")
  case True
  then have "i div 8 < q" by auto
  then show ?thesis
    using assms True by (simp add: stream_bit_def mem_write_def nth_append)
next
  case False
  define k where "k = i - 8 * q"
  define m where "m = k div 8"
  have k: "i = 8 * q + k" "k < 64" using False assms(2) by (auto simp: k_def)
  then have m: "m < 8" "i div 8 = q + m" "i - 8 * q = 8 * m + i mod 8" by (auto simp: m_def)
  then have "drop base (mem_write mem (base + q) (int64ToBytes_bigEndian z)) ! (i div 8) = int64ToBytes_bigEndian z ! m"
    using assms(1) by (simp add: mem_write_def nth_append)
  then show ?thesis
    using False int64_bit [of m "i mod 8" z] m by (simp add: stream_bit_def)
qed

lemma packed_store:
  assumes "packed_bits base bs mem" "length bs = 8 * q" "base + q + 8 \<le> length mem" "left_aligned z cs"
  shows "packed_bits base (bs @ cs) (mem_write mem (base + q) (int64ToBytes_bigEndian z))"
proof -
  have len: "length cs \<le> 64" using assms(4) by (simp add: left_aligned_def)
  then have c: "ceil8 (length cs) \<le> 8" using ceil8_mono [of "length cs" 64] by (simp add: ceil8_def)
  have old: "stream_bit (drop base mem) i = bs ! i" if "i < 8 * q" for i
    using assms(1,2) that ceil8_mult [of q 0] by (simp add: packed_bits_def ceil8_def)
  have "stream_bit (drop base (mem_write mem (base + q) (int64ToBytes_bigEndian z))) i =
      (i < length (bs @ cs) \<and> (bs @ cs) ! i)" if "i < 8 * (q + ceil8 (length cs))" for i
  proof (cases "i < 8 * q")
    case True
    then show ?thesis using stream_store [OF assms(3), of i z] old assms(2) by (simp add: nth_append)
  next
    case False
    then have "i - 8 * q < 64" using that c by auto
    then have "bit z (63 - (i - 8 * q)) = (i - 8 * q < length cs \<and> cs ! (i - 8 * q))"
      using assms(4) by (simp add: left_aligned_def)
    then show ?thesis
      using stream_store [OF assms(3), of i z] False that c assms(2) by (auto simp: nth_append)
  qed
  then show ?thesis
    using assms(2,3) c by (simp add: packed_bits_def)
qed

lemma packed_or:
  fixes z :: u64
  assumes "packed_bits base bs mem" "length bs = 8 * q + r" "0 < r" "r < 8"
    "length cs \<le> 8 - r" "\<And>j. j < 8 - r \<Longrightarrow> bit z (63 - j) = (j < length cs \<and> cs ! j)"
  shows "packed_bits base (bs @ cs) (mem[base + q := mem ! (base + q) OR ucast (drop_bit (64 - (8 - r)) z)])"
proof -
  let ?mem = "mem[base + q := mem ! (base + q) OR ucast (drop_bit (64 - (8 - r)) z)]"
  have c: "ceil8 (length bs) = q + 1" "ceil8 (length (bs @ cs)) = q + 1"
    using assms ceil8_mult [of q "r + length cs"] ceil8_small [of r] ceil8_small [of "r + length cs"]
    by (simp_all add: add.assoc)
  have room: "base + q < length mem" using assms(1) c by (simp add: packed_bits_def)
  have old: "stream_bit (drop base mem) i = (i < length bs \<and> bs ! i)" if "i < 8 * (q + 1)" for i
    using assms(1) that c by (simp add: packed_bits_def)
  have "stream_bit (drop base ?mem) i = (i < length (bs @ cs) \<and> (bs @ cs) ! i)" if i: "i < 8 * (q + 1)" for i
  proof (cases "i < 8 * q")
    case True
    then have "i div 8 < q" by auto
    then have "stream_bit (drop base ?mem) i = stream_bit (drop base mem) i"
      using room by (simp add: stream_bit_def)
    then show ?thesis using True old [of i] i assms(2) by (simp add: nth_append)
  next
    case False
    define m where "m = i - 8 * q"
    have m: "m < 8" "i = 8 * q + m" using False i by (auto simp: m_def)
    then have q: "i div 8 = q" "i mod 8 = m" by simp_all
    have "stream_bit (drop base ?mem) i = (stream_bit (drop base mem) i \<or> bit z (64 - (8 - r) + (7 - m)))"
      using room q less_imp_diff_less [of 7 8 m] by (simp add: stream_bit_def bit_simps)
    also have "bit z (64 - (8 - r) + (7 - m)) = (r \<le> m \<and> m - r < length cs \<and> cs ! (m - r))"
    proof (cases "r \<le> m")
      case True
      then have "64 - (8 - r) + (7 - m) = 63 - (m - r)" "m - r < 8 - r" using m assms(4) by auto
      then show ?thesis using assms(6) [of "m - r"] True by simp
    next
      case False
      then have "64 \<le> 64 - (8 - r) + (7 - m)" using m assms(4) by simp
      then have "\<not> bit z (64 - (8 - r) + (7 - m))" using bit_imp_le_length [of z "64 - (8 - r) + (7 - m)"] by auto
      then show ?thesis using False by simp
    qed
    finally show ?thesis
      using old [OF i] m assms(2) by (auto simp: nth_append)
  qed
  then show ?thesis using room c by (simp add: packed_bits_def)
qed


text \<open>The state after the bits \<open>bs\<close>, in a buffer of \<open>n\<close> bytes that begins with \<open>pre\<close>.\<close>

definition packed :: "u8 list \<Rightarrow> nat \<Rightarrow> bool list \<Rightarrow> packer \<Rightarrow> bool" where
  "packed pre n bs s \<longleftrightarrow>
     packed_bits (length pre) bs (pk_mem s) \<and> length (pk_mem s) = n \<and> take (length pre) (pk_mem s) = pre \<and>
     pk_p s = length pre + length bs div 8 \<and> lackBits s = lack8 (length bs) \<and> outSize s = ceil8 (length bs)"

lemma encode_word_packed:
  assumes "packed pre n bs s" "left_aligned z cs" "length pre + length bs div 8 + 9 \<le> n"
  shows "\<exists>s'. encode_word z w (length cs) s = Some s' \<and> packed pre n (bs @ cs) s'"
proof -
  define base where "base = length pre"
  define q r where "q = length bs div 8" and "r = length bs mod 8"
  have bs: "length bs = 8 * q + r" "r < 8" by (simp_all add: q_def r_def)
  have k: "length cs \<le> 64" using assms(2) by (simp add: left_aligned_def)
  have s: "packed_bits base bs (pk_mem s)" "length (pk_mem s) = n" "take base (pk_mem s) = pre"
    "pk_p s = base + q" "lackBits s = lack8 r" "outSize s = q + ceil8 r"
    using assms(1) bs by (simp_all add: packed_def base_def)
  have room: "base + q + 9 \<le> n" using assms(3) by (simp add: base_def q_def)
  have pre: "take base mem' = pre" if "take base mem' = take base (pk_mem s)" for mem'
    using s(3) that by simp
  show ?thesis
  proof (cases "r = 0")
    case True
    let ?mem = "mem_write (pk_mem s) (base + q) (int64ToBytes_bigEndian z)"
    have "packed_bits base (bs @ cs) ?mem"
      using s room bs True assms(2) by (intro packed_store) simp_all
    moreover have "length (bs @ cs) = 8 * q + length cs" using bs True by simp
    moreover have "ceil8 (length cs) \<le> 8" using ceil8_mono [OF k] by (simp add: ceil8_def)
    moreover have "take base ?mem = take base (pk_mem s)" using room s(2) by (simp add: mem_write_def)
    moreover have "lack8 0 = 0" "ceil8 0 = 0" by (simp_all add: lack8_def ceil8_def)
    ultimately show ?thesis
      using s room True pre [of ?mem]
      by (simp add: encode_word_def store_def packed_def Let_def flip: base_def)
  next
    case False
    define l where "l = 8 - r"
    have l: "lack8 r = l" "0 < l" "l < 8" "ceil8 r = 1" using False bs(2) by (auto simp: l_def lack8_def ceil8_def)
    let ?mem = "(pk_mem s)[base + q := pk_mem s ! (base + q) OR ucast (drop_bit (64 - l) z)]"
    have z: "bit z (63 - j) = (j < length cs \<and> cs ! j)" if "j < 8 - r" for j
      using assms(2) that by (simp add: left_aligned_def)
    show ?thesis
    proof (cases "l < length cs")
      case True
      have len: "length (bs @ cs) = 8 * (q + 1) + (length cs - l)" using bs True l by (simp add: l_def)
      let ?mem' = "mem_write ?mem (base + q + 1) (int64ToBytes_bigEndian (push_bit l z))"
      have "packed_bits base (bs @ take l cs) ?mem"
        using packed_or [of base bs "pk_mem s" q r "take l cs" z] s(1) bs False True z by (simp add: l_def)
      moreover have eight: "length (bs @ take l cs) = 8 * (q + 1)" using bs True l by (simp add: l_def)
      ultimately have "packed_bits base ((bs @ take l cs) @ drop l cs) ?mem'"
        using packed_store [of base "bs @ take l cs" ?mem "q + 1" "push_bit l z" "drop l cs"]
          left_aligned_push [OF assms(2), of l] room s(2) True by (simp add: add.assoc)
      then have "packed_bits base (bs @ cs) ?mem'" by simp
      moreover have "take base ?mem' = take base (pk_mem s)" using room s(2) by (simp add: mem_write_def)
      moreover have "lack8 (length (bs @ cs)) = lack8 (length cs - l)"
        "ceil8 (length (bs @ cs)) = q + 1 + ceil8 (length cs - l)"
        "length (bs @ cs) div 8 = q + 1 + (length cs - l) div 8"
        unfolding len lack8_mult ceil8_mult by simp_all
      ultimately show ?thesis
        using s room True k l pre [of ?mem']
        by (simp add: encode_word_def or_byte_def store_def packed_def Let_def add.commute [of base] flip: base_def)
    next
      case short: False
      have "packed_bits base (bs @ cs) ?mem"
        using packed_or [of base bs "pk_mem s" q r cs z] s(1) bs False short z by (simp add: l_def)
      moreover have "take base ?mem = take base (pk_mem s)" by simp
      moreover have "lack8 (length (bs @ cs)) = l - length cs" "ceil8 (length (bs @ cs)) = q + 1"
        "length (bs @ cs) div 8 = (if l = length cs then q + 1 else q)"
      proof -
        have x: "0 < r + length cs" "r + length cs \<le> 8" using False short bs(2) by (simp_all add: l_def)
        have len: "length (bs @ cs) = 8 * q + (r + length cs)" using bs by simp
        have "lack8 (r + length cs) = l - length cs"
          using x bs(2) by (cases "r + length cs = 8") (auto simp: lack8_def l_def)
        then show "lack8 (length (bs @ cs)) = l - length cs" unfolding len lack8_mult .
        show "ceil8 (length (bs @ cs)) = q + 1" unfolding len ceil8_mult using ceil8_small x by simp
        show "length (bs @ cs) div 8 = (if l = length cs then q + 1 else q)"
        proof (cases "r + length cs = 8")
          case True
          then have "l = length cs" using bs(2) by (simp add: l_def)
          then show ?thesis unfolding len True by simp
        next
          case False
          then have "(r + length cs) div 8 = 0" "l \<noteq> length cs" using x bs(2) by (simp_all add: l_def)
          then show ?thesis unfolding len by simp
        qed
      qed
      moreover have "encode_word z w (length cs) s =
          Some (s\<lparr>pk_mem := ?mem, pk_p := (if l = length cs then base + q + 1 else base + q), lackBits := l - length cs\<rparr>)"
        using s(2,4,5) room short l by (simp add: encode_word_def or_byte_def Let_def)
      ultimately show ?thesis
        using s(2,3,6) l(4) by (simp add: packed_def flip: base_def)
    qed
  qed
qed
end
