(* ===== verification/Sz3_Huffman_Pad.thy ===== *)
theory Sz3_Huffman_Pad
  imports Sz3_Huffman_Build
begin

text \<open>
  The tree of \<open>HuffmanEncoder.hpp\<close> in four arrays: \<open>pad_tree\<close> numbers the nodes in preorder, \<open>unpad_tree\<close> builds
  the same tree from the numbers, and the widths 1, 2 and 4 of the indices are enough for the node counts they
  are chosen for.
\<close>

section \<open>The tree in arrays\<close>

fun nodes :: "node \<Rightarrow> nat" where
  "nodes Null = 0"
| "nodes (node_t l r f ty x) = 1 + nodes l + nodes r"

lemma full_nodes: "full n \<Longrightarrow> 0 < nodes n"
  by (cases n) auto

lemma nodes_leaves: "full n \<Longrightarrow> nodes n + 1 = 2 * length (leaf_paths n)"
  by (induction n) (auto split: if_splits)

definition pad_size :: "nat \<Rightarrow> pad_arrays \<Rightarrow> bool" where
  "pad_size cnt a \<longleftrightarrow> length (arr_L a) = cnt \<and> length (arr_R a) = cnt \<and> length (arr_C a) = cnt \<and> length (arr_t a) = cnt"

definition same_at :: "pad_arrays \<Rightarrow> pad_arrays \<Rightarrow> nat \<Rightarrow> bool" where
  "same_at a b j \<longleftrightarrow> arr_L a ! j = arr_L b ! j \<and> arr_R a ! j = arr_R b ! j \<and> arr_C a ! j = arr_C b ! j \<and> arr_t a ! j = arr_t b ! j"

lemma same_at_trans: "same_at a b j \<Longrightarrow> same_at b b2 j \<Longrightarrow> same_at a b2 j"
  by (simp add: same_at_def)

text \<open>The subtree \<open>n\<close> in the entries from \<open>i\<close>, in preorder.\<close>

fun laid :: "pad_arrays \<Rightarrow> nat \<Rightarrow> node \<Rightarrow> bool" where
  "laid a i Null \<longleftrightarrow> False"
| "laid a i (node_t l r f ty x) \<longleftrightarrow>
     arr_C a ! i = x \<and> arr_t a ! i = ty \<and>
     (ty = 0 \<longrightarrow> arr_L a ! i = i + 1 \<and> arr_R a ! i = i + nodes l + 1 \<and>
        laid a (i + 1) l \<and> laid a (i + nodes l + 1) r)"

lemma laid_head: "laid a i n \<Longrightarrow> arr_C a ! i = c n \<and> arr_t a ! i = t n"
  by (cases n) auto

lemma laid_cong:
  assumes "laid a i n" "\<And>j. i \<le> j \<Longrightarrow> j < i + nodes n \<Longrightarrow> same_at a b j"
  shows "laid b i n"
  using assms
proof (induction n arbitrary: i)
  case (node_t l r f ty x)
  have "laid b (i + 1) l" if "ty = 0"
    using node_t.prems that by (intro node_t.IH(1)) auto
  moreover have "laid b (i + nodes l + 1) r" if "ty = 0"
    using node_t.prems that by (intro node_t.IH(2)) auto
  moreover have "same_at a b i" using node_t.prems(2) by simp
  ultimately show ?case using node_t.prems(1) by (auto simp: same_at_def)
qed simp

lemma pad_tree_laid:
  assumes "full n" "pad_size cnt a" "i + nodes n \<le> cnt" "cnt \<le> 2 ^ (8 * w)"
  shows "\<exists>b. pad_tree w i n (a, i) = Some (b, i + nodes n - 1) \<and> pad_size cnt b \<and> laid b i n \<and>
    (\<forall>j. j < i \<or> i + nodes n \<le> j \<longrightarrow> same_at a b j)"
  using assms
proof (induction n arbitrary: a i)
  case (node_t l r f ty x)
  define a1 where "a1 = a\<lparr>arr_C := (arr_C a)[i := x], arr_t := (arr_t a)[i := ty]\<rparr>"
  have i: "i < cnt" using node_t.prems(3) by simp
  have a1: "pad_size cnt a1" "arr_C a1 ! i = x" "arr_t a1 ! i = ty" "\<And>j. j \<noteq> i \<Longrightarrow> same_at a a1 j"
    using node_t.prems(2) i by (auto simp: a1_def pad_size_def same_at_def)
  show ?case
  proof (cases "ty = 0")
    case False
    then have "l = Null" "r = Null" using node_t.prems(1) by auto
    then show ?thesis
      using node_t.prems(2) i a1 False
      by (intro exI [of _ a1]) (auto simp: pad_size_def set_at_def simp flip: a1_def)
  next
    case True
    then have full: "full l" "full r" and ne: "l \<noteq> Null" "r \<noteq> Null" using node_t.prems(1) by auto
    have pos: "0 < nodes l" "0 < nodes r" using full full_nodes by auto
    define a2 where "a2 = a1\<lparr>arr_L := (arr_L a1)[i := i + 1]\<rparr>"
    have a2: "pad_size cnt a2" "arr_C a2 ! i = x" "arr_t a2 ! i = ty" "arr_L a2 ! i = i + 1" "\<And>j. j \<noteq> i \<Longrightarrow> same_at a a2 j"
      using a1 i by (auto simp: a2_def pad_size_def same_at_def)
    obtain b where b: "pad_tree w (i + 1) l (a2, i + 1) = Some (b, i + nodes l)" "pad_size cnt b" "laid b (i + 1) l"
        "\<forall>j. j < i + 1 \<or> i + 1 + nodes l \<le> j \<longrightarrow> same_at a2 b j"
      using node_t.IH(1) [OF full(1) a2(1), of "i + 1"] node_t.prems(3,4) by auto
    define b2 where "b2 = b\<lparr>arr_R := (arr_R b)[i := i + nodes l + 1]\<rparr>"
    have b2: "pad_size cnt b2" "arr_R b2 ! i = i + nodes l + 1" "\<And>j. j \<noteq> i \<Longrightarrow> same_at b b2 j"
        "arr_C b2 ! i = x" "arr_t b2 ! i = ty" "arr_L b2 ! i = i + 1"
      using b(2,4) a2 i by (auto simp: b2_def pad_size_def same_at_def)
    obtain d where d: "pad_tree w (i + nodes l + 1) r (b2, i + nodes l + 1) = Some (d, i + nodes l + nodes r)" "pad_size cnt d"
        "laid d (i + nodes l + 1) r" "\<forall>j. j < i + nodes l + 1 \<or> i + nodes l + 1 + nodes r \<le> j \<longrightarrow> same_at b2 d j"
      using node_t.IH(2) [OF full(2) b2(1), of "i + nodes l + 1"] node_t.prems(3,4) by auto
    have mods: "(i + 1) mod 2 ^ (8 * w) = i + 1" "(i + nodes l + 1) mod 2 ^ (8 * w) = i + nodes l + 1"
      using node_t.prems(3,4) pos by simp_all
    have "pad_tree w i (node_t l r f ty x) (a, i) = Some (d, i + nodes l + nodes r)"
      using node_t.prems(2) i ne b(1,2) d(1) mods
      by (simp add: set_at_def pad_size_def b2_def a2_def a1_def)
    moreover have "laid d (i + 1) l"
    proof (rule laid_cong [OF b(3)])
      fix j assume j: "i + 1 \<le> j" "j < i + 1 + nodes l"
      show "same_at b d j" by (rule same_at_trans [of b b2]) (use j b2(3) d(4) in auto)
    qed
    moreover have "same_at b2 d i" using d(4) by simp
    moreover have "same_at a d j" if "j < i \<or> i + nodes (node_t l r f ty x) \<le> j" for j
    proof -
      have "same_at a a2 j" "same_at a2 b j" "same_at b b2 j" "same_at b2 d j"
        using that a2(5) [of j] b(4) b2(3) [of j] d(4) by auto
      then show ?thesis by (simp add: same_at_def)
    qed
    ultimately show ?thesis
      using d(2,3) b2 by (intro exI [of _ d]) (auto simp: same_at_def)
  qed
qed simp

fun strip :: "node \<Rightarrow> node" where
  "strip Null = Null"
| "strip (node_t l r f ty x) = node_t (strip l) (strip r) 0 ty x"

lemma strip_facts [simp]:
  "strip n = Null \<longleftrightarrow> n = Null" "full (strip n) \<longleftrightarrow> full n" "leaf_paths (strip n) = leaf_paths n"
  "n \<noteq> Null \<Longrightarrow> t (strip n) = t n" "n \<noteq> Null \<Longrightarrow> c (strip n) = c n"
proof -
  show z: "strip n = Null \<longleftrightarrow> n = Null" for n by (cases n) simp_all
  show "full (strip n) \<longleftrightarrow> full n" by (induction n) (simp_all add: z)
  show "leaf_paths (strip n) = leaf_paths n" by (induction n) simp_all
  show "n \<noteq> Null \<Longrightarrow> t (strip n) = t n" "n \<noteq> Null \<Longrightarrow> c (strip n) = c n" by (cases n; simp)+
qed

lemma unpad_tree_laid:
  assumes "laid a i n" "full n" "pad_size cnt a" "i + nodes n \<le> cnt" "nodes n \<le> fuel"
    "n_nodes h + nodes n \<le> 2 * allNodes h + 1"
  shows "unpad_tree fuel a i (node_t Null Null 0 (t n) (c n)) h = Some (strip n, h\<lparr>n_nodes := n_nodes h + nodes n - 1\<rparr>)"
  using assms
proof (induction n arbitrary: i fuel h)
  case (node_t l r f ty x)
  then obtain k where k: "fuel = Suc k" by (cases fuel) auto
  show ?case
  proof (cases "ty = 0")
    case False
    then have "l = Null" "r = Null" using node_t.prems(2) by auto
    then show ?thesis using False k by simp
  next
    case True
    then have full: "full l" "full r" and x: "x = 0" using node_t.prems(2) by auto
    have pos: "0 < nodes l" "0 < nodes r" using full full_nodes by auto
    have a: "arr_L a ! i = Suc i" "arr_R a ! i = Suc (i + nodes l)" "laid a (Suc i) l" "laid a (Suc (i + nodes l)) r"
      using node_t.prems(1) True by auto
    have heads: "arr_C a ! Suc i = c l" "arr_t a ! Suc i = t l"
        "arr_C a ! Suc (i + nodes l) = c r" "arr_t a ! Suc (i + nodes l) = t r"
      using laid_head [OF a(3)] laid_head [OF a(4)] by simp_all
    have szs: "length (arr_L a) = cnt" "length (arr_R a) = cnt" "length (arr_C a) = cnt" "length (arr_t a) = cnt"
      using node_t.prems(3) by (auto simp: pad_size_def)
    have l: "unpad_tree k a (Suc i) (node_t Null Null 0 (t l) (c l)) (h\<lparr>n_nodes := Suc (n_nodes h)\<rparr>) =
        Some (strip l, h\<lparr>n_nodes := n_nodes h + nodes l\<rparr>)"
      using node_t.IH(1) [OF a(3) full(1) node_t.prems(3), of k "h\<lparr>n_nodes := Suc (n_nodes h)\<rparr>"] node_t.prems(4-6) k by simp
    have r: "unpad_tree k a (Suc (i + nodes l)) (node_t Null Null 0 (t r) (c r)) (h\<lparr>n_nodes := Suc (n_nodes h + nodes l)\<rparr>) =
        Some (strip r, h\<lparr>n_nodes := n_nodes h + nodes l + nodes r\<rparr>)"
      using node_t.IH(2) [OF a(4) full(2) node_t.prems(3), of k "h\<lparr>n_nodes := Suc (n_nodes h + nodes l)\<rparr>"] node_t.prems(4-6) k
      by simp
    show ?thesis
      using True x a(1,2) heads szs l r node_t.prems(4,6) pos by (simp add: k new_node2_def)
  qed
qed simp


section \<open>Saving and loading\<close>

definition tree_bytes :: "nat \<Rightarrow> pad_arrays \<Rightarrow> u8 list" where
  "tree_bytes w a = [0] @ index_bytes w (arr_L a) @ index_bytes w (arr_R a) @ array_bytes 4 (arr_C a) @ array_bytes 1 (arr_t a)"

definition low_index :: "nat \<Rightarrow> pad_arrays \<Rightarrow> pad_arrays" where
  "low_index w a = a\<lparr>arr_L := map (\<lambda>x. x mod 2 ^ (8 * w)) (arr_L a), arr_R := map (\<lambda>x. x mod 2 ^ (8 * w)) (arr_R a)\<rparr>"

lemma laid_low_index:
  "laid a i n \<Longrightarrow> full n \<Longrightarrow> pad_size cnt a \<Longrightarrow> i + nodes n \<le> cnt \<Longrightarrow> cnt \<le> 2 ^ (8 * w) \<Longrightarrow> laid (low_index w a) i n"
proof (induction n arbitrary: i)
  case (node_t l r f ty x)
  show ?case
  proof (cases "ty = 0")
    case True
    then have "full l" "full r" using node_t.prems(2) by simp_all
    moreover have "0 < nodes l" "0 < nodes r" using calculation full_nodes by auto
    ultimately show ?thesis
      using node_t True by (simp add: low_index_def pad_size_def)
  qed (use node_t.prems in \<open>simp add: low_index_def\<close>)
qed simp

lemma read_array_low:
  "read_array k (length ws) (array_bytes k (ws :: 'a::len word list) @ bs) = Some (map (take_bit (8 * k)) ws, bs)"
  by (induction ws) (auto simp: of_le_bytes_le_bytes_gen)

lemma read_index_bytes:
  assumes "w \<le> 4" "length ns = n"
  shows "read_index w n (index_bytes w ns @ bs) = Some (map (\<lambda>x. x mod 2 ^ (8 * w)) ns, bs)"
proof -
  have "unat (take_bit (8 * w) (of_nat x :: u32)) = x mod 2 ^ (8 * w)" for x
  proof -
    have "unat (take_bit (8 * w) (of_nat x :: u32)) = take_bit (8 * w) (take_bit 32 x)"
      unfolding unsigned_take_bit_eq unsigned_of_nat by simp
    also have "\<dots> = take_bit (8 * w) x" using assms(1) by (simp add: min_absorb1)
    finally show ?thesis by (simp add: take_bit_eq_mod)
  qed
  then show ?thesis
    using assms(2) read_array_low [of w "map of_nat ns :: u32 list" bs]
    by (simp add: read_index_def index_bytes_def comp_def)
qed

lemma array_bytes_1: "array_bytes 1 (bs :: u8 list) = bs"
  by (induction bs) (simp_all add: le_bytes_def)

lemma index_width_fits: "cnt \<le> 2 ^ 32 \<Longrightarrow> cnt \<le> 2 ^ (8 * index_width cnt)" "index_width cnt \<le> 4" "0 < index_width cnt"
  by (auto simp: index_width_def)

lemma convert_laid:
  assumes "full n" "nodes n = cnt" "cnt \<le> 2 ^ (8 * w)"
  shows "\<exists>a. convert_HuffTree_to_bytes_anyStates w cnt n 0 = Some (tree_bytes w a, cnt - 1) \<and> pad_size cnt a \<and> laid a 0 n"
proof -
  let ?z = "\<lparr>arr_L = replicate cnt 0, arr_R = replicate cnt 0, arr_C = replicate cnt 0, arr_t = replicate cnt 0\<rparr>"
  have "pad_size cnt ?z" by (simp add: pad_size_def)
  from pad_tree_laid [OF assms(1) this, of 0 w] assms(2,3)
  obtain b where "pad_tree w 0 n (?z, 0) = Some (b, cnt - 1)" "pad_size cnt b" "laid b 0 n" by auto
  then show ?thesis
    by (intro exI [of _ b])
      (simp add: convert_HuffTree_to_bytes_anyStates_def tree_bytes_def array_bytes_1 [unfolded One_nat_def])
qed

lemma length_tree_bytes:
  "pad_size cnt a \<Longrightarrow> length (tree_bytes w a) = 1 + 2 * cnt * w + cnt + cnt * 4"
  by (simp add: tree_bytes_def index_bytes_def pad_size_def algebra_simps)

lemma reconstruct_tree_bytes:
  assumes "laid a 0 n" "full n" "pad_size cnt a" "nodes n = cnt" "cnt \<le> 2 ^ 32" "n_nodes h = 0" "cnt \<le> 2 * allNodes h"
  shows "reconstruct_HuffTree_from_bytes_anyStates (tree_bytes (index_width cnt) a @ rest) cnt h =
    Some (strip n, h\<lparr>n_nodes := cnt\<rparr>)"
proof -
  let ?w = "index_width cnt"
  let ?a = "low_index ?w a"
  have pos: "0 < cnt" using full_nodes [OF assms(2)] assms(4) by simp
  have a: "laid ?a 0 n" using laid_low_index assms index_width_fits(1) by simp
  have size: "pad_size cnt ?a" using assms(3) by (simp add: pad_size_def low_index_def)
  have read: "read_array 4 cnt (array_bytes 4 (arr_C a) @ bs) = Some (arr_C a, bs)"
    "read_array 1 cnt (array_bytes 1 (arr_t a) @ bs) = Some (arr_t a, bs)" for bs
    using assms(3) by (simp_all add: pad_size_def)
  have index: "read_index ?w cnt (index_bytes ?w (arr_L a) @ bs) = Some (arr_L ?a, bs)"
    "read_index ?w cnt (index_bytes ?w (arr_R a) @ bs) = Some (arr_R ?a, bs)" for bs
    using assms(3) index_width_fits(2) by (simp_all add: read_index_bytes pad_size_def low_index_def)
  have arrays: "\<lparr>arr_L = arr_L ?a, arr_R = arr_R ?a, arr_C = arr_C a, arr_t = arr_t a\<rparr> = ?a"
    by (simp add: low_index_def)
  have root: "(if cnt \<le> 256 then if cnt = 0 then None else new_node2 (arr_C a ! 0) (arr_t a ! 0) h else new_node2 0 0 h) =
      Some (node_t Null Null 0 (t n) (c n), h\<lparr>n_nodes := 1\<rparr>)"
  proof (cases "cnt \<le> 256")
    case True
    then show ?thesis using laid_head [OF assms(1)] pos assms(6,7) by (simp add: new_node2_def)
  next
    case False
    then have "t n = 0" "c n = 0" using assms(2,4) by (cases n; auto split: if_splits)+
    then show ?thesis using False pos assms(6,7) by (simp add: new_node2_def)
  qed
  have "unpad_tree (2 * allNodes h + 1) ?a 0 (node_t Null Null 0 (t n) (c n)) (h\<lparr>n_nodes := 1\<rparr>) = Some (strip n, h\<lparr>n_nodes := cnt\<rparr>)"
    using unpad_tree_laid [OF a assms(2) size, of "2 * allNodes h + 1" "h\<lparr>n_nodes := 1\<rparr>"] assms(4,7) by simp
  then show ?thesis
    unfolding reconstruct_HuffTree_from_bytes_anyStates_def tree_bytes_def
    using root arrays by (simp add: read [unfolded One_nat_def] index del: unpad_tree.simps)
qed

end
