(* ===== verification/Sz3_Huffman_Coding.thy ===== *)
theory Sz3_Huffman_Coding
  imports Sz3_Huffman_Pack Sz3_Huffman_Pad
begin

text \<open>
  The serialised encoder of \<open>HuffmanEncoder.hpp\<close> and the coded elements: what \<open>save\<close> and \<open>encode\<close> write, \<open>load\<close>
  and \<open>decode\<close> read back.
\<close>

section \<open>The serialised encoder\<close>

lemma save_bytes:
  assumes "convert_HuffTree_to_bytes_anyStates (index_width (nodeCount e)) (nodeCount e) (qq (huffmanTree e) ! 0)
      (n_inode (huffmanTree e)) = Some (bs, inode)"
    "hdr = le_bytes 4 (offset e) @ int32ToBytes_bigEndian (of_nat (nodeCount e)) @
      int32ToBytes_bigEndian (of_nat (stateNum (huffmanTree e) div 2)) @ bs"
    "p + length hdr \<le> length mem"
  shows "HuffmanEncoder_save e (mem, p) =
    Some (e\<lparr>huffmanTree := (huffmanTree e)\<lparr>n_inode := inode\<rparr>\<rparr>, mem_write mem p hdr, p + length hdr)"
proof -
  let ?f = "\<lambda>c. Option.bind (write_var (offset e) c) (\<lambda>c. Option.bind (write_bytes (int32ToBytes_bigEndian (of_nat (nodeCount e))) c)
    (\<lambda>c. Option.bind (write_bytes (int32ToBytes_bigEndian (of_nat (stateNum (huffmanTree e) div 2))) c) (write_bytes bs)))"
  have "emits (write_var (offset e)) (le_bytes 4 (offset e))" using emits_var [of "offset e"] by simp
  then have "emits ?f hdr" unfolding assms(2) by (intro emits_intros)
  moreover have "HuffmanEncoder_save e c = map_option (\<lambda>c. (e\<lparr>huffmanTree := (huffmanTree e)\<lparr>n_inode := inode\<rparr>\<rparr>, c)) (?f c)" for c
    by (simp add: HuffmanEncoder_save_def assms(1) split: Option.bind_split option.split)
  ultimately show ?thesis using emitsD [OF _ assms(3)] by simp
qed

text \<open>Encoding does not depend on the counter.\<close>

lemma encode_loop_inode:
  "encode_loop (e\<lparr>huffmanTree := (huffmanTree e)\<lparr>n_inode := k\<rparr>\<rparr>) bins = encode_loop e bins"
proof (induction bins)
  case (Cons b bins)
  then show ?case by (intro ext) (simp add: Let_def)
qed (simp add: fun_eq_iff)

lemma huffman_encode_inode:
  "HuffmanEncoder_encode (e\<lparr>huffmanTree := (huffmanTree e)\<lparr>n_inode := k\<rparr>\<rparr>) bins pos = HuffmanEncoder_encode e bins pos"
  by (simp add: HuffmanEncoder_encode_def encode_loop_inode)

lemma even_half: "s < 2 ^ 32 \<Longrightarrow> unat (of_nat (s div 2) * 2 :: u32) = 2 * (s div 2)"
proof -
  assume "s < 2 ^ 32"
  then have "2 * (s div 2) < 2 ^ LENGTH(32)" by simp
  then have "unat (of_nat (2 * (s div 2)) :: u32) = 2 * (s div 2)"
    unfolding unat_of_nat by (rule mod_less)
  then show ?thesis by (simp add: mult.commute)
qed

lemma load_tree:
  assumes "laid a 0 n" "full n" "pad_size cnt a" "nodes n = cnt" "cnt < 2 ^ 32" "s < 2 ^ 32" "cnt \<le> 8 * (s div 2)" "4 \<le> remaining"
  shows "HuffmanEncoder_load (le_bytes 4 off @ int32ToBytes_bigEndian (of_nat cnt) @ int32ToBytes_bigEndian (of_nat (s div 2)) @
      tree_bytes (index_width cnt) a @ rest) remaining =
    Some (\<lparr>huffmanTree = (createHuffmanTree (2 * (s div 2)))\<lparr>n_nodes := cnt\<rparr>, treeRoot = strip n, nodeCount = cnt, offset = off, loaded = True\<rparr>,
          rest, remaining - 4)"
proof -
  let ?h = "createHuffmanTree (2 * (s div 2))"
  have rec: "reconstruct_HuffTree_from_bytes_anyStates (tree_bytes (index_width cnt) a @ rest) cnt ?h =
      Some (strip n, ?h\<lparr>n_nodes := cnt\<rparr>)"
    using assms by (intro reconstruct_tree_bytes) (simp_all add: createHuffmanTree_def)
  have off: "read_var (le_bytes 4 off @ bs) = Some (off, bs)" for bs
    using read_var_write [of off bs] by simp
  have cnt: "unat (of_nat cnt :: u32) = cnt" using assms(5) by (simp add: unat_of_nat take_bit_nat_eq_self)
  have drop: "drop (8 + (1 + 2 * cnt * index_width cnt + cnt + cnt * 4))
      (int32ToBytes_bigEndian x @ int32ToBytes_bigEndian y @ tree_bytes (index_width cnt) a @ rest) = rest" for x y
    using length_tree_bytes [OF assms(3)] by simp
  have drops: "drop 4 (int32ToBytes_bigEndian x @ bs) = bs" "drop 8 (int32ToBytes_bigEndian x @ int32ToBytes_bigEndian y @ bs) = bs" for x y bs
    by simp_all
  show ?thesis
    unfolding HuffmanEncoder_load_def read_var_rem_def
    using assms(8) rec drop by (simp add: off cnt even_half [OF assms(6)] drops)
qed

section \<open>Encoding\<close>

definition coded :: "huffman_encoder \<Rightarrow> (int32 \<Rightarrow> bool list) \<Rightarrow> int32 \<Rightarrow> bool" where
  "coded e cw b \<longleftrightarrow>
     (let i = unat (b - offset e); h = huffmanTree e
      in i < length (cout h) \<and> i < length (code h) \<and> unat (cout h ! i) = length (cw b) \<and>
         (\<exists>z w. code h ! i = Some (z, w) \<and> left_aligned z (cw b)))"

lemma encode_loop_packed:
  assumes "packed pre n bs s" "\<forall>b \<in> set bins. coded e cw b" "length pre + length (bs @ concat (map cw bins)) div 8 + 9 \<le> n"
  shows "\<exists>s'. encode_loop e bins s = Some s' \<and> packed pre n (bs @ concat (map cw bins)) s'"
  using assms
proof (induction bins arbitrary: bs s)
  case (Cons b bins)
  obtain z w where b: "unat (b - offset e) < length (cout (huffmanTree e))" "unat (b - offset e) < length (code (huffmanTree e))"
      "unat (cout (huffmanTree e) ! unat (b - offset e)) = length (cw b)"
      "code (huffmanTree e) ! unat (b - offset e) = Some (z, w)" "left_aligned z (cw b)"
    using Cons.prems(2) by (auto simp: coded_def Let_def)
  have "length bs div 8 \<le> length (bs @ concat (map cw (b # bins))) div 8" by (rule div_le_mono) simp
  then have "length pre + length bs div 8 + 9 \<le> n" using Cons.prems(3) by simp
  then obtain s1 where s1: "encode_word z w (length (cw b)) s = Some s1" "packed pre n (bs @ cw b) s1"
    using encode_word_packed [OF Cons.prems(1) b(5)] by blast
  have "\<exists>s'. encode_loop e bins s1 = Some s' \<and> packed pre n ((bs @ cw b) @ concat (map cw bins)) s'"
    using Cons.prems(2,3) by (intro Cons.IH [OF s1(2)]) simp_all
  then show ?case using b s1(1) by auto
qed simp

text \<open>For constant data the only code is empty; its word, the result of a shift by 64, is written and then
  counted as no byte.\<close>

lemma encode_loop_constant:
  assumes "packed pre n [] s" "length pre + 9 \<le> n" "cout (huffmanTree e) ! 0 = 0" "code (huffmanTree e) ! 0 = Some (z, w)"
    "0 < length (cout (huffmanTree e))" "0 < length (code (huffmanTree e))" "\<forall>b \<in> set bins. b = offset e"
  shows "\<exists>s'. encode_loop e bins s = Some s' \<and> packed pre n [] s'"
  using assms(1,7)
proof (induction bins arbitrary: s)
  case (Cons b bins)
  have zero: "lack8 0 = 0" "ceil8 0 = 0" by (simp_all add: lack8_def ceil8_def)
  have "\<exists>s1. encode_word z w 0 s = Some s1 \<and> packed pre n [] s1"
    using Cons.prems(1) assms(2) zero
    by (auto simp: packed_def encode_word_def store_def packed_bits_def mem_write_def Let_def)
  then obtain s1 where s1: "encode_word z w 0 s = Some s1" "packed pre n [] s1" by blast
  have "b = offset e" using Cons.prems(2) by simp
  then show ?case using assms(3-6) s1 Cons.IH [OF s1(2)] Cons.prems(2) by simp
qed simp

lemma huffman_encode_packed:
  assumes "p + 8 \<le> length mem"
    "\<And>s. packed (take (p + 8) mem) (length mem) [] s \<Longrightarrow>
       \<exists>s'. encode_loop e bins s = Some s' \<and> packed (take (p + 8) mem) (length mem) bits s'"
  shows "\<exists>mem' bytes. HuffmanEncoder_encode e bins (mem, p) = Some (mem', p + 8 + ceil8 (length bits)) \<and>
    length mem' = length mem \<and> take p mem' = take p mem \<and>
    drop p mem' = le_bytes 8 (of_nat (ceil8 (length bits)) :: u64) @ bytes \<and>
    ceil8 (length bits) \<le> length bytes \<and> (\<forall>i < length bits. stream_bit bytes i = bits ! i)"
proof -
  let ?s = "\<lparr>pk_mem = mem, pk_p = p + 8, lackBits = 0, outSize = 0, byteSize = None\<rparr>"
  have "packed (take (p + 8) mem) (length mem) [] ?s"
    using assms(1) by (simp add: packed_def packed_bits_def lack8_def ceil8_def min_absorb2)
  from assms(2) [OF this] obtain s' where s': "encode_loop e bins ?s = Some s'"
      "packed (take (p + 8) mem) (length mem) bits s'" by blast
  let ?n = "ceil8 (length bits)"
  let ?mem = "mem_write (pk_mem s') p (le_bytes 8 (of_nat ?n :: u64))"
  have len: "length (pk_mem s') = length mem" "outSize s' = ?n" using s'(2) by (simp_all add: packed_def)
  have "HuffmanEncoder_encode e bins (mem, p) = Some (?mem, p + 8 + ?n)"
    using s'(1) len assms(1) by (simp add: HuffmanEncoder_encode_def store_def)
  moreover have "take p ?mem = take p mem"
  proof -
    have "take p (take (p + 8) (pk_mem s')) = take p (take (p + 8) mem)"
      using s'(2) assms(1) by (simp add: packed_def min_absorb2)
    then show ?thesis using len assms(1) by (simp add: mem_write_def)
  qed
  moreover have "drop p ?mem = le_bytes 8 (of_nat ?n :: u64) @ drop (p + 8) (pk_mem s')"
    using len assms(1) by (simp add: drop_mem_write)
  moreover have "?n \<le> length (drop (p + 8) (pk_mem s'))"
    "\<forall>i < length bits. stream_bit (drop (p + 8) (pk_mem s')) i = bits ! i"
    using s'(2) len assms(1) ceil8_bound(1) [of "length bits"] by (auto simp: packed_def packed_bits_def min_absorb2)
  ultimately show ?thesis
    using len assms(1) by (intro exI [of _ ?mem] exI [of _ "drop (p + 8) (pk_mem s')"]) simp
qed

section \<open>Decoding\<close>

lemma decode_path:
  assumes "full n" "(x, path) \<in> set (leaf_paths n)" "path \<noteq> []"
    "\<And>j. j < length path \<Longrightarrow> stream_bit bytes (i + j) = path ! j" "i + length path \<le> 8 * length bytes" "0 < k"
  shows "decode_loop root off bytes n i k =
    map_option (\<lambda>out. (x + off) # out) (decode_loop root off bytes root (i + length path) (k - 1))"
  using assms
proof (induction n arbitrary: path i)
  case (node_t l r f ty y)
  obtain b rest where path: "path = b # rest" using node_t.prems(3) by (cases path) auto
  define m where "m = (if b then r else l)"
  have ty: "ty = 0" "full m" and leaf: "(x, rest) \<in> set (leaf_paths m)"
    using node_t.prems(1,2) path by (auto simp: m_def split: if_splits)
  have step: "decode_loop root off bytes (node_t l r f ty y) i k =
      (if t m \<noteq> 0 then map_option (\<lambda>out. (c m + off) # out) (decode_loop root off bytes root (i + 1) (k - 1))
       else decode_loop root off bytes m (i + 1) k)"
  proof -
    have "stream_bit bytes i = b" using node_t.prems(4) [of 0] path by simp
    moreover have "i div 8 < length bytes" using node_t.prems(5) path by simp
    moreover have "m \<noteq> Null" using ty(2) by auto
    ultimately show ?thesis
      using node_t.prems(6) by (subst decode_loop.simps) (cases b; simp add: m_def)
  qed
  show ?case
  proof (cases "rest = []")
    case True
    then have "t m \<noteq> 0" "c m = x" using leaf by (cases m; auto split: if_splits)+
    then show ?thesis using step path True by simp
  next
    case False
    then have tm: "t m = 0" using leaf by (cases m) (auto split: if_splits)
    have bits: "stream_bit bytes (i + 1 + j) = rest ! j" if "j < length rest" for j
      using node_t.prems(4) [of "Suc j"] path that by simp
    have "i + 1 + length rest \<le> 8 * length bytes" using node_t.prems(5) path by simp
    then have "decode_loop root off bytes m (i + 1) k =
        map_option (\<lambda>out. (x + off) # out) (decode_loop root off bytes root (i + 1 + length rest) (k - 1))"
      using node_t.IH [OF _ _ False bits _ node_t.prems(6)] ty(2) leaf by (cases b) (simp_all add: m_def)
    then show ?thesis using step tm path by simp
  qed
qed simp

lemma decode_loop_paths:
  assumes "full root" "t root = 0" "\<forall>b \<in> set bins. (b - off, cw b) \<in> set (leaf_paths root)"
    "\<And>j. j < length (concat (map cw bins)) \<Longrightarrow> stream_bit bytes (i + j) = concat (map cw bins) ! j"
    "i + length (concat (map cw bins)) \<le> 8 * length bytes"
  shows "decode_loop root off bytes root i (length bins) = Some bins"
  using assms(3-)
proof (induction bins arbitrary: i)
  case Nil
  then show ?case by (simp add: decode_loop.simps)
next
  case (Cons b bins)
  have "(b - off, cw b) \<in> set (leaf_paths root)" using Cons.prems(1) by simp
  moreover have "cw b \<noteq> []" using calculation assms(1,2) by (cases root) auto
  moreover have "stream_bit bytes (i + j) = cw b ! j" if "j < length (cw b)" for j
    using Cons.prems(2) [of j] that by (simp add: nth_append)
  ultimately have step: "decode_loop root off bytes root i (length (b # bins)) =
      map_option (\<lambda>out. (b - off + off) # out) (decode_loop root off bytes root (i + length (cw b)) (length (b # bins) - 1))"
    using Cons.prems(3) by (intro decode_path [OF assms(1)]) simp_all
  have "decode_loop root off bytes root (i + length (cw b)) (length bins) = Some bins"
  proof (rule Cons.IH)
    fix j assume "j < length (concat (map cw bins))"
    then show "stream_bit bytes (i + length (cw b) + j) = concat (map cw bins) ! j"
      using Cons.prems(2) [of "length (cw b) + j"] by (simp add: nth_append add.assoc)
  qed (use Cons.prems in simp_all)
  then show ?case using step by simp
qed

end
