(* ===== verification/Sz3_Huffman_Roundtrip.thy ===== *)
theory Sz3_Huffman_Roundtrip
  imports Sz3_Huffman_Coding
begin

text \<open>
  The round trip of SZ3's Huffman encoder: the tree and the codes of an input, and the composition of
  \<open>preprocess_encode\<close>, \<open>save\<close>, \<open>encode\<close>, \<open>load\<close> and \<open>decode\<close>.
\<close>

section \<open>The tree of an input\<close>

lemma key_bounds_extremes:
  assumes "key_bounds s0 keys = (mx, off)"
  shows "off \<in> insert s0 (set keys)" "\<And>k. k \<in> insert s0 (set keys) \<Longrightarrow> sint off \<le> sint k \<and> sint k \<le> sint mx"
    "mx \<in> insert s0 (set keys)"
proof -
  have "off \<in> insert s0 (set keys) \<and> mx \<in> insert s0 (set keys) \<and> (\<forall>k \<in> insert s0 (set keys). sint off \<le> sint k \<and> sint k \<le> sint mx)"
    using assms
  proof (induction keys arbitrary: mx off rule: rev_induct)
    case (snoc x keys)
    obtain m f where mf: "key_bounds s0 keys = (m, f)" by fastforce
    from snoc.IH [OF mf] snoc.prems mf show ?case
      by (auto simp: key_bounds_def split: if_splits)
  qed (auto simp: key_bounds_def)
  then show "off \<in> insert s0 (set keys)" "mx \<in> insert s0 (set keys)"
    "\<And>k. k \<in> insert s0 (set keys) \<Longrightarrow> sint off \<le> sint k \<and> sint k \<le> sint mx" by auto
qed

lemma unat_diff_signed:
  assumes "sint off \<le> sint (v :: int32)"
  shows "unat (v - off) = nat (sint v - sint off)"
proof -
  have "v - off = word_of_int (sint v - sint off)" by simp
  then have "uint (v - off) = (sint v - sint off) mod 2 ^ 32"
    using uint_word_of_int [of "sint v - sint off", where 'a = 32] by simp
  moreover have "0 \<le> sint v - sint off" "sint v - sint off < 2 ^ 32"
    using assms sint_ge [of off] sint_lt [of v] by auto
  ultimately show ?thesis unfolding unat_eq_nat_uint by simp
qed

lemma sz_tree:
  assumes "iteration_order ord" "bins \<noteq> []" "length bins < 2 ^ 31" "card (set bins) \<le> n"
  obtains root h where "insert_leaves off (ord (count_freq bins)) (createHuffmanTree n) = Some h"
    "merge_loop rl (length (qq h)) h = Some ((createHuffmanTree n)\<lparr>n_nodes := 2 * card (set bins) - 1, qq := [root]\<rparr>)"
    "full root" "tree_height (absn root) \<le> 44"
    "mset (tree_leaves (absn root)) = mset (map (\<lambda>(v, n). (v - off, int n)) (count_freq bins))"
    "huf_ok (absn root)" "huf_cnt (absn root) = int (length bins)"
proof -
  let ?fs = "ord (count_freq bins)" and ?h = "createHuffmanTree n"
  note ord = iteration_orderD [OF assms(1), of "count_freq bins"]
  have len: "length ?fs = card (set bins)" using ord(2) length_count_freq by simp
  have pos: "\<forall>(v, n) \<in> set ?fs. 0 < n"
    using ord(3) by (auto simp: count_freq_set count_list_0_iff intro: Nat.gr0I)
  have "\<exists>q. insert_leaves off ?fs ?h = Some (?h\<lparr>n_nodes := n_nodes ?h + length ?fs, qq := q\<rparr>) \<and>
      is_heap node_key q \<and> mset q = mset (qq ?h) + mset (map (leaf_node off) ?fs)"
    by (rule insert_leaves_ok) (use sz_heap.empty_ok pos len assms(4) in \<open>simp_all add: createHuffmanTree_def sz_queue_def\<close>)
  then obtain q where q: "insert_leaves off ?fs ?h = Some (?h\<lparr>n_nodes := card (set bins), qq := q\<rparr>)"
      "is_heap node_key q" "mset q = mset (map (leaf_node off) ?fs)"
    using len by (auto simp: createHuffmanTree_def)
  let ?h1 = "?h\<lparr>n_nodes := card (set bins), qq := q\<rparr>"
  have lq: "length q = card (set bins)" using arg_cong [OF q(3), of size] len by simp
  have mset_q: "mset q = image_mset (leaf_node off) (mset (count_freq bins))" unfolding q(3) mset_map ord(1) ..
  have sq: "set q = leaf_node off ` set (count_freq bins)" using arg_cong [OF mset_q, of set_mset] by simp
  let ?M = "image_mset absn (mset q)"
  have M: "?M = image_mset (\<lambda>f. HufLeaf (fst f - off) (int (snd f))) (mset (count_freq bins))"
    unfolding mset_q image_mset.compositionality by (simp add: comp_def)
  have sum: "(\<Sum>t \<in># ?M. huf_cnt t) = int (length bins)"
  proof -
    have s: "(\<Sum>f \<in># mset xs. int (snd f)) = int (sum_list (map snd xs))" for xs :: "(int32 \<times> nat) list"
      by (induction xs) auto
    have "(\<Sum>t \<in># ?M. huf_cnt t) = (\<Sum>f \<in># mset (count_freq bins). int (snd f))"
      unfolding M image_mset.compositionality by (simp add: comp_def)
    then show ?thesis unfolding s by (simp add: count_freq_sum)
  qed
  have leaves: "forest_leaves ?M = mset (map (\<lambda>(v, n). (v - off, int n)) (count_freq bins))"
    unfolding M forest_leaves_def image_mset.compositionality by (simp add: comp_def case_prod_unfold)
  have pos': "0 < n" if "(v, n) \<in> set (count_freq bins)" for v n using pos that ord(3) by auto
  then have "forest_ok ?M"
    using sum assms(3) unfolding forest_ok_def M by (auto simp: Suc_le_eq)
  moreover have "q \<noteq> []" using lq assms(2) by auto
  moreover have "\<forall>n \<in> set q. full n" unfolding sq by auto
  ultimately have "\<exists>root. merge_loop rl (length q) ?h1 =
      Some (?h1\<lparr>n_nodes := n_nodes ?h1 + length (qq ?h1) - 1, qq := [root]\<rparr>) \<and> merged ?h1 root"
    using q(2) lq assms(4) by (intro merge_loop_ok) (simp_all add: createHuffmanTree_def)
  then obtain root where root: "merge_loop rl (length q) ?h1 = Some (?h\<lparr>n_nodes := 2 * card (set bins) - 1, qq := [root]\<rparr>)"
      "full root" "huf_ok (absn root)" "mset (tree_leaves (absn root)) = forest_leaves ?M" "huf_cnt (absn root) = int (length bins)"
    using lq sum by (auto simp: merged_def mult_2)
  show thesis
    using that [OF q(1)] root huf_ok_height31 [OF root(3)] assms(3) leaves by simp
qed


text \<open>What the encoder has after \<open>preprocess_encode\<close>.\<close>

definition prepared :: "int32 list \<Rightarrow> huffman_encoder \<Rightarrow> node \<Rightarrow> (int32 \<Rightarrow> bool list) \<Rightarrow> bool" where
  "prepared bins e root cw \<longleftrightarrow>
     full root \<and> qq (huffmanTree e) = [root] \<and> treeRoot e = root \<and> n_inode (huffmanTree e) = 0 \<and>
     nodeCount e = nodes root \<and> nodes root \<le> 2 * stateNum (huffmanTree e) \<and>
     nodes root + 1 = 2 * card (set bins) \<and> 2 \<le> stateNum (huffmanTree e) \<and> stateNum (huffmanTree e) < 2 ^ 31 \<and>
     (\<forall>b \<in> set bins. (b - offset e, cw b) \<in> set (leaf_paths root)) \<and> (\<forall>b \<in> set bins. length (cw b) \<le> 44) \<and>
     (\<forall>b \<in> set bins. count_list bins b * length (cw b) \<le> length bins) \<and>
     (if t root = 0 then \<forall>b \<in> set bins. coded e cw b
      else (\<forall>b \<in> set bins. b = offset e \<and> cw b = []) \<and> cout (huffmanTree e) ! 0 = 0 \<and> code (huffmanTree e) ! 0 \<noteq> None \<and>
        cout (huffmanTree e) \<noteq> [] \<and> code (huffmanTree e) \<noteq> [])"

lemma tree_values:
  assumes "full root" "mset (tree_leaves (absn root)) = mset (map (\<lambda>(v, n). (v - off, int n)) (count_freq bins))"
  shows "fst ` set (leaf_paths root) = (\<lambda>v. v - off) ` set bins" "distinct (map fst (leaf_paths root))"
    "length (leaf_paths root) = card (set bins)"
proof -
  have "mset (map fst (tree_leaves (absn root))) = mset (map fst (map (\<lambda>(v, n). (v - off, int n)) (count_freq bins)))"
    unfolding mset_map [of fst] assms(2) ..
  then have m: "mset (map fst (leaf_paths root)) = mset (map (\<lambda>v. v - off) (map fst (count_freq bins)))"
    unfolding leaf_paths_values [OF assms(1)] by (simp add: comp_def case_prod_unfold)
  show "fst ` set (leaf_paths root) = (\<lambda>v. v - off) ` set bins"
    using mset_eq_setD [OF m] unfolding set_map count_freq_keys .
  have "distinct (map (\<lambda>v. v - off) (map fst (count_freq bins)))"
    unfolding distinct_map [of "\<lambda>v. v - off"] using count_freq_distinct [of bins] by (simp add: inj_on_def)
  then show "distinct (map fst (leaf_paths root))" using mset_eq_imp_distinct_iff [OF m] by blast
  show "length (leaf_paths root) = card (set bins)"
    using mset_eq_length [OF m] length_count_freq by simp
qed

text \<open>A frequent value has a short code.\<close>

lemma code_weight:
  assumes "full root" "mset (tree_leaves (absn root)) = mset (map (\<lambda>(v, n). (v - off, int n)) (count_freq bins))"
    "huf_ok (absn root)" "huf_cnt (absn root) = int (length bins)" "(b - off, bs) \<in> set (leaf_paths root)" "b \<in> set bins"
  shows "count_list bins b * length bs \<le> length bins"
proof -
  have "(b - off, length bs) \<in> set (map (\<lambda>(v, w, d). (v, d)) (leaf_depths (absn root)))"
    unfolding leaf_depths_paths [OF assms(1)] using assms(5) by force
  then obtain w where w: "(b - off, w, length bs) \<in> set (leaf_depths (absn root))" by auto
  then have "(b - off, w) \<in> set (tree_leaves (absn root))"
    unfolding leaf_depths_leaves [symmetric] by force
  then have "(b - off, w) \<in> set (map (\<lambda>(v, n). (v - off, int n)) (count_freq bins))"
    unfolding mset_eq_setD [OF assms(2)] .
  then have "w = int (count_list bins b)" by (auto simp: count_freq_set)
  then have "int (count_list bins b) * int (fib (Suc (length bs))) \<le> int (length bins)"
    using leaf_depth_weight [OF assms(3) w] assms(4) by simp
  then have "count_list bins b * fib (Suc (length bs)) \<le> length bins"
    unfolding of_nat_mult [symmetric] of_nat_le_iff .
  then show ?thesis using mult_le_mono2 [OF fib_ge] order_trans by blast
qed

lemma sz_preprocess:
  assumes "iteration_order ord" "bins \<noteq> []" "length bins < 2 ^ 31"
    "\<forall>a \<in> set bins. \<forall>b \<in> set bins. sint a - sint b < 2 ^ 31 - 2"
  obtains e root cw where "HuffmanEncoder_preprocess_encode undef rl ord bins = Some e" "prepared bins e root cw"
proof -
  let ?fs = "ord (count_freq bins)"
  obtain mx off where kb: "key_bounds (bins ! 0) (map fst ?fs) = (mx, off)" by fastforce
  have keys: "insert (bins ! 0) (set (map fst ?fs)) = set bins"
    using iteration_orderD(3) [OF assms(1)] assms(2) count_freq_keys by auto
  note ext = key_bounds_extremes [OF kb, unfolded keys]
  define n where "n = nat (sint mx - sint off + 2)"
  have n: "sint mx - sint off + 2 < 2 ^ 31" "2 \<le> n" "n < 2 ^ 31" "sint mx - sint off + 2 = int n"
    using ext(1,3) ext(2) [OF ext(1)] assms(4) by (force simp: n_def)+
  have fit: "unat (b - off) < n - 1" if "b \<in> set bins" for b
    using unat_diff_signed [of off b] ext(2) [OF that] n(2,4) by linarith
  have "(\<lambda>b. unat (b - off)) ` set bins \<subseteq> {..<n - 1}" using fit by auto
  moreover have inj: "inj_on (\<lambda>b. unat (b - off)) (set bins)"
    by (auto simp: inj_on_def simp flip: word_unat_eq_iff)
  ultimately have card: "card (set bins) \<le> n - 1" using card_inj_on_le [OF inj, of "{..<n - 1}"] by simp
  then have "card (set bins) \<le> n" by simp
  from sz_tree [OF assms(1-3) this, of off rl] obtain root h where tr:
    "insert_leaves off ?fs (createHuffmanTree n) = Some h"
    "merge_loop rl (length (qq h)) h = Some ((createHuffmanTree n)\<lparr>n_nodes := 2 * card (set bins) - 1, qq := [root]\<rparr>)"
    "full root" "tree_height (absn root) \<le> 44"
    "mset (tree_leaves (absn root)) = mset (map (\<lambda>(v, n). (v - off, int n)) (count_freq bins))"
    "huf_ok (absn root)" "huf_cnt (absn root) = int (length bins)" by blast
  note vals = tree_values [OF tr(3,5)]
  let ?tab = "foldl (put_code undef []) (replicate n None, replicate n 0) (leaf_paths root)"
  define h2 where "h2 = (createHuffmanTree n)\<lparr>n_nodes := 2 * card (set bins) - 1, qq := [root], code := fst ?tab, cout := snd ?tab\<rparr>"
  have inn: "unat x < n" if "(x, bs) \<in> set (leaf_paths root)" for x bs
  proof -
    have "x \<in> (\<lambda>v. v - off) ` set bins" using that vals(1) by force
    then show ?thesis using fit by fastforce
  qed
  have "build_code undef root 0 0 0 (replicate n None, replicate n 0) = Some ?tab"
    using build_code_paths [OF tr(3), of "[]" "(replicate n None, replicate n 0)" undef] tr(4) inn
    by (auto simp: of_bits_def)
  moreover have dist: "distinct (map (\<lambda>p. unat (fst p)) (leaf_paths root))"
    using vals(2) by (simp add: distinct_map inj_on_def flip: word_unat_eq_iff)
  then have cnt: "length (filter (\<lambda>w. w \<noteq> None) (fst ?tab)) = card (set bins)"
    unfolding vals(3) [symmetric] using inn by (intro put_code_count) auto
  ultimately have e: "HuffmanEncoder_preprocess_encode undef rl ord bins =
      Some \<lparr>huffmanTree = h2, treeRoot = root, nodeCount = card (set bins) * 2 - 1, offset = off, loaded = False\<rparr>" (is "_ = Some ?e")
    using assms(2) kb n(1,4) tr(1,2)
    by (simp add: HuffmanEncoder_preprocess_encode_def HuffmanEncoder_init_def h2_def createHuffmanTree_def case_prod_unfold)
  define cw where "cw b = the (map_of (leaf_paths root) (b - off))" for b
  have cw: "(b - off, cw b) \<in> set (leaf_paths root)" if "b \<in> set bins" for b
  proof -
    have "b - off \<in> fst ` set (leaf_paths root)" using that vals(1) by auto
    then obtain p where "map_of (leaf_paths root) (b - off) = Some p" by (metis not_None_eq map_of_eq_None_iff)
    then show ?thesis by (simp add: cw_def map_of_SomeD)
  qed
  have short: "length (cw b) \<le> 44" if "b \<in> set bins" for b
    using leaf_paths_length [OF tr(3) cw [OF that]] tr(4) by simp
  have weight: "count_list bins b * length (cw b) \<le> length bins" if "b \<in> set bins" for b
    by (rule code_weight [OF tr(3,5-7) cw [OF that] that])
  have entry: "fst ?tab ! unat (b - off) = Some (shl64 undef (of_bits (cw b)) (64 - length (cw b)), 0)"
    "snd ?tab ! unat (b - off) = of_nat (length (cw b))" if "b \<in> set bins" for b
    using put_code_found [OF dist cw [OF that], of "(replicate n None, replicate n 0)" undef "[]"] inn [OF cw [OF that]] by simp_all
  have coded: "coded ?e cw b" if "b \<in> set bins" "cw b \<noteq> []" for b
  proof -
    have "shl64 undef (of_bits (cw b)) (64 - length (cw b)) = push_bit (64 - length (cw b)) (of_bits (cw b))"
      using that(2) by (simp add: shl64_def)
    moreover have "left_aligned (push_bit (64 - length (cw b)) (of_bits (cw b))) (cw b)"
      using short [OF that(1)] by (intro left_aligned_code) simp
    moreover have "unat (of_nat (length (cw b)) :: u8) = length (cw b)"
      using short [OF that(1)] by (simp add: unat_of_nat take_bit_nat_eq_self)
    ultimately show ?thesis
      using entry [OF that(1)] inn [OF cw [OF that(1)]] by (simp add: coded_def h2_def createHuffmanTree_def)
  qed
  have nodes: "nodeCount ?e = nodes root" "nodes root \<le> 2 * n" "nodes root + 1 = 2 * card (set bins)"
    using nodes_leaves [OF tr(3)] vals(3) card by simp_all
  have "prepared bins ?e root cw"
  proof (cases "t root = 0")
    case True
    then have "cw b \<noteq> []" if "b \<in> set bins" for b using cw [OF that] tr(3) by (cases root) auto
    then show ?thesis
      using True tr(3) n(2,3) nodes cw short weight coded
      by (simp add: prepared_def) (simp add: h2_def createHuffmanTree_def)
  next
    case False
    then have root: "leaf_paths root = [(c root, [])]" using tr(3) by (cases root) (auto split: if_splits)
    have "c root = 0" using cw [OF ext(1)] by (simp add: root)
    then have const: "b = off \<and> cw b = []" if "b \<in> set bins" for b using cw [OF that] by (auto simp: root)
    have "fst ?tab ! 0 \<noteq> None" "snd ?tab ! 0 = 0" using entry [OF ext(1)] const [OF ext(1)] by simp_all
    moreover have "fst ?tab \<noteq> []" "snd ?tab \<noteq> []"
      using n(2) put_code_length [of undef "[]" "(replicate n None, replicate n 0)" "leaf_paths root"] by force+
    ultimately show ?thesis
      using False tr(3) n(2,3) nodes cw short weight const
      by (simp add: prepared_def) (simp add: h2_def createHuffmanTree_def)
  qed
  then show thesis using that e by blast
qed


section \<open>The round trip\<close>

text \<open>The bytes of a saved encoder.\<close>

lemma prepared_save:
  assumes "prepared bins e root cw"
  obtains bs where "length bs = HuffmanEncoder_size_est (nodeCount e)"
    "\<And>mem p. p + length bs \<le> length mem \<Longrightarrow> HuffmanEncoder_save e (mem, p) =
       Some (e\<lparr>huffmanTree := (huffmanTree e)\<lparr>n_inode := nodes root - 1\<rparr>\<rparr>, mem_write mem p bs, p + length bs)"
    "\<And>rest remaining. 4 \<le> remaining \<Longrightarrow> HuffmanEncoder_load (bs @ rest) remaining =
       Some (\<lparr>huffmanTree = (createHuffmanTree (2 * (stateNum (huffmanTree e) div 2)))\<lparr>n_nodes := nodes root\<rparr>,
              treeRoot = strip root, nodeCount = nodes root, offset = offset e, loaded = True\<rparr>, rest, remaining - 4)"
proof -
  note p = assms(1) [unfolded prepared_def]
  let ?n = "nodes root" and ?s = "stateNum (huffmanTree e)"
  have small: "?n < 2 ^ 32" "?s < 2 ^ 32" using p by auto
  have pool: "?n \<le> 8 * (?s div 2)" using p by linarith
  from convert_laid [of root ?n "index_width ?n"] p small index_width_fits(1) [of ?n]
  obtain a where a: "convert_HuffTree_to_bytes_anyStates (index_width ?n) ?n root 0 = Some (tree_bytes (index_width ?n) a, ?n - 1)"
      "pad_size ?n a" "laid a 0 root" by auto
  let ?bs = "le_bytes 4 (offset e) @ int32ToBytes_bigEndian (of_nat ?n) @ int32ToBytes_bigEndian (of_nat (?s div 2)) @
    tree_bytes (index_width ?n) a"
  show thesis
  proof (rule that)
    show "HuffmanEncoder_save e (mem, q) =
        Some (e\<lparr>huffmanTree := (huffmanTree e)\<lparr>n_inode := ?n - 1\<rparr>\<rparr>, mem_write mem q ?bs, q + length ?bs)"
      if "q + length ?bs \<le> length mem" for mem q
      using a(1) p by (intro save_bytes [OF _ _ that]) simp_all
    show "length ?bs = HuffmanEncoder_size_est (nodeCount e)"
      using length_tree_bytes [OF a(2)] p by (simp add: HuffmanEncoder_size_est_def)
    show "HuffmanEncoder_load (?bs @ rest) remaining =
        Some (\<lparr>huffmanTree = (createHuffmanTree (2 * (?s div 2)))\<lparr>n_nodes := ?n\<rparr>,
              treeRoot = strip root, nodeCount = ?n, offset = offset e, loaded = True\<rparr>, rest, remaining - 4)"
      if "4 \<le> remaining" for rest remaining
      using load_tree [OF a(3) _ a(2) refl small(1,2) pool that, of "offset e" rest] p by simp
  qed
qed

lemma prepared_encode:
  assumes "prepared bins e root cw" "p + length (concat (map cw bins)) div 8 + 17 \<le> length mem"
  obtains mem' bytes where
    "HuffmanEncoder_encode e bins (mem, p) = Some (mem', p + 8 + ceil8 (length (concat (map cw bins))))"
    "length mem' = length mem" "take p mem' = take p mem"
    "drop p mem' = le_bytes 8 (of_nat (ceil8 (length (concat (map cw bins)))) :: u64) @ bytes"
    "ceil8 (length (concat (map cw bins))) \<le> length bytes"
    "\<forall>i < length (concat (map cw bins)). stream_bit bytes i = concat (map cw bins) ! i"
proof -
  note pr = assms(1) [unfolded prepared_def]
  have step: "\<exists>s'. encode_loop e bins s = Some s' \<and> packed (take (p + 8) mem) (length mem) (concat (map cw bins)) s'"
    if "packed (take (p + 8) mem) (length mem) [] s" for s
  proof (cases "t root = 0")
    case True
    then show ?thesis using encode_loop_packed [OF that, of bins e cw] pr assms(2) by simp
  next
    case False
    then have nil: "concat (map cw bins) = []" using pr by auto
    obtain z w where "code (huffmanTree e) ! 0 = Some (z, w)" using False pr by auto
    then show ?thesis unfolding nil using False encode_loop_constant [OF that, of e z w bins] pr assms(2) by simp
  qed
  have "p + 8 \<le> length mem" using assms(2) by simp
  from huffman_encode_packed [OF this step] show thesis using that by blast
qed

lemma prepared_decode:
  assumes "prepared bins e root cw" "ceil8 (length (concat (map cw bins))) \<le> length bytes"
    "\<forall>i < length (concat (map cw bins)). stream_bit bytes i = concat (map cw bins) ! i"
    "treeRoot e' = strip root" "offset e' = offset e" "length (concat (map cw bins)) < 2 ^ 64"
  shows "HuffmanEncoder_decode e' (le_bytes 8 (of_nat (ceil8 (length (concat (map cw bins)))) :: u64) @ bytes) (length bins) =
    Some (bins, drop (ceil8 (length (concat (map cw bins)))) bytes)"
proof -
  note p = assms(1) [unfolded prepared_def]
  let ?bits = "concat (map cw bins)"
  have root: "root \<noteq> Null" using p by auto
  have "ceil8 (length ?bits) \<le> length ?bits" by (auto simp: ceil8_def intro: Suc_leI)
  then have size: "unat (of_nat (ceil8 (length ?bits)) :: u64) = ceil8 (length ?bits)"
    using assms(6) by (intro unat_of_nat64) simp
  have read: "read_var (le_bytes 8 w @ c) = Some (w, c)" for w :: u64 and c using read_var_write [of w c] by simp
  show ?thesis
  proof (cases "t root = 0")
    case True
    have "decode_loop (strip root) (offset e) bytes (strip root) 0 (length bins) = Some bins"
    proof (rule decode_loop_paths [where cw = cw])
      show "full (strip root)" "t (strip root) = 0" "\<forall>b \<in> set bins. (b - offset e, cw b) \<in> set (leaf_paths (strip root))"
        using p True root by simp_all
      show "0 + length ?bits \<le> 8 * length bytes" using assms(2) ceil8_bound(1) [of "length ?bits"] by linarith
    qed (use assms(3) in simp)
    then show ?thesis using True root assms(4,5) by (simp add: HuffmanEncoder_decode_def read size)
  next
    case False
    then have lp: "leaf_paths root = [(c root, [])]" using p by (cases root) (auto split: if_splits)
    have nil: "?bits = []" using p False by simp
    have "b = c root + offset e" if "b \<in> set bins" for b
    proof -
      have "(b - offset e, cw b) \<in> set (leaf_paths root)" using p that by blast
      then have "b - offset e = c root" by (simp add: lp)
      then show ?thesis by (metis diff_add_cancel)
    qed
    then have "replicate (length bins) (c root + offset e) = bins" by (intro replicate_eqI [symmetric]) simp_all
    then show ?thesis unfolding nil using False root assms(4,5) by (simp add: HuffmanEncoder_decode_def read ceil8_def)
  qed
qed


lemma bits_bound: "\<forall>b \<in> set bins. length (cw b) \<le> k \<Longrightarrow> length (concat (map cw bins)) \<le> k * length bins"
  by (induction bins) auto

lemma size_est_bound: "HuffmanEncoder_size_est cnt \<le> 13 * cnt + 13"
  by (simp add: HuffmanEncoder_size_est_def index_width_def)

lemma stream_bit_take: "i div 8 < n \<Longrightarrow> n \<le> length bytes \<Longrightarrow> stream_bit (take n bytes @ rest) i = stream_bit bytes i"
  by (simp add: stream_bit_def nth_append)

text \<open>What \<open>save\<close> and \<open>encode\<close> leave at \<open>p\<close>, followed by anything, is loaded and decoded.\<close>

lemma prepared_codec:
  assumes "prepared bins e root cw" "length bins < 2 ^ 31"
    "p + HuffmanEncoder_size_est (nodeCount e) + (length (concat (map cw bins)) div 8 + 17) \<le> length mem"
  shows "\<exists>e1 pos mem2 bs tl. HuffmanEncoder_save e (mem, p) = Some (e1, pos) \<and>
    HuffmanEncoder_encode e1 bins pos = Some (mem2, p + length bs) \<and>
    length mem2 = length mem \<and> take p mem2 = take p mem \<and> drop p mem2 = bs @ tl \<and>
    length bs = HuffmanEncoder_size_est (nodeCount e) + 8 + ceil8 (length (concat (map cw bins))) \<and>
    (\<forall>rest n. 4 \<le> n \<longrightarrow> (\<exists>e2 cs. HuffmanEncoder_load (bs @ rest) n = Some (e2, cs, n - 4) \<and>
       HuffmanEncoder_decode e2 cs (length bins) = Some (bins, rest)))"
proof -
  let ?bits = "concat (map cw bins)"
  let ?n = "ceil8 (length ?bits)"
  let ?e = "e\<lparr>huffmanTree := (huffmanTree e)\<lparr>n_inode := nodes root - 1\<rparr>\<rparr>"
  let ?e2 = "\<lparr>huffmanTree = (createHuffmanTree (2 * (stateNum (huffmanTree e) div 2)))\<lparr>n_nodes := nodes root\<rparr>,
              treeRoot = strip root, nodeCount = nodes root, offset = offset e, loaded = True\<rparr>"
  obtain hdr where hdr: "length hdr = HuffmanEncoder_size_est (nodeCount e)"
    "\<And>mem p. p + length hdr \<le> length mem \<Longrightarrow> HuffmanEncoder_save e (mem, p) = Some (?e, mem_write mem p hdr, p + length hdr)"
    "\<And>rest n. 4 \<le> n \<Longrightarrow> HuffmanEncoder_load (hdr @ rest) n = Some (?e2, rest, n - 4)"
    by (rule prepared_save [OF assms(1)]) (rule that, assumption+)
  have fits: "p + length hdr \<le> length mem" using hdr(1) assms(3) by simp
  define mem1 where "mem1 = mem_write mem p hdr"
  have mem1: "HuffmanEncoder_save e (mem, p) = Some (?e, mem1, p + length hdr)"
    "length mem1 = length mem" "drop p mem1 = hdr @ drop (p + length hdr) mem" "take p mem1 = take p mem"
    using hdr(2) [OF fits] fits by (simp_all add: mem1_def drop_mem_write) (simp add: mem_write_def)
  let ?q = "p + length hdr"
  have "?q + length ?bits div 8 + 17 \<le> length mem1" using hdr(1) assms(3) mem1(2) by simp
  from prepared_encode [OF assms(1) this] obtain mem2 bytes where mem2:
    "HuffmanEncoder_encode e bins (mem1, ?q) = Some (mem2, ?q + 8 + ?n)" "length mem2 = length mem1" "take ?q mem2 = take ?q mem1"
    "drop ?q mem2 = le_bytes 8 (of_nat ?n :: u64) @ bytes" "?n \<le> length bytes"
    "\<forall>i < length ?bits. stream_bit bytes i = ?bits ! i" by blast
  have "drop p (take ?q mem2) = hdr"
    using arg_cong [OF mem1(3), of "take (length hdr)"] mem2(3) by (simp add: drop_take)
  then have "drop p mem2 = hdr @ drop ?q mem2"
    by (metis add.commute append_take_drop_id drop_drop drop_take add_diff_cancel_left')
  then have mem: "drop p mem2 = (hdr @ le_bytes 8 (of_nat ?n :: u64) @ take ?n bytes) @ drop ?n bytes"
    using mem2(4) by simp
  have pre: "take p mem2 = take p mem"
    using arg_cong [OF mem2(3), of "take p"] mem1(4) by simp
  have big: "length ?bits < 2 ^ 64"
    using bits_bound [of bins cw 44] assms(1,2) by (simp add: prepared_def)
  have decode: "HuffmanEncoder_decode ?e2 (le_bytes 8 (of_nat ?n :: u64) @ take ?n bytes @ rest) (length bins) = Some (bins, rest)" for rest
  proof -
    have "\<forall>i < length ?bits. stream_bit (take ?n bytes @ rest) i = ?bits ! i"
    proof (intro allI impI)
      fix i assume i: "i < length ?bits"
      then have "i < 8 * ?n" using ceil8_bound(1) [of "length ?bits"] by linarith
      then have "i div 8 < ?n" by (simp add: less_mult_imp_div_less mult.commute)
      then show "stream_bit (take ?n bytes @ rest) i = ?bits ! i" using stream_bit_take mem2(5,6) i by simp
    qed
    then show ?thesis
      using prepared_decode [OF assms(1) _ _ _ _ big, of "take ?n bytes @ rest" ?e2] mem2(5) by simp
  qed
  have "HuffmanEncoder_encode ?e bins (mem1, ?q) = Some (mem2, ?q + 8 + ?n)"
    unfolding huffman_encode_inode by (rule mem2(1))
  then show ?thesis
    using mem1 mem2(2,5) mem pre hdr(1,3) decode
    by (intro exI [of _ ?e] exI [of _ "(mem1, ?q)"] exI [of _ mem2]
        exI [of _ "hdr @ le_bytes 8 (of_nat ?n :: u64) @ take ?n bytes"] exI [of _ "drop ?n bytes"]) simp
qed






end
