(* ===== verification/Sz3_Compressor.thy ===== *)
theory Sz3_Compressor
  imports Sz3_Quantizer Sz3_Config Sz3_Huffman_Roundtrip
begin

text \<open>
  The compression pipeline of SZ3 for data of type \<open>double\<close>: \<open>SZGenericCompressor.hpp\<close>, which glues a
  decomposition, an encoder and a lossless compressor together; its instance without prediction,
  \<open>api/impl/SZAlgo.hpp\<close>; the dispatcher, \<open>api/impl/SZDispatcher.hpp\<close> and \<open>api/impl/SZImpl.hpp\<close>; and the entry
  points of \<open>api/sz.hpp\<close> and \<open>tools/sz3c/src/sz3c.cpp\<close>.

  Arguments of the definitions are: \<open>malloc\<close>, the content of fresh memory; a record of the two functions of
  Zstandard, which return what they write and a size or an error code; the algorithms that are not part of
  this library; and the choices of the language and of the hash map that \<open>Sz3_Huffman\<close> describes.
\<close>

section \<open>The modules of a compressor\<close>

record 'd decomposition_ops =
  d_compress :: "'d \<Rightarrow> double list \<Rightarrow> (int32 list \<times> double list \<times> 'd) option"
  d_decompress :: "'d \<Rightarrow> int32 list \<Rightarrow> nat \<Rightarrow> double list option"
  d_save :: "'d \<Rightarrow> out_pos \<Rightarrow> out_pos option"
  d_load :: "'d \<Rightarrow> u8 list \<Rightarrow> nat \<Rightarrow> ('d \<times> u8 list \<times> nat) option"
  d_size_est :: "'d \<Rightarrow> nat"
  d_get_radius :: "'d \<Rightarrow> int"

record 'e encoder_ops =
  e_preprocess_encode :: "'e \<Rightarrow> int32 list \<Rightarrow> int \<Rightarrow> 'e option"
  e_encode :: "'e \<Rightarrow> int32 list \<Rightarrow> out_pos \<Rightarrow> out_pos option"
  e_decode :: "'e \<Rightarrow> u8 list \<Rightarrow> nat \<Rightarrow> (int32 list \<times> u8 list) option"
  e_save :: "'e \<Rightarrow> out_pos \<Rightarrow> ('e \<times> out_pos) option"
  e_load :: "'e \<Rightarrow> u8 list \<Rightarrow> nat \<Rightarrow> ('e \<times> u8 list \<times> nat) option"
  e_size_est :: "'e \<Rightarrow> nat"

text \<open>The bytes written and the \<open>size_t\<close> returned, for a source and the capacity of the destination.\<close>

record lossless_ops =
  l_compress :: "u8 list \<Rightarrow> u64 \<Rightarrow> u8 list \<times> u64"
  l_decompress :: "u8 list \<Rightarrow> u64 \<Rightarrow> u8 list \<times> u64"

text \<open>The functions of Zstandard; the level is an argument of the first.\<close>

record zstd_lib =
  ZSTD_compress :: "u64 \<Rightarrow> u8 list \<Rightarrow> int \<Rightarrow> u8 list \<times> u64"
  ZSTD_decompress :: "u64 \<Rightarrow> u8 list \<Rightarrow> u8 list \<times> u64"

definition ZSTD_ERROR :: "nat \<Rightarrow> u64" where
  "ZSTD_ERROR e = - of_nat e"

definition ERR_isError :: "u64 \<Rightarrow> bool" where
  "ERR_isError n \<longleftrightarrow> ZSTD_ERROR 120 < n"

definition Lossless_zstd :: "zstd_lib \<Rightarrow> lossless_ops" where
  "Lossless_zstd z =
     \<lparr>l_compress = (\<lambda>src dstCap. ZSTD_compress z dstCap src 3),
      l_decompress = (\<lambda>src dstCap. ZSTD_decompress z dstCap src)\<rparr>"

text \<open>\<open>dst = src\<close> only assigns the parameter: nothing is written.\<close>

definition Lossless_bypass :: lossless_ops where
  "Lossless_bypass =
     \<lparr>l_compress = (\<lambda>src dstCap. ([], of_nat (length src))),
      l_decompress = (\<lambda>src dstCap. ([], of_nat (length src)))\<rparr>"

section \<open>The generic compressor\<close>

text \<open>A conversion of a \<open>double\<close> to \<open>size_t\<close>, undefined outside its range.\<close>

definition f64_to_size :: "double \<Rightarrow> nat option" where
  "f64_to_size x =
     (if f64_finite x \<and> 0 \<le> f64_trunc x \<and> f64_trunc x < 2 ^ 64 then Some (nat (f64_trunc x)) else None)"

definition lit_1_2 :: double where
  "lit_1_2 = 0x3FF3333333333333"

definition generic_bufferSize :: "nat \<Rightarrow> nat option" where
  "generic_bufferSize est = map_option (max 1000) (f64_to_size (f64_mul lit_1_2 (f64_of_int (int est))))"

text \<open>\<open>compress\<close> up to the call of the lossless compressor: the bytes handed to it, and the data, which the
  decomposition overwrites.\<close>

definition generic_fill ::
  "'d decomposition_ops \<Rightarrow> 'e encoder_ops \<Rightarrow> (nat \<Rightarrow> u8 list) \<Rightarrow> 'd \<Rightarrow> 'e \<Rightarrow> double list \<Rightarrow>
   (u8 list \<times> double list) option" where
  "generic_fill D E malloc d e data = do {
     (quant_inds, data, d) \<leftarrow> d_compress D d data;
     e \<leftarrow> e_preprocess_encode E e quant_inds (d_get_radius D d * 2);
     bufferSize \<leftarrow> generic_bufferSize (d_size_est D d + e_size_est E e + 8 * length quant_inds);
     let buffer = malloc bufferSize;
     buffer_pos \<leftarrow> d_save D d (buffer, 0);
     (e, buffer_pos) \<leftarrow> e_save E e buffer_pos;
     (buffer, buffer_pos) \<leftarrow> e_encode E e quant_inds buffer_pos;
     Some (take buffer_pos buffer, data) }"

definition generic_compress ::
  "'d decomposition_ops \<Rightarrow> 'e encoder_ops \<Rightarrow> lossless_ops \<Rightarrow> (nat \<Rightarrow> u8 list) \<Rightarrow> 'd \<Rightarrow> 'e \<Rightarrow> double list \<Rightarrow> u64 \<Rightarrow>
   ((u8 list \<times> u64) \<times> double list) option" where
  "generic_compress D E L malloc d e data cmpCap =
     map_option (\<lambda>(buffer, data). (l_compress L buffer cmpCap, data)) (generic_fill D E malloc d e data)"

text \<open>The loads and the decoding, on a buffer of \<open>remaining_length\<close> bytes.\<close>

definition generic_read ::
  "'d decomposition_ops \<Rightarrow> 'e encoder_ops \<Rightarrow> 'd \<Rightarrow> 'e \<Rightarrow> u8 list \<Rightarrow> nat \<Rightarrow> double list option" where
  "generic_read D E d e buffer cnt = do {
     let remaining_length = length buffer;
     (d, buffer_pos, remaining_length) \<leftarrow> d_load D d buffer remaining_length;
     (e, buffer_pos, remaining_length) \<leftarrow> e_load E e buffer_pos remaining_length;
     (quant_inds, buffer_pos) \<leftarrow> e_decode E e buffer_pos cnt;
     d_decompress D d quant_inds cnt }"

text \<open>What the lossless decompressor returned is not looked at.\<close>

definition generic_decompress ::
  "'d decomposition_ops \<Rightarrow> 'e encoder_ops \<Rightarrow> lossless_ops \<Rightarrow> (nat \<Rightarrow> u8 list) \<Rightarrow> 'd \<Rightarrow> 'e \<Rightarrow> u64 \<Rightarrow> u8 list \<Rightarrow>
   double list option" where
  "generic_decompress D E L malloc d e cnt cmpData = do {
     let bufferCap = cnt * 8;
     let (out, _) = l_decompress L cmpData bufferCap;
     buffer \<leftarrow> store (malloc (unat bufferCap)) 0 out;
     generic_read D E d e buffer (unat cnt) }"

section \<open>Compression without prediction\<close>

text \<open>The decomposition inherits \<open>size_est\<close> and \<open>get_radius\<close> from its interface, where they return 0.\<close>

definition nopred_ops :: "linear_quantizer decomposition_ops" where
  "nopred_ops =
     \<lparr>d_compress = (\<lambda>q data. map_option (\<lambda>(ks, data, q). (map word_of_int ks, data, q)) (nopred_compress q data)),
      d_decompress = (\<lambda>q ks n. map_option fst (nopred_decompress q (map sint ks) n)),
      d_save = quantizer_save,
      d_load = quantizer_load,
      d_size_est = (\<lambda>q. 0),
      d_get_radius = (\<lambda>q. 0)\<rparr>"

definition huffman_ops ::
  "u64 \<Rightarrow> bool \<Rightarrow> ((int32 \<times> nat) list \<Rightarrow> (int32 \<times> nat) list) \<Rightarrow> huffman_encoder encoder_ops" where
  "huffman_ops undef rl ord =
     \<lparr>e_preprocess_encode = (\<lambda>e bins stateNum. HuffmanEncoder_preprocess_encode undef rl ord bins),
      e_encode = HuffmanEncoder_encode,
      e_decode = HuffmanEncoder_decode,
      e_save = HuffmanEncoder_save,
      e_load = (\<lambda>e. HuffmanEncoder_load),
      e_size_est = (\<lambda>e. HuffmanEncoder_size_est (nodeCount e))\<rparr>"

text \<open>A new encoder has no tree.\<close>

definition HuffmanEncoder :: huffman_encoder where
  "HuffmanEncoder = \<lparr>huffmanTree = createHuffmanTree 0, treeRoot = Null, nodeCount = 0, offset = 0, loaded = False\<rparr>"

record sz_env =
  env_libm :: libm
  env_malloc :: "nat \<Rightarrow> u8 list"
  env_zstd :: zstd_lib
  env_undef :: u64
  env_rl :: bool
  env_ord :: "(int32 \<times> nat) list \<Rightarrow> (int32 \<times> nat) list"

definition env_huffman :: "sz_env \<Rightarrow> huffman_encoder encoder_ops" where
  "env_huffman v = huffman_ops (env_undef v) (env_rl v) (env_ord v)"

text \<open>Division by two of an \<open>int\<close> rounds towards 0.\<close>

definition half_int :: "int \<Rightarrow> int" where
  "half_int i = (if i < 0 then - (- i div 2) else i div 2)"

definition conf_quantizer :: "config \<Rightarrow> linear_quantizer option" where
  "conf_quantizer conf = LinearQuantizer (absErrorBound conf) (half_int (sint (quantbinCnt conf)))"

type_synonym cmp_result = "config \<times> double list \<times> u8 list \<times> u64"

text \<open>A failed assertion is \<open>Undefined\<close>.\<close>

definition SZ_compress_nopred :: "sz_env \<Rightarrow> nat \<Rightarrow> config \<Rightarrow> double list \<Rightarrow> u64 \<Rightarrow> sz_error + cmp_result" where
  "SZ_compress_nopred v tN conf data cmpCap =
     (if tN \<noteq> unat (N conf) then Inl Undefined
      else if cmprAlgo conf \<noteq> ALGO_num ALGO_INTERP then Inl Undefined
      else case calAbsErrorBound (env_libm v) conf data 0 of
             Inl err \<Rightarrow> Inl err
           | Inr conf \<Rightarrow>
               (case do {
                  q \<leftarrow> conf_quantizer conf;
                  generic_compress nopred_ops (env_huffman v) (Lossless_zstd (env_zstd v)) (env_malloc v) q HuffmanEncoder
                    data cmpCap } of
                  None \<Rightarrow> Inl Undefined
                | Some ((bytes, cmpSize), data) \<Rightarrow> Inr (conf, data, bytes, cmpSize)))"

text \<open>The values overwrite the first ones of \<open>decData\<close>, whose old content is \<open>old\<close>.\<close>

definition SZ_decompress_nopred :: "sz_env \<Rightarrow> config \<Rightarrow> u8 list \<Rightarrow> double list \<Rightarrow> sz_error + double list" where
  "SZ_decompress_nopred v conf cmpData old =
     (if cmprAlgo conf \<noteq> ALGO_num ALGO_INTERP then Inl Undefined
      else case do {
             q \<leftarrow> conf_quantizer conf;
             generic_decompress nopred_ops (env_huffman v) (Lossless_zstd (env_zstd v)) (env_malloc v) q HuffmanEncoder
               (num conf) cmpData } of
             None \<Rightarrow> Inl Undefined
           | Some ds \<Rightarrow> if length old < length ds then Inl Undefined else Inr (ds @ drop (length ds) old))"

section \<open>Dispatching\<close>

text \<open>The algorithms with prediction.\<close>

record sz_algos =
  SZ_compress_LorenzoReg :: "nat \<Rightarrow> config \<Rightarrow> double list \<Rightarrow> u64 \<Rightarrow> sz_error + cmp_result"
  SZ_compress_Interp :: "nat \<Rightarrow> config \<Rightarrow> double list \<Rightarrow> u64 \<Rightarrow> sz_error + cmp_result"
  SZ_compress_Interp_lorenzo :: "nat \<Rightarrow> config \<Rightarrow> double list \<Rightarrow> u64 \<Rightarrow> sz_error + cmp_result"
  SZ_decompress_LorenzoReg :: "nat \<Rightarrow> config \<Rightarrow> u8 list \<Rightarrow> double list \<Rightarrow> sz_error + double list"
  SZ_decompress_Interp :: "nat \<Rightarrow> config \<Rightarrow> u8 list \<Rightarrow> double list \<Rightarrow> sz_error + double list"

definition SZ_compress_dispatcher ::
  "sz_env \<Rightarrow> sz_algos \<Rightarrow> nat \<Rightarrow> config \<Rightarrow> double list \<Rightarrow> u64 \<Rightarrow> sz_error + cmp_result" where
  "SZ_compress_dispatcher v A tN conf data cmpCap =
     (if tN \<noteq> unat (N conf) then Inl Undefined
      else case calAbsErrorBound (env_libm v) conf data 0 of
             Inl err \<Rightarrow> Inl err
           | Inr conf \<Rightarrow>
               if f64_eq (absErrorBound conf) 0
               then (case l_compress (Lossless_zstd (env_zstd v)) (array_bytes 8 data) cmpCap of
                       (bytes, cmpSize) \<Rightarrow> Inr (conf, data, bytes, cmpSize))
               else if cmprAlgo conf = ALGO_num ALGO_LORENZO_REG then SZ_compress_LorenzoReg A tN conf data cmpCap
               else if cmprAlgo conf = ALGO_num ALGO_INTERP then SZ_compress_Interp A tN conf data cmpCap
               else if cmprAlgo conf = ALGO_num ALGO_INTERP_LORENZO then SZ_compress_Interp_lorenzo A tN conf data cmpCap
               else if cmprAlgo conf = ALGO_num ALGO_NOPRED then SZ_compress_nopred v tN conf data cmpCap
               else Inr (conf, data, [], 0))"

text \<open>A decompressor is told to read \<open>cmpSize\<close> bytes; \<open>cmpData\<close> is the memory from there on.\<close>

definition on_bytes :: "u8 list \<Rightarrow> nat \<Rightarrow> (u8 list \<Rightarrow> sz_error + 'a) \<Rightarrow> sz_error + 'a" where
  "on_bytes cmpData cmpSize f = (if length cmpData < cmpSize then Inl Undefined else f (take cmpSize cmpData))"

text \<open>In the lossless case the bytes go directly to \<open>decData\<close>.\<close>

definition SZ_decompress_dispatcher ::
  "sz_env \<Rightarrow> sz_algos \<Rightarrow> nat \<Rightarrow> config \<Rightarrow> u8 list \<Rightarrow> nat \<Rightarrow> double list \<Rightarrow> sz_error + double list" where
  "SZ_decompress_dispatcher v A tN conf cmpData cmpSize old =
     (if f64_eq (absErrorBound conf) 0
      then on_bytes cmpData cmpSize (\<lambda>src.
             case do {
               let (out, _) = l_decompress (Lossless_zstd (env_zstd v)) src (num conf * 8);
               mem \<leftarrow> store (array_bytes 8 old) 0 out;
               read_array 8 (length old) mem } of
               None \<Rightarrow> Inl Undefined
             | Some (decData, _) \<Rightarrow> Inr decData)
      else if cmprAlgo conf = ALGO_num ALGO_LORENZO_REG
      then on_bytes cmpData cmpSize (\<lambda>src. SZ_decompress_LorenzoReg A tN conf src old)
      else if cmprAlgo conf = ALGO_num ALGO_INTERP
      then on_bytes cmpData cmpSize (\<lambda>src. SZ_decompress_Interp A tN conf src old)
      else if cmprAlgo conf = ALGO_num ALGO_NOPRED
      then on_bytes cmpData cmpSize (\<lambda>src. SZ_decompress_nopred v conf src old)
      else Inl (Exit ''SZ_decompress_dispatcher, Method not supported''))"

text \<open>Without OpenMP.  The data are copied, so the caller's are not overwritten.\<close>

definition SZ_compress_impl ::
  "sz_env \<Rightarrow> sz_algos \<Rightarrow> nat \<Rightarrow> config \<Rightarrow> double list \<Rightarrow> u64 \<Rightarrow> sz_error + cmp_result" where
  "SZ_compress_impl v A tN conf data cmpCap =
     (let conf = conf\<lparr>openmp := False\<rparr>
      in if length data < unat (num conf) then Inl Undefined
         else SZ_compress_dispatcher v A tN conf (take (unat (num conf)) data) cmpCap)"

definition SZ_decompress_impl ::
  "sz_env \<Rightarrow> sz_algos \<Rightarrow> nat \<Rightarrow> config \<Rightarrow> u8 list \<Rightarrow> nat \<Rightarrow> double list \<Rightarrow> sz_error + config \<times> double list" where
  "SZ_decompress_impl v A tN conf cmpData cmpSize old =
     (let conf = conf\<lparr>openmp := False\<rparr>
      in map_sum id (Pair conf) (SZ_decompress_dispatcher v A tN conf cmpData cmpSize old))"

section \<open>The entry points\<close>

text \<open>Memory as an array of doubles.\<close>

definition read_doubles :: "u8 list \<Rightarrow> double list" where
  "read_doubles mem = (case read_array 8 (length mem div 8) mem of None \<Rightarrow> [] | Some (ds, _) \<Rightarrow> ds)"

text \<open>\<open>SZ_compress\<close> into a buffer \<open>mem\<close> of the caller: the new content of the buffer and the size returned.
  The capacity left after the header is a difference of \<open>size_t\<close>.\<close>

definition SZ_compress ::
  "sz_env \<Rightarrow> sz_algos \<Rightarrow> config \<Rightarrow> double list \<Rightarrow> u8 list \<Rightarrow> u64 \<Rightarrow> sz_error + u8 list \<times> u64" where
  "SZ_compress v A conf data mem cmpCap =
     (if cmpCap < num conf * 8 then Inl (Invalid_argument ''cmpCap too small'')
      else let dst = config_size_est; dstCap = cmpCap - of_nat config_size_est
           in if N conf \<notin> {1, 2, 3, 4} then Inl (Exit ''Data dimension higher than 4 is not supported.'')
              else case SZ_compress_impl v A (unat (N conf)) conf data dstCap of
                     Inl err \<Rightarrow> Inl err
                   | Inr (conf, _, bytes, dstLen) \<Rightarrow>
                       (case store mem dst bytes of
                          None \<Rightarrow> Inl Undefined
                        | Some mem \<Rightarrow>
                            (case config_save conf (mem, 0) of
                               Inl err \<Rightarrow> Inl err
                             | Inr (mem, _) \<Rightarrow> Inr (mem, of_nat config_size_est + dstLen))))"

text \<open>The overload that allocates the buffer.\<close>

definition SZ_compress_alloc ::
  "sz_env \<Rightarrow> sz_algos \<Rightarrow> config \<Rightarrow> double list \<Rightarrow> sz_error + u8 list \<times> u64" where
  "SZ_compress_alloc v A conf data =
     (case f64_to_size (f64_mul (f64_of_int (uint (num conf * 8))) lit_1_2) of
        None \<Rightarrow> Inl Undefined
      | Some bufferLen \<Rightarrow> SZ_compress v A conf data (env_malloc v bufferLen) (of_nat bufferLen))"

text \<open>\<open>SZ_decompress\<close> reads \<open>cmpSize\<close> bytes after the header; \<open>mem\<close> is the memory from \<open>cmpData\<close> on, and
  \<open>old\<close> the content of \<open>decData\<close>, if it is not null.\<close>

definition SZ_decompress ::
  "sz_env \<Rightarrow> sz_algos \<Rightarrow> config \<Rightarrow> u8 list \<Rightarrow> nat \<Rightarrow> double list option \<Rightarrow> sz_error + config \<times> double list" where
  "SZ_decompress v A conf mem cmpSize old =
     (case config_load conf mem of
        Inl err \<Rightarrow> Inl err
      | Inr (conf, confPos) \<Rightarrow>
          if sz3MagicNumber conf \<noteq> SZ3_MAGIC_NUMBER
          then Inl (Invalid_argument ''magic number mismatch, the input data is not compressed by SZ3'')
          else if versionStr (sz3DataVer conf) \<noteq> SZ3_DATA_VER
          then Inl (Invalid_argument ''Please use another version of SZ3 to decompress the data'')
          else
            let decData = (case old of None \<Rightarrow> read_doubles (env_malloc v (8 * unat (num conf))) | Some ds \<Rightarrow> ds)
            in if N conf \<notin> {1, 2, 3, 4} then Inl (Exit ''Data dimension higher than 4 is not supported.'')
               else SZ_decompress_impl v A (unat (N conf)) conf confPos cmpSize decData)"

section \<open>The C interface\<close>

definition SZ_compress_args ::
  "sz_env \<Rightarrow> sz_algos \<Rightarrow> double list \<Rightarrow> int \<Rightarrow> double \<Rightarrow> double \<Rightarrow> u64 \<Rightarrow> u64 \<Rightarrow> u64 \<Rightarrow> u64 \<Rightarrow> u64 \<Rightarrow>
   sz_error + u8 list" where
  "SZ_compress_args v A data errBoundMode absErrBound relBoundRatio r5 r4 r3 r2 r1 =
     (case sz3c_config errBoundMode absErrBound relBoundRatio r5 r4 r3 r2 r1 of
        Inl err \<Rightarrow> Inl err
      | Inr conf \<Rightarrow>
          (case SZ_compress_alloc v A conf data of
             Inl err \<Rightarrow> Inl err
           | Inr (buffer, outLen) \<Rightarrow>
               if length buffer < unat outLen then Inl Undefined else Inr (take (unat outLen) buffer)))"

definition sz3c_decompress ::
  "sz_env \<Rightarrow> sz_algos \<Rightarrow> u8 list \<Rightarrow> nat \<Rightarrow> u64 \<Rightarrow> u64 \<Rightarrow> u64 \<Rightarrow> u64 \<Rightarrow> u64 \<Rightarrow> sz_error + double list" where
  "sz3c_decompress v A bytes byteLength r5 r4 r3 r2 r1 =
     (let dec_data = read_doubles (env_malloc v (8 * unat (sz3c_count r5 r4 r3 r2 r1)))
      in case SZ_decompress v A config_init bytes byteLength (Some dec_data) of
           Inl err \<Rightarrow> Inl err
         | Inr (_, dec_data) \<Rightarrow> Inr dec_data)"

end
