(* ===== verification/Sz3_Pipeline.thy ===== *)
theory Sz3_Pipeline
  imports Sz3_Compressor
begin

text \<open>
  The pipeline of SZ3: what its modules promise to the generic compressor, that the modules without
  prediction keep the promises, that the temporary buffer of the generic compressor is large enough for
  them, and what the entry points do with the results.
\<close>

section \<open>The contract of the modules\<close>

text \<open>A decomposition saves itself in \<open>dec_room\<close> bytes, and any other one that loads them restores the data
  from the indices.\<close>

locale sz_decomposition =
  fixes D :: "'d decomposition_ops"
    and fresh :: "'d \<Rightarrow> bool"
    and dec_room :: "'d \<Rightarrow> nat"
  assumes decomposed: "fresh d \<Longrightarrow> d_compress D d data = Some (ks, ys, d') \<Longrightarrow> length data < 2 ^ 31 \<Longrightarrow>
    \<exists>bs. emits (d_save D d') bs \<and> length bs = dec_room d' \<and> length ks = length data \<and>
      (\<forall>d0 rest n. length bs \<le> n \<longrightarrow>
        (\<exists>d2 m. d_load D d0 (bs @ rest) n = Some (d2, rest, m) \<and> n \<le> m + length bs \<and>
          d_decompress D d2 ks (length data) = Some ys))"

text \<open>An encoder saves itself and the indices in at most \<open>size_est\<close> and \<open>enc_room\<close> bytes, and any other one
  that loads them decodes the indices.\<close>

locale sz_encoder =
  fixes E :: "'e encoder_ops"
    and encodable :: "int32 list \<Rightarrow> bool"
    and enc_room :: "'e \<Rightarrow> int32 list \<Rightarrow> nat"
  assumes coded_by: "encodable ks \<Longrightarrow> \<exists>e'. e_preprocess_encode E e ks r = Some e' \<and>
    (\<forall>mem p. p + e_size_est E e' + enc_room e' ks \<le> length mem \<longrightarrow>
      (\<exists>e1 pos mem2 bs tl. e_save E e' (mem, p) = Some (e1, pos) \<and> e_encode E e1 ks pos = Some (mem2, p + length bs) \<and>
        length mem2 = length mem \<and> take p mem2 = take p mem \<and> drop p mem2 = bs @ tl \<and>
        e_size_est E e' \<le> length bs \<and> length bs \<le> e_size_est E e' + enc_room e' ks \<and>
        (\<forall>e0 rest n. length bs \<le> n \<longrightarrow>
          (\<exists>e2 cs m. e_load E e0 (bs @ rest) n = Some (e2, cs, m) \<and> e_decode E e2 cs (length ks) = Some (ks, rest)))))"

locale sz_generic = sz_decomposition D fresh dec_room + sz_encoder E encodable enc_room
  for D :: "'d decomposition_ops" and fresh dec_room and E :: "'e encoder_ops" and encodable enc_room
begin

lemma fill_read:
  assumes "fresh d" "d_compress D d data = Some (ks, ys, d')" "length data < 2 ^ 31" "encodable ks"
    "\<And>e'. e_preprocess_encode E e ks (d_get_radius D d' * 2) = Some e' \<Longrightarrow>
      \<exists>n. generic_bufferSize (d_size_est D d' + e_size_est E e' + 8 * length ks) = Some n \<and>
        dec_room d' + e_size_est E e' + enc_room e' ks \<le> n \<and> length (malloc n) = n"
  shows "\<exists>payload e'. generic_fill D E malloc d e data = Some (payload, ys) \<and>
    e_preprocess_encode E e ks (d_get_radius D d' * 2) = Some e' \<and> dec_room d' + e_size_est E e' \<le> length payload \<and>
    length payload \<le> dec_room d' + e_size_est E e' + enc_room e' ks \<and>
    (\<forall>d0 e0 rest. generic_read D E d0 e0 (payload @ rest) (length data) = Some ys)"
proof -
  obtain bs where bs: "emits (d_save D d') bs" "length bs = dec_room d'" "length ks = length data"
    "\<forall>d0 rest n. length bs \<le> n \<longrightarrow> (\<exists>d2 m. d_load D d0 (bs @ rest) n = Some (d2, rest, m) \<and> n \<le> m + length bs \<and>
          d_decompress D d2 ks (length data) = Some ys)"
    using decomposed [OF assms(1-3)] by (elim exE conjE) (rule that)
  obtain e' where e': "e_preprocess_encode E e ks (d_get_radius D d' * 2) = Some e'"
    "\<forall>mem p. p + e_size_est E e' + enc_room e' ks \<le> length mem \<longrightarrow>
      (\<exists>e1 pos mem2 bs tl. e_save E e' (mem, p) = Some (e1, pos) \<and> e_encode E e1 ks pos = Some (mem2, p + length bs) \<and>
        length mem2 = length mem \<and> take p mem2 = take p mem \<and> drop p mem2 = bs @ tl \<and>
        e_size_est E e' \<le> length bs \<and> length bs \<le> e_size_est E e' + enc_room e' ks \<and>
        (\<forall>e0 rest n. length bs \<le> n \<longrightarrow>
          (\<exists>e2 cs m. e_load E e0 (bs @ rest) n = Some (e2, cs, m) \<and> e_decode E e2 cs (length ks) = Some (ks, rest))))"
    using coded_by [OF assms(4), of e "d_get_radius D d' * 2"] by (elim exE conjE) (rule that)
  obtain n where n: "generic_bufferSize (d_size_est D d' + e_size_est E e' + 8 * length ks) = Some n"
    "dec_room d' + e_size_est E e' + enc_room e' ks \<le> n" "length (malloc n) = n"
    using assms(5) [OF e'(1)] by blast
  have room: "0 + length bs \<le> length (malloc n)" using n bs(2) by simp
  define mem1 where "mem1 = mem_write (malloc n) 0 bs"
  have mem1: "d_save D d' (malloc n, 0) = Some (mem1, length bs)" "length mem1 = n" "take (length bs) mem1 = bs"
    using emitsD [OF bs(1) room] room n(3) by (simp_all add: mem1_def) (simp add: mem_write_def)
  have "length bs + e_size_est E e' + enc_room e' ks \<le> length mem1" using n(2) mem1(2) bs(2) by simp
  then have "\<exists>e1 pos mem2 cs tl. e_save E e' (mem1, length bs) = Some (e1, pos) \<and>
      e_encode E e1 ks pos = Some (mem2, length bs + length cs) \<and> length mem2 = length mem1 \<and>
      take (length bs) mem2 = take (length bs) mem1 \<and> drop (length bs) mem2 = cs @ tl \<and>
      e_size_est E e' \<le> length cs \<and> length cs \<le> e_size_est E e' + enc_room e' ks \<and>
      (\<forall>e0 rest n. length cs \<le> n \<longrightarrow>
        (\<exists>e2 ds m. e_load E e0 (cs @ rest) n = Some (e2, ds, m) \<and> e_decode E e2 ds (length ks) = Some (ks, rest)))"
    by (rule e'(2) [rule_format])
  then obtain e1 pos mem2 cs tl where enc: "e_save E e' (mem1, length bs) = Some (e1, pos)"
    "e_encode E e1 ks pos = Some (mem2, length bs + length cs)" "length mem2 = length mem1"
    "take (length bs) mem2 = take (length bs) mem1" "drop (length bs) mem2 = cs @ tl"
    "e_size_est E e' \<le> length cs" "length cs \<le> e_size_est E e' + enc_room e' ks"
    "\<forall>e0 rest n. length cs \<le> n \<longrightarrow>
      (\<exists>e2 ds m. e_load E e0 (cs @ rest) n = Some (e2, ds, m) \<and> e_decode E e2 ds (length ks) = Some (ks, rest))"
    by (elim exE conjE) (rule that)
  have "mem2 = bs @ cs @ tl" using enc(4,5) mem1(3) by (metis append_take_drop_id)
  then have payload: "take (length bs + length cs) mem2 = bs @ cs" by simp
  have "generic_fill D E malloc d e data = Some (bs @ cs, ys)"
    using assms(2) e'(1) n(1) mem1(1) enc(1,2) payload by (simp add: generic_fill_def)
  moreover have "generic_read D E d0 e0 ((bs @ cs) @ rest) (length data) = Some ys" for d0 e0 rest
  proof -
    let ?n = "length (bs @ cs @ rest)"
    obtain d2 m where d2: "d_load D d0 (bs @ cs @ rest) ?n = Some (d2, cs @ rest, m)" "?n \<le> m + length bs"
      "d_decompress D d2 ks (length data) = Some ys"
      using bs(4) by (metis append.assoc length_append le_add1)
    have "length cs \<le> m" using d2(2) by simp
    then obtain e2 ds k where "e_load E e0 (cs @ rest) m = Some (e2, ds, k)" "e_decode E e2 ds (length ks) = Some (ks, rest)"
      using enc(8) by blast
    then show ?thesis using d2 bs(3) by (simp add: generic_read_def)
  qed
  moreover have "dec_room d' + e_size_est E e' \<le> length (bs @ cs)"
    "length (bs @ cs) \<le> dec_room d' + e_size_est E e' + enc_room e' ks" using bs(2) enc(6,7) by simp_all
  ultimately show ?thesis using e'(1) by blast
qed

end

section \<open>The modules without prediction\<close>

definition nopred_fresh :: "linear_quantizer \<Rightarrow> bool" where
  "nopred_fresh q \<longleftrightarrow> quantizer_ok q \<and> unpred q = []"

definition nopred_room :: "linear_quantizer \<Rightarrow> nat" where
  "nopred_room q = 21 + 8 * length (unpred q)"

lemma sint_index: "0 \<le> k \<Longrightarrow> k < 2 ^ 31 \<Longrightarrow> sint (word_of_int k :: int32) = k"
  by (simp add: sint_sbintrunc' signed_take_bit_int_eq_self)

lemma nopred_indices:
  assumes "nopred_fresh q" "nopred_compress q data = Some (ks, ys, q')"
  obtains news where "quantized_all q data ks ys news" "q' = q\<lparr>unpred := news\<rparr>" "map sint (map word_of_int ks :: int32 list) = ks"
    "\<forall>k \<in> set ks. 0 \<le> k \<and> k < 2 * radius q"
proof -
  obtain news where news: "quantized_all q data ks ys news" "q' = q\<lparr>unpred := news\<rparr>"
    using nopred_compress_quantized [OF _ assms(2)] assms(1) by (auto simp: nopred_fresh_def)
  have range: "\<forall>k \<in> set ks. 0 \<le> k \<and> k < 2 * radius q"
    using quantized_all_accepted [OF news(1)] assms(1) by (auto simp: nopred_fresh_def quantizer_ok_def list_all_iff)
  have "sint (word_of_int k :: int32) = k" if "k \<in> set ks" for k
    using range that assms(1) by (intro sint_index) (auto simp: nopred_fresh_def quantizer_ok_def)
  then have "map sint (map word_of_int ks :: int32 list) = ks" by (simp add: map_idI)
  then show thesis using that news range by blast
qed

interpretation nopred: sz_decomposition nopred_ops nopred_fresh nopred_room
proof unfold_locales
  fix q data ks ys q'
  assume q: "nopred_fresh q" "d_compress nopred_ops q data = Some (ks, ys, q')" "length (data :: double list) < 2 ^ 31"
  then obtain js where c: "nopred_compress q data = Some (js, ys, q')" "ks = map word_of_int js"
    by (auto simp: nopred_ops_def)
  obtain news where news: "quantized_all q data js ys news" "q' = q\<lparr>unpred := news\<rparr>" "map sint ks = js"
    using nopred_indices [OF q(1) c(1)] c(2) by metis
  note acc = quantized_all_accepted [OF news(1)]
  have load: "quantizer_load d0 (quantizer_bytes q' @ rest) n =
      Some (d0\<lparr>error_bound := error_bound q', error_bound_reciprocal := f64_div lit_1 (error_bound q'),
               radius := radius q', unpred := unpred q', index := 0\<rparr>, rest, n - 1)"
    if "length (quantizer_bytes q') \<le> n" for d0 rest n
    using that q(1,3) acc news(2)
    by (intro quantizer_load_bytes) (auto simp: nopred_fresh_def quantizer_ok_def length_quantizer_bytes)
  have dec: "\<exists>q3. nopred_decompress (d0\<lparr>error_bound := error_bound q', error_bound_reciprocal := f64_div lit_1 (error_bound q'),
      radius := radius q', unpred := unpred q', index := 0\<rparr>) js (length data) = Some (ys, q3)" for d0
    by (rule nopred_decompress_quantized [OF news(1), of _ "[]"]) (simp_all add: news(2))
  show "\<exists>bs. emits (d_save nopred_ops q') bs \<and> length bs = nopred_room q' \<and> length ks = length data \<and>
      (\<forall>d0 rest n. length bs \<le> n \<longrightarrow> (\<exists>d2 m. d_load nopred_ops d0 (bs @ rest) n = Some (d2, rest, m) \<and>
        n \<le> m + length bs \<and> d_decompress nopred_ops d2 ks (length data) = Some ys))"
  proof (intro exI [of _ "quantizer_bytes q'"] conjI allI impI)
    show "emits (d_save nopred_ops q') (quantizer_bytes q')" by (simp add: nopred_ops_def quantizer_save_emits)
    show "length (quantizer_bytes q') = nopred_room q'" by (simp add: length_quantizer_bytes nopred_room_def)
    show "length ks = length data" using acc c(2) by simp
    fix d0 rest n
    assume "length (quantizer_bytes q') \<le> n"
    then show "\<exists>d2 m. d_load nopred_ops d0 (quantizer_bytes q' @ rest) n = Some (d2, rest, m) \<and>
        n \<le> m + length (quantizer_bytes q') \<and> d_decompress nopred_ops d2 ks (length data) = Some ys"
      using load [of n d0 rest] dec [of d0] news(3) by (auto simp: nopred_ops_def length_quantizer_bytes)
  qed
qed

text \<open>Inputs of the Huffman encoder, and the bytes that the codes take, with what is written past their end.\<close>

definition huffman_input :: "((int32 \<times> nat) list \<Rightarrow> (int32 \<times> nat) list) \<Rightarrow> int32 list \<Rightarrow> bool" where
  "huffman_input ord ks \<longleftrightarrow> iteration_order ord \<and> ks \<noteq> [] \<and> length ks < 2 ^ 31 \<and>
     (\<forall>a \<in> set ks. \<forall>b \<in> set ks. sint a - sint b < 2 ^ 31 - 2)"

definition huffman_room :: "huffman_encoder \<Rightarrow> int32 list \<Rightarrow> nat" where
  "huffman_room e ks = sum_list (map (\<lambda>b. unat (cout (huffmanTree e) ! unat (b - offset e))) ks) div 8 + 17"

lemma prepared_code_length:
  assumes "prepared bins e rt cw" "b \<in> set bins"
  shows "unat (cout (huffmanTree e) ! unat (b - offset e)) = length (cw b)"
  using assms by (cases "t rt = 0") (auto simp: prepared_def coded_def Let_def)

lemma prepared_room:
  assumes "prepared bins e rt cw"
  shows "huffman_room e bins = length (concat (map cw bins)) div 8 + 17"
proof -
  have lengths: "map (\<lambda>b. unat (cout (huffmanTree e) ! unat (b - offset e))) bins = map (\<lambda>b. length (cw b)) bins"
    using prepared_code_length [OF assms] by simp
  show ?thesis unfolding huffman_room_def lengths by (simp add: length_concat comp_def)
qed

interpretation huff: sz_encoder "huffman_ops undef rl ord" "huffman_input ord" huffman_room
proof unfold_locales
  fix ks e r
  assume "huffman_input ord ks"
  then have ks: "iteration_order ord" "ks \<noteq> []" "length ks < 2 ^ 31" "\<forall>a \<in> set ks. \<forall>b \<in> set ks. sint a - sint b < 2 ^ 31 - 2"
    by (auto simp: huffman_input_def)
  obtain e' rt cw where e': "HuffmanEncoder_preprocess_encode undef rl ord ks = Some e'" "prepared ks e' rt cw"
    using sz_preprocess [OF ks] by blast
  let ?E = "huffman_ops undef rl ord"
  show "\<exists>e'. e_preprocess_encode ?E e ks r = Some e' \<and>
    (\<forall>mem p. p + e_size_est ?E e' + huffman_room e' ks \<le> length mem \<longrightarrow>
      (\<exists>e1 pos mem2 bs tl. e_save ?E e' (mem, p) = Some (e1, pos) \<and> e_encode ?E e1 ks pos = Some (mem2, p + length bs) \<and>
        length mem2 = length mem \<and> take p mem2 = take p mem \<and> drop p mem2 = bs @ tl \<and>
        e_size_est ?E e' \<le> length bs \<and> length bs \<le> e_size_est ?E e' + huffman_room e' ks \<and>
        (\<forall>e0 rest n. length bs \<le> n \<longrightarrow>
          (\<exists>e2 cs m. e_load ?E e0 (bs @ rest) n = Some (e2, cs, m) \<and> e_decode ?E e2 cs (length ks) = Some (ks, rest)))))"
  proof (rule exI [of _ e'], intro conjI allI impI)
    show "e_preprocess_encode ?E e ks r = Some e'" using e'(1) by (simp add: huffman_ops_def)
    fix mem :: "u8 list" and p
    assume "p + e_size_est ?E e' + huffman_room e' ks \<le> length mem"
    then have "p + HuffmanEncoder_size_est (nodeCount e') + (length (concat (map cw ks)) div 8 + 17) \<le> length mem"
      by (simp add: huffman_ops_def prepared_room [OF e'(2)])
    from prepared_codec [OF e'(2) ks(3) this] obtain e1 pos mem2 bs tl where
      codec: "HuffmanEncoder_save e' (mem, p) = Some (e1, pos)" "HuffmanEncoder_encode e1 ks pos = Some (mem2, p + length bs)"
      "length mem2 = length mem" "take p mem2 = take p mem" "drop p mem2 = bs @ tl"
      "length bs = HuffmanEncoder_size_est (nodeCount e') + 8 + ceil8 (length (concat (map cw ks)))"
      "\<forall>rest n. 4 \<le> n \<longrightarrow> (\<exists>e2 cs. HuffmanEncoder_load (bs @ rest) n = Some (e2, cs, n - 4) \<and>
         HuffmanEncoder_decode e2 cs (length ks) = Some (ks, rest))" by blast
    have size: "HuffmanEncoder_size_est (nodeCount e') \<le> length bs"
      "length bs \<le> HuffmanEncoder_size_est (nodeCount e') + huffman_room e' ks" "4 \<le> length bs"
      using codec(6) ceil8_bound(2) [of "length (concat (map cw ks))"] by (simp_all add: prepared_room [OF e'(2)])
    have load: "\<forall>e0 rest n. length bs \<le> n \<longrightarrow>
        (\<exists>e2 cs m. e_load ?E e0 (bs @ rest) n = Some (e2, cs, m) \<and> e_decode ?E e2 cs (length ks) = Some (ks, rest))"
    proof (intro allI impI)
      fix e0 :: huffman_encoder and rest n
      assume "length bs \<le> n"
      then have "4 \<le> n" using size(3) by simp
      then show "\<exists>e2 cs m. e_load ?E e0 (bs @ rest) n = Some (e2, cs, m) \<and> e_decode ?E e2 cs (length ks) = Some (ks, rest)"
        using codec(7) by (fastforce simp: huffman_ops_def)
    qed
    show "\<exists>e1 pos mem2 bs tl. e_save ?E e' (mem, p) = Some (e1, pos) \<and> e_encode ?E e1 ks pos = Some (mem2, p + length bs) \<and>
        length mem2 = length mem \<and> take p mem2 = take p mem \<and> drop p mem2 = bs @ tl \<and>
        e_size_est ?E e' \<le> length bs \<and> length bs \<le> e_size_est ?E e' + huffman_room e' ks \<and>
        (\<forall>e0 rest n. length bs \<le> n \<longrightarrow>
          (\<exists>e2 cs m. e_load ?E e0 (bs @ rest) n = Some (e2, cs, m) \<and> e_decode ?E e2 cs (length ks) = Some (ks, rest)))"
      by (rule exI [of _ e1], rule exI [of _ pos], rule exI [of _ mem2], rule exI [of _ bs], rule exI [of _ tl])
        (use codec(1-5) size(1,2) load in \<open>simp add: huffman_ops_def\<close>)
  qed
qed

interpretation nopred_huff: sz_generic nopred_ops nopred_fresh nopred_room "huffman_ops undef rl ord" "huffman_input ord"
  huffman_room ..

section \<open>The temporary buffer\<close>

lemma lit_1_2_val: "f64_finite lit_1_2" "val lit_1_2 = 5404319552844595 / 2 ^ 52" "\<not> neg lit_1_2"
proof -
  have l: "lit_1_2 = of_nat 0x3FF3333333333333" by (simp add: lit_1_2_def)
  have v: "val lit_1_2 = real (2 ^ 52 + 0x3333333333333) * 2 ^ 1022 / real one_units" "f64_finite lit_1_2 = (1022 < (2046 :: nat))"
    unfolding l by (rule val_mag; simp)+
  show "f64_finite lit_1_2" using v(2) by simp
  have "val lit_1_2 = real (2 ^ 52 + 0x3333333333333) * (1 / 2 ^ 52)"
    unfolding v(1) times_divide_eq_right [symmetric] by (subst pow_one_units [of 1022 52]) simp_all
  then show "val lit_1_2 = 5404319552844595 / 2 ^ 52" by simp
  show "\<not> neg lit_1_2" by (simp add: neg_def lit_1_2_def)
qed

text \<open>A size multiplied by 1.2, up to the rounding.\<close>

lemma scaled_size:
  assumes "est < 2 ^ 50"
  obtains n where "f64_to_size (f64_mul lit_1_2 (f64_of_int (int est))) = Some n" "6 * est < 5 * n + 10" "5 * n \<le> 6 * est + 5"
proof -
  let ?x = "f64_of_int (int est)" and ?y = "f64_mul lit_1_2 (f64_of_int (int est))"
  have x: "f64_finite ?x" "val ?x = real est" using of_int_exact [of "int est"] assms by simp_all
  let ?r = "val lit_1_2 * real est"
  have r: "0 \<le> ?r" "?r \<le> 2 ^ 51" using assms by (simp_all add: lit_1_2_val)
  have big: "(2 :: real) ^ 51 \<le> f64_big" unfolding f64_big_def by (rule power_increasing) simp_all
  have "\<not> neg ?x" by (simp add: f64_of_int_def neg_pack [OF round_units_less])
  then have near: "near ?y ?r" and sign: "\<not> neg ?y"
    using mul_near [OF lit_1_2_val(1) x(1)] r big x(2) lit_1_2_val(3) by simp_all
  have ones: "1 / 2 / real one_units \<le> 1 / 2" by (simp add: one_units_def)
  have "\<bar>?r\<bar> / 2 ^ 53 \<le> 1 / 4" using r by simp
  then have y: "\<bar>val ?y - ?r\<bar> \<le> 3 / 4" using nearD(2) [OF near] ones by linarith
  have t: "0 \<le> f64_trunc ?y" "real_of_int (f64_trunc ?y) \<le> \<bar>val ?y\<bar>" "\<bar>val ?y\<bar> < real_of_int (f64_trunc ?y) + 1"
    using trunc_val [of ?y] sign by auto
  have "\<bar>v - r\<bar> \<le> 3 / 4 \<Longrightarrow> 0 \<le> r \<Longrightarrow> r \<le> 2 ^ 51 \<Longrightarrow> real_of_int i \<le> \<bar>v\<bar> \<Longrightarrow> i < 2 ^ 64" for v r :: real and i
    by (simp add: abs_if split: if_splits)
  from this [OF y r t(2)] have "f64_trunc ?y < 2 ^ 64" .
  then have size: "f64_to_size ?y = Some (nat (f64_trunc ?y))"
    using nearD(1) [OF near] t(1) by (simp add: f64_to_size_def)
  have low: "?r \<ge> real est * (6 / 5) - 1 / 4" and up: "?r \<le> real est * (6 / 5)"
    using assms by (simp_all add: lit_1_2_val)
  have "\<bar>v - r\<bar> \<le> 3 / 4 \<Longrightarrow> e * (6 / 5) - 1 / 4 \<le> r \<Longrightarrow> \<bar>v\<bar> < u + 1 \<Longrightarrow> e * (6 / 5) < u + 2" for v r e u :: real
    by (simp add: abs_if split: if_splits)
  from this [OF y low t(3)] have "6 * est < 5 * nat (f64_trunc ?y) + 10" using t(1) by linarith
  moreover have "\<bar>v - r\<bar> \<le> 3 / 4 \<Longrightarrow> 0 \<le> r \<Longrightarrow> r \<le> e * (6 / 5) \<Longrightarrow> u \<le> \<bar>v\<bar> \<Longrightarrow> u \<le> e * (6 / 5) + 3 / 4" for v r e u :: real
    by (simp add: abs_if split: if_splits)
  from this [OF y r(1) up t(2)] have "5 * nat (f64_trunc ?y) \<le> 6 * est + 5" using t(1) by linarith
  ultimately show thesis using that size by blast
qed

lemma bufferSize_bound:
  assumes "est < 2 ^ 50"
  shows "\<exists>n. generic_bufferSize est = Some n \<and> 1000 \<le> n \<and> 6 * est < 5 * n + 10"
proof -
  obtain n where n: "f64_to_size (f64_mul lit_1_2 (f64_of_int (int est))) = Some n" "6 * est < 5 * n + 10"
    by (rule scaled_size [OF assms]) (rule that)
  then show ?thesis unfolding generic_bufferSize_def n(1) by (intro exI [of _ "max 1000 n"]) auto
qed

lemma quantized_count: "quantized_all q xs ks ys news \<Longrightarrow> length news = count_list ks 0"
  by (induction rule: quantized_all.induct) (auto simp: quantized_def)

lemma count_map_index:
  assumes "\<forall>k \<in> set ks. 0 \<le> k \<and> k < 2 ^ 31"
  shows "count_list (map word_of_int ks :: int32 list) 0 = count_list ks (0 :: int)"
proof -
  have "(word_of_int k :: int32) = 0 \<longleftrightarrow> k = 0" if "k \<in> set ks" for k
    using sint_index [of k] assms that by auto
  then show ?thesis by (induction ks) auto
qed

lemma bits_count: "\<forall>b \<in> set bins. length (cw b) \<le> k \<Longrightarrow>
    length (concat (map cw bins)) \<le> count_list bins x * length (cw x) + k * (length bins - count_list bins x)"
proof (induction bins)
  case (Cons b bins)
  have le: "count_list bins x \<le> length bins" by (rule count_le_length)
  show ?case
  proof (cases "b = x")
    case True
    then show ?thesis using Cons by simp
  next
    case False
    then have "length (b # bins) - count_list (b # bins) x = Suc (length bins - count_list bins x)" using le by simp
    then show ?thesis using Cons False by simp
  qed
qed simp

text \<open>The codes and the values kept verbatim together: a value that is kept costs eight bytes and the code of
  the index 0, and those codes together take at most one bit per value.\<close>

lemma prepared_cost:
  assumes "prepared bins e rt cw"
  shows "64 * count_list bins 0 + length (concat (map cw bins)) \<le> 65 * length bins"
proof -
  let ?k = "count_list bins 0"
  have "length (concat (map cw bins)) \<le> ?k * length (cw 0) + 44 * (length bins - ?k)"
    using assms by (intro bits_count) (simp add: prepared_def)
  moreover have "?k * length (cw 0) \<le> length bins"
  proof (cases "0 \<in> set bins")
    case True
    then show ?thesis using assms by (simp add: prepared_def)
  next
    case False
    then show ?thesis by (simp add: count_list_0_iff)
  qed
  moreover have "?k \<le> length bins" by (rule count_le_length)
  ultimately show ?thesis by linarith
qed

lemma buffer_suffices:
  assumes "prepared bins e rt cw" "bins \<noteq> []" "length bins < 2 ^ 31" "k = count_list bins 0"
  shows "\<exists>n. generic_bufferSize (HuffmanEncoder_size_est (nodeCount e) + 8 * length bins) = Some n \<and>
    21 + 8 * k + HuffmanEncoder_size_est (nodeCount e) + huffman_room e bins \<le> n"
proof -
  let ?hs = "HuffmanEncoder_size_est (nodeCount e)" and ?m = "length bins" and ?bits = "length (concat (map cw bins))"
  have cost: "64 * k + ?bits \<le> 65 * ?m" using prepared_cost [OF assms(1)] assms(4) by simp
  have room: "huffman_room e bins = ?bits div 8 + 17" by (rule prepared_room [OF assms(1)])
  have cnt: "nodeCount e + 1 \<le> 2 * ?m" "1 \<le> nodeCount e"
    using assms(1) card_length [of bins] full_nodes [of rt] by (auto simp: prepared_def)
  have hs: "?hs \<le> 26 * ?m" using size_est_bound [of "nodeCount e"] cnt(1) by simp
  have "?hs + 8 * ?m < 2 ^ 50" using hs assms(3) by simp
  from bufferSize_bound [OF this] obtain n where n: "generic_bufferSize (?hs + 8 * ?m) = Some n" "1000 \<le> n"
    "6 * (?hs + 8 * ?m) < 5 * n + 10" by blast
  have bytes: "8 * (?bits div 8) \<le> ?bits" by simp
  have "21 + 8 * k + ?hs + (?bits div 8 + 17) \<le> n"
  proof (cases "?m \<le> 26")
    case True
    then have "?hs \<le> 370" using cnt by (simp add: HuffmanEncoder_size_est_def index_width_def)
    then show ?thesis using cost bytes n(2) True by linarith
  next
    case False
    have "18 \<le> ?hs" using cnt(2) by (simp add: HuffmanEncoder_size_est_def)
    moreover have "40 * k + 5 * (?bits div 8) \<le> 41 * ?m" using cost bytes by simp
    moreover have "21 + 8 * k + h + (x + 17) \<le> n"
      if "18 \<le> h" "40 * k + 5 * x \<le> 41 * m" "6 * (h + 8 * m) < 5 * n + 10" "\<not> m \<le> 26" for h x m :: nat
    proof -
      have "199 \<le> h + 7 * m" using that(1,4) by simp
      then have "5 * (21 + 8 * k + h + (x + 17)) < 5 * n + 1" using that(2,3) by simp
      then show ?thesis by simp
    qed
    ultimately show ?thesis using n(3) False by blast
  qed
  then show ?thesis using n(1) room by auto
qed

section \<open>Compression without prediction\<close>

lemma huffman_input_indices:
  assumes "iteration_order ord" "ks \<noteq> []" "length ks < 2 ^ 31" "\<forall>k \<in> set ks. 0 \<le> k \<and> k < 2 * r" "r < 2 ^ 30"
  shows "huffman_input ord (map word_of_int ks)"
proof -
  have "sint (word_of_int a :: int32) - sint (word_of_int b :: int32) < 2 ^ 31 - 2" if "a \<in> set ks" "b \<in> set ks" for a b
  proof -
    have ab: "0 \<le> a" "a < 2 * r" "0 \<le> b" "b < 2 * r" using assms(4) that by auto
    then have "sint (word_of_int a :: int32) = a" "sint (word_of_int b :: int32) = b"
      using assms(5) by (auto intro!: sint_index)
    then show ?thesis using ab assms(5) by simp
  qed
  then show ?thesis using assms(1-3) by (simp add: huffman_input_def)
qed

definition runs_on :: "sz_env \<Rightarrow> bool" where
  "runs_on v \<longleftrightarrow> iteration_order (env_ord v) \<and> (\<forall>n. length (env_malloc v n) = n)"

text \<open>The buffer without prediction: it is never overrun, it takes at least 41 bytes and eight for every value
  kept verbatim, and whatever follows it, it is read back.\<close>

lemma nopred_fill:
  assumes "runs_on v" "LinearQuantizer eb r = Some q" "0 < r" "r < 2 ^ 30" "\<not> neg eb"
    "nopred_compress q data = Some (ks, ys, q')" "data \<noteq> []" "length data < 2 ^ 31"
  obtains payload e rt cw where "generic_fill nopred_ops (env_huffman v) (env_malloc v) q HuffmanEncoder data = Some (payload, ys)"
    "prepared (map word_of_int ks) e rt cw"
    "21 + 8 * length (unpred q') + HuffmanEncoder_size_est (nodeCount e) \<le> length payload"
    "length payload \<le> 21 + 8 * length (unpred q') + HuffmanEncoder_size_est (nodeCount e) + huffman_room e (map word_of_int ks)"
    "\<And>d0 e0 rest. generic_read nopred_ops (env_huffman v) d0 e0 (payload @ rest) (length data) = Some ys"
    "list_all2 (\<lambda>x y. y = x \<or> \<not> f64_lt eb (f64_abs (f64_sub y x))) data ys"
proof -
  have q: "unpred q = []" "radius q = r" "error_bound q = eb" "error_bound_reciprocal q = f64_div lit_1 eb"
    using assms(2) by (auto simp: LinearQuantizer_def split: if_splits)
  have fresh: "nopred_fresh q" using q assms(3-5) reciprocal_not_neg by (simp add: nopred_fresh_def quantizer_ok_def)
  obtain news where news: "quantized_all q data ks ys news" "q' = q\<lparr>unpred := news\<rparr>" "\<forall>k \<in> set ks. 0 \<le> k \<and> k < 2 * radius q"
    using nopred_indices [OF fresh assms(6)] by metis
  let ?ks = "map word_of_int ks :: int32 list"
  note acc = quantized_all_accepted [OF news(1)]
  have len: "length ?ks = length data" using acc by simp
  have ks: "?ks \<noteq> []" "length ?ks < 2 ^ 31" using len assms(7,8) by auto
  have k: "length (unpred q') = count_list ?ks 0"
    using quantized_count [OF news(1)] count_map_index [of ks] news(2,3) q(2) assms(4) by fastforce
  have input: "huffman_input (env_ord v) ?ks"
    using assms(1,4) ks news(3) q(2) by (intro huffman_input_indices) (auto simp: runs_on_def)
  have range: "\<forall>a \<in> set ?ks. \<forall>b \<in> set ?ks. sint a - sint b < 2 ^ 31 - 2" "iteration_order (env_ord v)"
    using input by (auto simp: huffman_input_def)
  obtain e rt cw where e: "HuffmanEncoder_preprocess_encode (env_undef v) (env_rl v) (env_ord v) ?ks = Some e" "prepared ?ks e rt cw"
    using sz_preprocess [OF range(2) ks range(1)] by blast
  let ?E = "huffman_ops (env_undef v) (env_rl v) (env_ord v)"
  have d: "d_compress nopred_ops q data = Some (?ks, ys, q')" using assms(6) by (simp add: nopred_ops_def)
  have room: "\<exists>n. generic_bufferSize (d_size_est nopred_ops q' + e_size_est ?E e' + 8 * length ?ks) = Some n \<and>
      nopred_room q' + e_size_est ?E e' + huffman_room e' ?ks \<le> n \<and> length (env_malloc v n) = n"
    if "e_preprocess_encode ?E HuffmanEncoder ?ks (d_get_radius nopred_ops q' * 2) = Some e'" for e'
  proof -
    have "e' = e" using that e(1) by (simp add: huffman_ops_def)
    then show ?thesis
      using buffer_suffices [OF e(2) ks k] assms(1) by (simp add: nopred_ops_def huffman_ops_def nopred_room_def runs_on_def)
  qed
  obtain payload e' where p: "generic_fill nopred_ops ?E (env_malloc v) q HuffmanEncoder data = Some (payload, ys)"
    "e_preprocess_encode ?E HuffmanEncoder ?ks (d_get_radius nopred_ops q' * 2) = Some e'"
    "nopred_room q' + e_size_est ?E e' \<le> length payload"
    "length payload \<le> nopred_room q' + e_size_est ?E e' + huffman_room e' ?ks"
    "\<forall>d0 e0 rest. generic_read nopred_ops ?E d0 e0 (payload @ rest) (length data) = Some ys"
    using nopred_huff.fill_read [OF fresh d assms(8) input room] by blast
  have "e' = e" using p(2) e(1) by (simp add: huffman_ops_def)
  then show thesis
    using that [of payload e rt cw] p e(2) acc q(3) by (simp add: env_huffman_def huffman_ops_def nopred_room_def)
qed

text \<open>What is documented of Zstandard: a size that is no error code is the number of bytes written, and they
  decompress to the source in any buffer that can hold it; a smaller one gives an error code.\<close>

definition zstd_restores :: "zstd_lib \<Rightarrow> bool" where
  "zstd_restores z \<longleftrightarrow> (\<forall>src cap bytes n. ZSTD_compress z cap src 3 = (bytes, n) \<and> \<not> ERR_isError n \<longrightarrow>
     n = of_nat (length bytes) \<and> (\<forall>cap'. length src \<le> unat cap' \<longrightarrow> fst (ZSTD_decompress z cap' bytes) = src))"

definition zstd_checks :: "zstd_lib \<Rightarrow> bool" where
  "zstd_checks z \<longleftrightarrow> (\<forall>src cap bytes n. ZSTD_compress z cap src 3 = (bytes, n) \<and> \<not> ERR_isError n \<longrightarrow>
     (\<forall>cap'. unat cap' < length src \<longrightarrow> ERR_isError (snd (ZSTD_decompress z cap' bytes))))"

end
