(* ===== verification/Sz3_Nopred.thy ===== *)
theory Sz3_Nopred
  imports Sz3_Pipeline
begin

text \<open>
  Compression and decompression without prediction, \<open>api/impl/SZAlgo.hpp\<close>: the composition of the error bound, the
  quantiser, the Huffman encoder, the generic compressor and Zstandard.
\<close>

section \<open>Configurations\<close>

lemma calAbs_keeps:
  assumes "calAbsErrorBound m conf data rng = Inr conf'"
  shows "cmprAlgo conf' = cmprAlgo conf" "num conf' = num conf" "N conf' = N conf" "quantbinCnt conf' = quantbinCnt conf"
    "errorBoundMode conf = EB_num EB_ABS \<Longrightarrow> conf' = conf"
    "dims conf' = dims conf" "sz3MagicNumber conf' = sz3MagicNumber conf" "sz3DataVer conf' = sz3DataVer conf"
  using assms by (auto simp: calAbsErrorBound_def Let_def split: if_splits option.splits)

lemma half_int_radius: "2 \<le> sint (x :: int32) \<Longrightarrow> 0 < half_int (sint x) \<and> half_int (sint x) < 2 ^ 30"
proof -
  assume "2 \<le> sint x"
  moreover have "0 < i div 2 \<and> i div 2 < 2 ^ 30" if "2 \<le> i" "i < 2 ^ 31" for i :: int using that by auto
  ultimately show ?thesis using sint_lt [of x] by (simp add: half_int_def)
qed

lemma size_est_least: "1 \<le> cnt \<Longrightarrow> 20 \<le> HuffmanEncoder_size_est cnt"
proof -
  assume "1 \<le> cnt"
  moreover have "1 \<le> index_width cnt" by (simp add: index_width_def)
  ultimately have "1 \<le> cnt * index_width cnt" by simp
  then have "2 \<le> 2 * cnt * index_width cnt" by simp
  then show ?thesis using \<open>1 \<le> cnt\<close> unfolding HuffmanEncoder_size_est_def by linarith
qed

lemma prepared_nodes: "prepared bins e rt cw \<Longrightarrow> 1 \<le> nodeCount e"
  using full_nodes [of rt] by (auto simp: prepared_def)

lemma nopred_conf:
  assumes "runs_on v" "conf_quantizer conf = Some q" "\<not> neg (absErrorBound conf)" "2 \<le> sint (quantbinCnt conf)"
    "nopred_compress q data = Some (ks, ys, q')" "data \<noteq> []" "length data < 2 ^ 31"
  obtains payload where "generic_fill nopred_ops (env_huffman v) (env_malloc v) q HuffmanEncoder data = Some (payload, ys)"
    "41 + 8 * length (unpred q') \<le> length payload"
    "\<And>d0 e0 rest. generic_read nopred_ops (env_huffman v) d0 e0 (payload @ rest) (length data) = Some ys"
    "list_all2 (\<lambda>x y. y = x \<or> \<not> f64_lt (absErrorBound conf) (f64_abs (f64_sub y x))) data ys"
proof -
  have q: "LinearQuantizer (absErrorBound conf) (half_int (sint (quantbinCnt conf))) = Some q"
    using assms(2) by (simp add: conf_quantizer_def)
  note r = half_int_radius [OF assms(4)]
  obtain payload e rt cw where p: "generic_fill nopred_ops (env_huffman v) (env_malloc v) q HuffmanEncoder data = Some (payload, ys)"
    "prepared (map word_of_int ks) e rt cw"
    "21 + 8 * length (unpred q') + HuffmanEncoder_size_est (nodeCount e) \<le> length payload"
    "length payload \<le> 21 + 8 * length (unpred q') + HuffmanEncoder_size_est (nodeCount e) + huffman_room e (map word_of_int ks)"
    "\<And>d0 e0 rest. generic_read nopred_ops (env_huffman v) d0 e0 (payload @ rest) (length data) = Some ys"
    "list_all2 (\<lambda>x y. y = x \<or> \<not> f64_lt (absErrorBound conf) (f64_abs (f64_sub y x))) data ys"
    by (rule nopred_fill [OF assms(1) q conjunct1 [OF r] conjunct2 [OF r] assms(3,5-7)]) (rule that, assumption+)
  have "41 + 8 * length (unpred q') \<le> length payload"
    using p(3) size_est_least [OF prepared_nodes [OF p(2)]] by simp
  then show thesis using that p(1,5,6) by blast
qed

section \<open>Concrete environments\<close>

text \<open>A compressor that stores its input, and the series of zeros with the bound 1.\<close>

definition stored_zstd :: zstd_lib where
  "stored_zstd =
     \<lparr>ZSTD_compress = (\<lambda>cap src level. if length src \<le> unat cap then (src, of_nat (length src)) else ([], ZSTD_ERROR 70)),
      ZSTD_decompress = (\<lambda>cap src. if length src \<le> unat cap then (src, of_nat (length src)) else ([], ZSTD_ERROR 70))\<rparr>"

definition stored_env :: sz_env where
  "stored_env =
     \<lparr>env_libm = \<lparr>m_log10 = id, m_pow = f64_add, m_sqrt = id\<rparr>, env_malloc = (\<lambda>n. replicate n 0), env_zstd = stored_zstd,
      env_undef = 0, env_rl = False, env_ord = rev\<rparr>"

definition unit_conf :: "u64 \<Rightarrow> u8 \<Rightarrow> config" where
  "unit_conf n algo = (Config [n])\<lparr>cmprAlgo := algo, absErrorBound := lit_1, quantbinCnt := 8\<rparr>"

definition unit_quantizer :: linear_quantizer where
  "unit_quantizer = \<lparr>unpred = [], index = 0, error_bound = lit_1, error_bound_reciprocal = f64_div lit_1 lit_1, radius = 4\<rparr>"

lemma error_code: "ERR_isError (ZSTD_ERROR 70)"
  by (simp add: ERR_isError_def ZSTD_ERROR_def)

lemma stored_restores: "zstd_restores stored_zstd"
  unfolding zstd_restores_def
proof (intro allI impI)
  fix src cap bytes n
  assume a: "ZSTD_compress stored_zstd cap src 3 = (bytes, n) \<and> \<not> ERR_isError n"
  have "length src \<le> unat cap"
  proof (rule ccontr)
    assume "\<not> length src \<le> unat cap"
    then show False using a error_code by (auto simp: stored_zstd_def)
  qed
  then show "n = of_nat (length bytes) \<and> (\<forall>cap'. length src \<le> unat cap' \<longrightarrow> fst (ZSTD_decompress stored_zstd cap' bytes) = src)"
    using a by (auto simp: stored_zstd_def)
qed

lemma stored_checks: "zstd_checks stored_zstd"
  unfolding zstd_checks_def
proof (intro allI impI)
  fix src cap bytes n and cap' :: u64
  assume a: "ZSTD_compress stored_zstd cap src 3 = (bytes, n) \<and> \<not> ERR_isError n" "unat cap' < length src"
  have "length src \<le> unat cap"
  proof (rule ccontr)
    assume "\<not> length src \<le> unat cap"
    then show False using a error_code by (auto simp: stored_zstd_def)
  qed
  then show "ERR_isError (snd (ZSTD_decompress stored_zstd cap' bytes))"
    using a error_code by (auto simp: stored_zstd_def)
qed

lemma stored_runs: "runs_on stored_env"
  by (simp add: runs_on_def stored_env_def iteration_order_rev)

lemma unit_conf_fields:
  "1 < n \<Longrightarrow> num (unit_conf n algo) = n" "N (unit_conf n algo) = 1" "cmprAlgo (unit_conf n algo) = algo"
  "calAbsErrorBound m (unit_conf n algo) data rng = Inr (unit_conf n algo)"
  "conf_quantizer (unit_conf n algo) = Some unit_quantizer"
  "absErrorBound (unit_conf n algo) = lit_1" "sint (quantbinCnt (unit_conf n algo)) = 8"
proof -
  show "1 < n \<Longrightarrow> num (unit_conf n algo) = n" "N (unit_conf n algo) = 1" by (simp_all add: unit_conf_def Config_fields)
  show "cmprAlgo (unit_conf n algo) = algo" "absErrorBound (unit_conf n algo) = lit_1" by (simp_all add: unit_conf_def)
  have "errorBoundMode (unit_conf n algo) = EB_num EB_ABS"
    by (simp add: unit_conf_def Config_def setDims_def config_init_def Let_def)
  then show "calAbsErrorBound m (unit_conf n algo) data rng = Inr (unit_conf n algo)" by (simp add: calAbsErrorBound_def)
  show q: "sint (quantbinCnt (unit_conf n algo)) = 8" by (simp add: unit_conf_def)
  show "conf_quantizer (unit_conf n algo) = Some unit_quantizer"
    unfolding conf_quantizer_def q using reciprocal_one(3)
    by (simp add: unit_conf_def unit_quantizer_def half_int_def LinearQuantizer_def)
qed

lemma unit_zeros: "nopred_compress unit_quantizer (replicate n 0) = Some (replicate n 4, replicate n 0, unit_quantizer)"
proof (induction n)
  case (Suc n)
  have "\<not> f64_lt 0 0" "\<not> f64_lt lit_1 0" using zero_facts lit_1_val by (simp_all add: lt_val)
  then have "quantize_and_overwrite unit_quantizer 0 0 = Some (4, 0, unit_quantizer)"
    using mul_zero [OF reciprocal_one(1,2)]
    by (simp add: quantize_and_overwrite_def unit_quantizer_def zero_ops int_expr_def)
  with Suc show ?case by simp
qed simp

text \<open>Equal indices take at most one bit each.\<close>

lemma constant_room:
  assumes "prepared (replicate n x) e rt cw" "0 < n"
  shows "HuffmanEncoder_size_est (nodeCount e) + huffman_room e (replicate n x) \<le> 37 + n div 8"
proof -
  have "count_list (replicate n x) x = n" by (induction n) simp_all
  moreover have "count_list (replicate n x) x * length (cw x) \<le> n"
    using assms unfolding prepared_def by auto
  ultimately have "n * length (cw x) \<le> n" by simp
  then have "length (concat (map cw (replicate n x))) \<le> n" by (simp add: length_concat map_replicate_const sum_list_replicate)
  then have "huffman_room e (replicate n x) \<le> n div 8 + 17"
    unfolding prepared_room [OF assms(1)] by (simp add: div_le_mono)
  moreover have "nodeCount e = 1" using assms by (auto simp: prepared_def)
  ultimately show ?thesis by (simp add: HuffmanEncoder_size_est_def index_width_def)
qed

lemma unit_payload:
  assumes "0 < n" "n < 2 ^ 31"
  obtains payload where
    "generic_fill nopred_ops (env_huffman stored_env) (env_malloc stored_env) unit_quantizer HuffmanEncoder (replicate n 0) =
       Some (payload, replicate n 0)" "length payload \<le> 58 + n div 8"
proof -
  have q: "LinearQuantizer lit_1 4 = Some unit_quantizer"
    using reciprocal_one(3) by (simp add: LinearQuantizer_def unit_quantizer_def)
  have ne: "replicate n (0 :: double) \<noteq> []" "length (replicate n (0 :: double)) < 2 ^ 31" using assms by simp_all
  obtain payload e rt cw where p:
    "generic_fill nopred_ops (env_huffman stored_env) (env_malloc stored_env) unit_quantizer HuffmanEncoder (replicate n 0) =
       Some (payload, replicate n 0)" "prepared (map word_of_int (replicate n 4)) e rt cw"
    "length payload \<le> 21 + 8 * length (unpred unit_quantizer) + HuffmanEncoder_size_est (nodeCount e) +
      huffman_room e (map word_of_int (replicate n 4))"
    by (rule nopred_fill [OF stored_runs q _ _ lit_1_val(3) unit_zeros ne]) (simp, simp, rule that, assumption+)
  have "prepared (replicate n 4) e rt cw" using p(2) by (simp add: map_replicate)
  from constant_room [OF this assms(1)] show thesis
    using that p(1,3) by (simp add: unit_quantizer_def map_replicate)
qed

section \<open>Properties\<close>







end
