(* ===== verification/Sz3_Api.thy ===== *)
theory Sz3_Api
  imports Sz3_Nopred
begin

text \<open>
  The entry points \<open>SZ_compress\<close> and \<open>SZ_decompress\<close> of \<open>api/sz.hpp\<close> and the dispatcher behind them: what the
  header, the lossless mode, the return values and the sizes of the buffers guarantee and what they do not.
\<close>

section \<open>The lossless mode\<close>

text \<open>A bound of 0: the header, and after it what Zstandard makes of the bytes of the data.\<close>

lemma lossless_compress:
  assumes "length (dims conf) \<le> 15" "N conf \<in> {1, 2, 3, 4}" "unat (num conf) = length data" "num conf * 8 \<le> cmpCap"
    "calAbsErrorBound (env_libm v) (conf\<lparr>openmp := False\<rparr>) data 0 = Inr conf'" "f64_eq (absErrorBound conf') 0"
    "ZSTD_compress (env_zstd v) (cmpCap - 192) (array_bytes 8 data) 3 = (bytes, k)"
    "config_size_est + length bytes \<le> length mem"
  obtains mem' rest where "SZ_compress v A conf data mem cmpCap = Inr (mem', 192 + k)"
    "mem' = config_bytes conf' @ rest"
    "drop config_size_est mem' = bytes @ drop (config_size_est + length bytes) mem" "length mem' = length mem"
proof -
  note keep = calAbs_keeps [OF assms(5)]
  have "SZ_compress_impl v A (unat (N conf)) conf data (cmpCap - 192) = Inr (conf', data, bytes, k)"
    using assms(3,5-7) by (simp add: SZ_compress_impl_def SZ_compress_dispatcher_def Lossless_zstd_def)
  then have impl: "SZ_compress_impl v A (unat (N conf)) conf data (cmpCap - of_nat config_size_est) = Inr (conf', data, bytes, k)"
    by (simp add: config_size_est_def)
  let ?mem = "mem_write mem config_size_est bytes"
  have d: "length (dims conf') \<le> 15" using keep(6) assms(1) by simp
  have "0 + config_size_est \<le> length ?mem" using assms(8) by simp
  then obtain mem' where m: "config_save conf' (?mem, 0) = Inr (mem', 0 + config_size_est)"
    "drop 0 mem' = config_bytes conf' @ drop (0 + length (config_bytes conf')) ?mem"
    "drop (0 + config_size_est) mem' = drop (0 + config_size_est) ?mem" "length mem' = length ?mem"
    by (rule config_saved [OF d]) (rule that, assumption+)
  have "SZ_compress v A conf data mem cmpCap = Inr (mem', of_nat config_size_est + k)"
    using assms(2,4,8) m(1) impl by (auto simp: SZ_compress_def store_def Let_def not_less)
  then have "SZ_compress v A conf data mem cmpCap = Inr (mem', 192 + k)" by (simp add: config_size_est_def)
  then show thesis
    using that m(2-4) drop_mem_write [OF assms(8)] assms(8) by simp
qed

text \<open>The fields that the header restores.\<close>

lemma loaded_header:
  assumes "length (dims conf) \<le> 15" "N conf = of_nat (length (dims conf))"
  obtains conf' where "config_load conf0 (config_bytes conf @ rest) = Inr (conf', drop config_size_est (config_bytes conf @ rest))"
    "sz3MagicNumber conf' = sz3MagicNumber conf" "sz3DataVer conf' = sz3DataVer conf" "N conf' = N conf" "num conf' = num conf"
    "absErrorBound conf' = absErrorBound conf" "cmprAlgo conf' = cmprAlgo conf"
  using config_load_bytes [OF assms, of conf0 rest] that by simp

text \<open>The version that a configuration is born with.\<close>

lemma current_version: "versionStr (sz3DataVer config_init) = SZ3_DATA_VER"
proof -
  have u: "read_uint ''3.2.0'' = Some (3, ''.2.0'')" "read_uint ''2.0'' = Some (2, ''.0'')" "read_uint ''0'' = Some (0, [])"
    by (simp_all add: read_uint_def is_digit_def)
  have "versionInt SZ3_DATA_VER = Some (push_bit 24 3 OR push_bit 16 2 OR push_bit 8 0)"
    unfolding versionInt_def SZ3_DATA_VER_def by (simp only: u option.simps list.simps prod.case Option.bind.simps)
  then show ?thesis
    by (simp add: config_init_def versionStr_def SZ3_DATA_VER_def to_string.simps push_bit_eq_mult char_of_eq_iff)
qed

lemma unit_conf_header:
  "dims (unit_conf 20 algo) = [20]" "sz3MagicNumber (unit_conf n algo) = SZ3_MAGIC_NUMBER"
  "sz3DataVer (unit_conf n algo) = sz3DataVer config_init"
  by (simp_all add: unit_conf_def Config_fields) (simp_all add: Config_def setDims_def config_init_def Let_def)

text \<open>The bound 0, and algorithms that do nothing.\<close>

definition zero_conf :: "u64 \<Rightarrow> config" where
  "zero_conf n = (Config [n])\<lparr>absErrorBound := 0\<rparr>"

definition no_algos :: sz_algos where
  "no_algos =
     \<lparr>SZ_compress_LorenzoReg = (\<lambda>_ _ _ _. Inl Undefined), SZ_compress_Interp = (\<lambda>_ _ _ _. Inl Undefined),
      SZ_compress_Interp_lorenzo = (\<lambda>_ _ _ _. Inl Undefined), SZ_decompress_LorenzoReg = (\<lambda>_ _ _ _. Inl Undefined),
      SZ_decompress_Interp = (\<lambda>_ _ _ _. Inl Undefined)\<rparr>"

lemma zero_conf_fields:
  assumes "1 < n"
  shows "dims (zero_conf n) = [n]" "N (zero_conf n) = 1" "num (zero_conf n) = n"
    "sz3MagicNumber (zero_conf n) = SZ3_MAGIC_NUMBER" "sz3DataVer (zero_conf n) = sz3DataVer config_init"
    "calAbsErrorBound m ((zero_conf n)\<lparr>openmp := False\<rparr>) data rng = Inr ((zero_conf n)\<lparr>openmp := False\<rparr>)"
    "absErrorBound (zero_conf n) = 0"
proof -
  show "dims (zero_conf n) = [n]" "N (zero_conf n) = 1" "num (zero_conf n) = n" "absErrorBound (zero_conf n) = 0"
    using assms by (simp_all add: zero_conf_def Config_fields)
  show "sz3MagicNumber (zero_conf n) = SZ3_MAGIC_NUMBER" "sz3DataVer (zero_conf n) = sz3DataVer config_init"
    by (simp_all add: zero_conf_def) (simp_all add: Config_def setDims_def config_init_def Let_def)
  have "errorBoundMode (zero_conf n) = EB_num EB_ABS"
    by (simp add: zero_conf_def Config_def setDims_def config_init_def Let_def)
  then show "calAbsErrorBound m ((zero_conf n)\<lparr>openmp := False\<rparr>) data rng = Inr ((zero_conf n)\<lparr>openmp := False\<rparr>)"
    by (simp add: calAbsErrorBound_def)
qed

lemma f64_eq_lits: "f64_eq 0 0" "\<not> f64_eq lit_1 0"
proof -
  show "f64_eq 0 0" using zero_facts by (simp add: f64_eq_def f64_nan_def)
  have "val lit_1 \<noteq> val 0" using lit_1_val zero_facts by simp
  then show "\<not> f64_eq lit_1 0" by (auto simp: f64_eq_def val_def)
qed

section \<open>Properties\<close>

text \<open>C34: with the bound 0 compression is lossless: \<open>SZ_compress\<close> leaves the header and the output of Zstandard in
  the caller's buffer and returns their size, and \<open>SZ_decompress\<close>, told to read only the bytes after the header,
  writes exactly the values that were compressed, whatever configuration object and whatever memory it gets.\<close>
theorem sz3_lossless_roundtrip:
  assumes "zstd_restores (env_zstd v)" "length (dims conf) \<le> 4" "dims conf \<noteq> []" "N conf = of_nat (length (dims conf))"
    "sz3MagicNumber conf = SZ3_MAGIC_NUMBER" "sz3DataVer conf = sz3DataVer config_init"
    "unat (num conf) = length data" "length data < 2 ^ 60" "num conf * 8 \<le> cmpCap"
    "calAbsErrorBound (env_libm v) (conf\<lparr>openmp := False\<rparr>) data 0 = Inr conf'" "f64_eq (absErrorBound conf') 0"
    "ZSTD_compress (env_zstd v) (cmpCap - 192) (array_bytes 8 data) 3 = (bytes, k)" "\<not> ERR_isError k"
    "config_size_est + length bytes \<le> length mem" "length old = length data"
  shows "\<exists>mem'. SZ_compress v A conf data mem cmpCap = Inr (mem', 192 + k) \<and>
    (\<exists>conf''. SZ_decompress v A conf0 mem' (length bytes) (Some old) = Inr (conf'', data))"
proof -
  have n: "N conf \<in> {1, 2, 3, 4}" using assms(2-4) by (cases "dims conf") (auto simp: le_Suc_eq numeral_eq_Suc)
  have "length (dims conf) \<le> 15" using assms(2) by simp
  then obtain mem' rest where m: "SZ_compress v A conf data mem cmpCap = Inr (mem', 192 + k)"
    "mem' = config_bytes conf' @ rest" "drop config_size_est mem' = bytes @ drop (config_size_est + length bytes) mem"
    by (rule lossless_compress [where A = A, OF _ n assms(7,9-12,14)]) (rule that, assumption+)
  note keep = calAbs_keeps [OF assms(10)]
  have d: "length (dims conf') \<le> 15" "N conf' = of_nat (length (dims conf'))" using keep assms(2,4) by simp_all
  obtain conf2 where l: "config_load conf0 mem' = Inr (conf2, drop config_size_est mem')"
    "sz3MagicNumber conf2 = sz3MagicNumber conf'" "sz3DataVer conf2 = sz3DataVer conf'" "N conf2 = N conf'" "num conf2 = num conf'"
    "absErrorBound conf2 = absErrorBound conf'"
    using loaded_header [of conf' conf0 rest, OF d] unfolding m(2) by metis
  have "unat (num conf * 8) = 8 * length data" using assms(7,8) by (simp add: unat_mult_lem [THEN iffD1])
  then have z: "fst (ZSTD_decompress (env_zstd v) (num conf * 8) bytes) = array_bytes 8 data"
    using assms(1,12,13) by (auto simp: zstd_restores_def)
  have st: "store (array_bytes 8 old) 0 (array_bytes 8 data) = Some (array_bytes 8 data)"
    using assms(15) by (simp add: store_def mem_write_def)
  have ra: "read_array 8 (length old) (array_bytes 8 data) = Some (data, [])"
    using read_array_bytes [of 8 data "length old" "[]"] assms(15) by simp
  have "SZ_decompress_dispatcher v A (unat (N conf2)) (conf2\<lparr>openmp := False\<rparr>) (drop config_size_est mem') (length bytes) old
      = Inr data"
    using assms(11) l(5,6) keep(2) z st ra m(3)
    by (simp add: SZ_decompress_dispatcher_def on_bytes_def Lossless_zstd_def split_beta)
  then have "SZ_decompress v A conf0 mem' (length bytes) (Some old) = Inr (conf2\<lparr>openmp := False\<rparr>, data)"
    using l n keep assms(5,6) current_version by (simp add: SZ_decompress_def SZ_decompress_impl_def)
  with m(1) show ?thesis by blast
qed

text \<open>C34 for twenty ones.\<close>
theorem sz3_lossless_roundtrip_witness:
  "\<exists>mem'. SZ_compress stored_env no_algos (zero_conf 20) (replicate 20 lit_1) (replicate 400 0) 400 = Inr (mem', 192 + 160) \<and>
    (\<exists>conf''. SZ_decompress stored_env no_algos config_init mem' (length (array_bytes 8 (replicate 20 lit_1)))
       (Some (replicate 20 0)) = Inr (conf'', replicate 20 lit_1))"
proof -
  have z: "ZSTD_compress (env_zstd stored_env) (400 - 192) (array_bytes 8 (replicate 20 lit_1)) 3 =
      (array_bytes 8 (replicate 20 lit_1), 160)"
    by (simp add: stored_env_def stored_zstd_def)
  have ok: "\<not> ERR_isError 160" by (simp add: ERR_isError_def ZSTD_ERROR_def)
  have "zstd_restores (env_zstd stored_env)" using stored_restores by (simp add: stored_env_def)
  then show ?thesis
    by (rule sz3_lossless_roundtrip [OF _ _ _ _ _ _ _ _ _ zero_conf_fields(6) _ z ok])
      (simp_all add: zero_conf_fields f64_eq_lits config_size_est_def)
qed





text \<open>C40: the algorithm without prediction cannot be reached: for the configuration that selects it, the dispatchers
  call functions whose first assertion demands another algorithm.\<close>
theorem sz3_nopred_dispatch:
  assumes "cmprAlgo conf = ALGO_num ALGO_NOPRED" "calAbsErrorBound (env_libm v) conf data 0 = Inr conf'"
    "\<not> f64_eq (absErrorBound conf') 0"
  shows "SZ_compress_dispatcher v A tN conf data cap = Inl Undefined \<and>
    SZ_decompress_dispatcher v A tN conf' mem cmpSize old = Inl Undefined"
proof -
  have "cmprAlgo conf' = ALGO_num ALGO_NOPRED" using calAbs_keeps(1) [OF assms(2)] assms(1) by simp
  then show ?thesis
    using assms(2,3)
    by (simp add: SZ_compress_dispatcher_def SZ_decompress_dispatcher_def SZ_compress_nopred_def SZ_decompress_nopred_def
        on_bytes_def ALGO_num_def)
qed

text \<open>C40 for twenty zeros and the bound 1.\<close>
theorem sz3_nopred_dispatch_witness:
  "SZ_compress_dispatcher stored_env no_algos 1 (unit_conf 20 (ALGO_num ALGO_NOPRED)) (replicate 20 0) 1000 = Inl Undefined \<and>
   SZ_decompress_dispatcher stored_env no_algos 1 (unit_conf 20 (ALGO_num ALGO_NOPRED)) (replicate 100 0) 100 (replicate 20 0) =
     Inl Undefined"
  by (rule sz3_nopred_dispatch [OF _ unit_conf_fields(4)]) (simp_all add: unit_conf_fields f64_eq_lits)

text \<open>C39: fewer than 20 values: the buffer that the allocating overload of \<open>SZ_compress\<close> takes, 1.2 times the size
  of the data, is smaller than the 192 bytes reserved for the header, so it never returns a result, and if the
  algorithm succeeds its output is written outside the buffer.\<close>
theorem sz3_compress_small:
  assumes "runs_on v" "unat (num conf) < 20"
  shows "\<exists>err. SZ_compress_alloc v A conf data = Inl err \<and>
    (N conf \<in> {1, 2, 3, 4} \<and> (\<forall>cap. \<exists>r. SZ_compress_impl v A (unat (N conf)) conf data cap = Inr r) \<longrightarrow> err = Undefined)"
proof -
  let ?est = "unat (num conf) * 8"
  have u: "unat (num conf * 8) = ?est" using assms(2) by (simp add: unat_mult_lem [THEN iffD1])
  have "?est < 2 ^ 50" using assms(2) by simp
  then obtain n where n: "f64_to_size (f64_mul lit_1_2 (f64_of_int (int ?est))) = Some n" "6 * ?est < 5 * n + 10" "5 * n \<le> 6 * ?est + 5"
    by (rule scaled_size) (rule that)
  have "f64_to_size (f64_mul (f64_of_int (uint (num conf * 8))) lit_1_2) = Some n"
    using n(1) unfolding u [symmetric] by (subst mul_commute) simp
  then have a: "SZ_compress_alloc v A conf data = SZ_compress v A conf data (env_malloc v n) (of_nat n)"
    by (simp add: SZ_compress_alloc_def)
  have small: "n < 192" using n(3) assms(2) by linarith
  have "?est \<le> n" using n(2) by (cases "unat (num conf) = 0") (simp, linarith)
  then have big: "\<not> of_nat n < num conf * 8" using small u by (simp add: word_less_nat_alt unat_of_nat64)
  have out: "store (env_malloc v n) config_size_est bytes = None" for bytes
    using assms(1) small by (simp add: store_def runs_on_def config_size_est_def)
  show ?thesis
  proof (cases "N conf \<in> {1, 2, 3, 4}")
    case True
    then have s: "SZ_compress v A conf data (env_malloc v n) (of_nat n) =
        (case SZ_compress_impl v A (unat (N conf)) conf data (of_nat n - of_nat config_size_est) of
           Inl err \<Rightarrow> Inl err | Inr r \<Rightarrow> Inl Undefined)"
      using big out by (simp add: SZ_compress_def Let_def del: insert_iff split: sum.split prod.split)
    show ?thesis
      unfolding a s
      by (cases "SZ_compress_impl v A (unat (N conf)) conf data (of_nat n - of_nat config_size_est)") (simp, metis Inl_Inr_False, simp)
  next
    case False
    then show ?thesis unfolding a using big by (simp add: SZ_compress_def Let_def del: insert_iff)
  qed
qed

text \<open>C39 for nineteen zeros.\<close>
theorem sz3_compress_small_witness:
  "SZ_compress_alloc stored_env no_algos (zero_conf 19) (replicate 19 0) = Inl Undefined"
proof -
  have "\<exists>r. SZ_compress_impl stored_env no_algos (unat (N (zero_conf 19))) (zero_conf 19) (replicate 19 0) cap = Inr r" for cap
    by (simp add: SZ_compress_impl_def SZ_compress_dispatcher_def zero_conf_fields f64_eq_lits split_beta)
  moreover have "unat (num (zero_conf 19)) < 20" "N (zero_conf 19) \<in> {1, 2, 3, 4}" by (simp_all add: zero_conf_fields)
  ultimately show ?thesis
    using sz3_compress_small [OF stored_runs, of "zero_conf 19" no_algos "replicate 19 0"] by metis
qed

end
